(* ===== verification/Fss_Prelude.thy ===== *)
theory Fss_Prelude
  imports Main "HOL-Library.Word"
begin

section \<open>Prelude: bytes, C strings, raw integers, allocation scripts\<close>

text \<open>
  What every component shares.
  \<^item> Bytes are values of type \<open>char\<close> (eight bits); a buffer is the list of the bytes
    stored in it so far.
  \<^item> \<open>size_t\<close> is a 64-bit word. The protocol sends it as the raw bytes of memory, least
    significant byte first (\<open>encode_size\<close>, \<open>decode_size\<close>, \<open>poke_size\<close>).
  \<^item> The string functions of the C library that the sources call (\<open>strchr\<close>,
    \<open>strncpy\<close>, \<open>snprintf\<close>, \<open>memmove\<close>), on byte lists.
  \<^item> The outcome of the allocations that the code checks is a script of booleans, taken
    from the front; an exhausted script means success.
\<close>

named_theorems frame_simps "fields that an operation leaves alone"
named_theorems unfold_ops "definitions of the system calls and the handlers"

type_synonym byte = char
type_synonym size_t = "64 word"
type_synonym c_int = "32 word"

subsection \<open>Little-endian integers\<close>

fun le_bytes :: "nat \<Rightarrow> nat \<Rightarrow> byte list" where
  "le_bytes 0 n = []"
| "le_bytes (Suc k) n = char_of (n mod 256) # le_bytes k (n div 256)"

fun le_val :: "byte list \<Rightarrow> nat" where
  "le_val [] = 0"
| "le_val (b # bs) = of_char b + 256 * le_val bs"

definition sizeof_size_t :: nat where
  "sizeof_size_t = 8"

definition encode_size :: "size_t \<Rightarrow> byte list" where
  "encode_size w = le_bytes sizeof_size_t (unat w)"

definition decode_size :: "byte list \<Rightarrow> size_t" where
  "decode_size bs = of_nat (le_val bs)"

text \<open>Overwriting some of the bytes of a \<open>size_t\<close> in memory, from offset \<open>off\<close> on.\<close>

definition poke_size :: "size_t \<Rightarrow> nat \<Rightarrow> byte list \<Rightarrow> size_t" where
  "poke_size w off bs =
     decode_size (take off (encode_size w) @ bs @ drop (off + length bs) (encode_size w))"

lemma length_le_bytes [simp]: "length (le_bytes k n) = k"
  by (induction k arbitrary: n) auto

lemma le_val_le_bytes: "le_val (le_bytes k n) = n mod 256 ^ k"
proof (induction k arbitrary: n)
  case 0
  then show ?case by simp
next
  case (Suc k)
  have "le_val (le_bytes (Suc k) n) = n mod 256 + 256 * ((n div 256) mod 256 ^ k)"
    by (simp add: Suc.IH)
  also have "\<dots> = n mod (256 * 256 ^ k)"
    by (simp add: mod_mult2_eq)
  finally show ?case by simp
qed

lemma le_bytes_le_val: "le_bytes (length bs) (le_val bs) = bs"
proof (induction bs)
  case Nil
  then show ?case by simp
next
  case (Cons b bs)
  have m: "(of_char b + 256 * le_val bs) mod 256 = of_char b"
    by simp
  have d: "(of_char b + 256 * le_val bs) div 256 = le_val bs"
    by simp
  show ?case by (simp add: m d Cons.IH del: mod_mult_self2)
qed

lemma le_val_bound: "le_val bs < 256 ^ length bs"
proof (induction bs)
  case Nil
  then show ?case by simp
next
  case (Cons b bs)
  have "le_val bs \<le> 256 ^ length bs - 1" using Cons.IH by simp
  then have "256 * le_val bs \<le> 256 * (256 ^ length bs - 1)" by (rule mult_le_mono2)
  moreover have "(of_char b :: nat) < 256" by simp
  ultimately have "of_char b + 256 * le_val bs < 256 + 256 * (256 ^ length bs - 1)" by linarith
  also have "\<dots> = 256 ^ length (b # bs)"
    by (simp add: right_diff_distrib')
  finally show ?case by simp
qed

lemma length_encode_size [simp]: "length (encode_size w) = sizeof_size_t"
  by (simp add: encode_size_def)

lemma decode_encode_size [simp]: "decode_size (encode_size w) = w"
proof -
  have "unat w < 256 ^ 8" using unsigned_less [of w, where 'a = nat] by simp
  then show ?thesis
    by (simp add: decode_size_def encode_size_def sizeof_size_t_def le_val_le_bytes)
qed

lemma encode_decode_size:
  assumes "length bs = sizeof_size_t"
  shows "encode_size (decode_size bs) = bs"
proof -
  have "le_val bs < 2 ^ 64" using le_val_bound [of bs] assms by (simp add: sizeof_size_t_def)
  then have "unat (decode_size bs) = le_val bs"
    by (simp add: decode_size_def unat_of_nat take_bit_nat_eq_self)
  then show ?thesis using assms le_bytes_le_val [of bs] by (simp add: encode_size_def)
qed

lemma encode_poke_size:
  assumes "off + length bs \<le> sizeof_size_t"
  shows "encode_size (poke_size w off bs)
           = take off (encode_size w) @ bs @ drop (off + length bs) (encode_size w)"
  unfolding poke_size_def using assms by (intro encode_decode_size) simp

lemma decode_eq_encode:
  assumes "encode_size w = bs"
  shows "w = decode_size bs"
  using assms decode_encode_size by metis

lemma unat_of_nat_le:
  assumes "n \<le> unat (w :: size_t)"
  shows "unat (of_nat n :: size_t) = n"
proof -
  have "unat w < 2 ^ 64" using unsigned_less [of w, where 'a = nat] by simp
  with assms have "n < 2 ^ 64" by simp
  then show ?thesis by (simp add: unat_of_nat take_bit_nat_eq_self)
qed

subsection \<open>C strings\<close>

abbreviation NUL :: byte where
  "NUL \<equiv> CHR 0x00"

abbreviation NL :: byte where
  "NL \<equiv> CHR 0x0A"

text \<open>The C string that starts at the front of a buffer; past the bytes stored there is a NUL.\<close>

definition cstr :: "byte list \<Rightarrow> string" where
  "cstr buf = takeWhile (\<lambda>c. c \<noteq> NUL) buf"

text \<open>\<open>strchr\<close>: the position of the first \<open>ch\<close> before the terminating NUL.\<close>

fun strchr :: "byte list \<Rightarrow> byte \<Rightarrow> nat option" where
  "strchr [] ch = None"
| "strchr (x # xs) ch =
     (if x = ch then Some 0 else if x = NUL then None else map_option Suc (strchr xs ch))"

text \<open>\<open>strncpy\<close> into a zeroed array: the C string that results.\<close>

definition strncpy :: "nat \<Rightarrow> byte list \<Rightarrow> string" where
  "strncpy n src = take n (cstr src)"

text \<open>\<open>snprintf\<close>: what the buffer holds, and the length it would have needed.\<close>

definition snprintf :: "nat \<Rightarrow> string \<Rightarrow> string \<times> nat" where
  "snprintf n s = (take (n - 1) s, length s)"

text \<open>\<open>memmove\<close> of \<open>n\<close> cells inside one array.\<close>

definition memmove :: "'a list \<Rightarrow> nat \<Rightarrow> nat \<Rightarrow> nat \<Rightarrow> 'a list" where
  "memmove xs dst src n = take dst xs @ take n (drop src xs) @ drop (dst + n) xs"

lemma cstr_no_nul [simp]: "NUL \<notin> set (cstr buf)"
  by (auto simp: cstr_def dest: set_takeWhileD)

lemma cstr_id: "NUL \<notin> set s \<Longrightarrow> cstr s = s"
  by (auto simp: cstr_def takeWhile_eq_all_conv)

lemma cstr_stop: "NUL \<notin> set s \<Longrightarrow> cstr (s @ NUL # t) = s"
  by (induction s) (auto simp: cstr_def)

lemma strchr_None_iff: "strchr s ch = None \<longleftrightarrow> ch \<notin> set (cstr s) \<and> \<not> (ch = NUL \<and> NUL \<in> set s)"
  by (induction s) (auto simp: cstr_def)

lemma strchr_first:
  assumes "ch \<notin> set s" and "NUL \<notin> set s"
  shows "strchr (s @ ch # t) ch = Some (length s)"
  using assms by (induction s) auto

lemma strchr_absent:
  assumes "ch \<notin> set s" and "NUL \<notin> set s"
  shows "strchr s ch = None"
  using assms by (induction s) auto

lemma strchr_absent_nul:
  assumes "ch \<notin> set s" and "NUL \<notin> set s" and "ch \<noteq> NUL"
  shows "strchr (s @ NUL # t) ch = None"
  using assms by (induction s) auto

lemma length_strncpy: "length (strncpy n src) \<le> n"
  by (simp add: strncpy_def)

lemma strncpy_no_nul: "NUL \<notin> set (strncpy n src)"
  unfolding strncpy_def using cstr_no_nul [of src] by (meson in_set_takeD)

lemma length_memmove:
  assumes "dst \<le> src" and "src + n \<le> length xs"
  shows "length (memmove xs dst src n) = length xs"
  using assms by (auto simp: memmove_def)

text \<open>Moving the tail of the first \<open>n\<close> cells one cell down removes the cell at \<open>i\<close>.\<close>

lemma take_memmove_down:
  assumes "i < n" and "n \<le> length xs"
  shows "take (n - 1) (memmove xs i (Suc i) (n - i - 1)) = take i xs @ drop (Suc i) (take n xs)"
proof -
  let ?a = "take i xs @ take (n - i - 1) (drop (Suc i) xs)"
  have l: "length ?a = n - 1" using assms by simp
  have "memmove xs i (Suc i) (n - i - 1) = ?a @ drop (i + (n - i - 1)) xs"
    by (simp add: memmove_def)
  with l have "take (n - 1) (memmove xs i (Suc i) (n - i - 1)) = ?a" by (metis append_eq_conv_conj)
  then show ?thesis by (simp add: drop_take)
qed

subsection \<open>Allocation scripts\<close>

definition next_alloc :: "bool list \<Rightarrow> bool \<times> bool list" where
  "next_alloc al = (case al of [] \<Rightarrow> (True, []) | a # rest \<Rightarrow> (a, rest))"

lemma next_alloc_Nil [simp]: "next_alloc [] = (True, [])"
  by (simp add: next_alloc_def)

lemma next_alloc_Cons [simp]: "next_alloc (a # al) = (a, al)"
  by (simp add: next_alloc_def)

subsection \<open>Lists\<close>

lemma map_of_filter_other:
  "map_of (filter (\<lambda>(k, v). k \<noteq> x) ps) = (map_of ps)(x := None)"
  by (induction ps) (auto simp: fun_eq_iff)

lemma map_of_NoneI: "k \<notin> fst ` set ps \<Longrightarrow> map_of ps k = None"
  by (simp add: map_of_eq_None_iff)

lemma map_of_without:
  assumes "k \<notin> fst ` set xs" and "k \<notin> fst ` set ys"
  shows "map_of (xs @ ys) = (map_of (xs @ (k, v) # ys))(k := None)"
  using assms by (induction xs) (auto simp: fun_eq_iff map_of_eq_None_iff)

lemma take_Suc_snoc: "i < length xs \<Longrightarrow> take (Suc i) xs = take i xs @ [xs ! i]"
  by (rule take_Suc_conv_app_nth)

lemma length_filter_le_Suc: "length (filter P xs) \<le> length xs"
  by (rule length_filter_le)

end
