(* ===== verification/Fss_Vector.thy ===== *)
theory Fss_Vector
  imports Fss_Prelude
begin

section \<open>The growable array of \<open>src/collections.c\<close>\<close>

text \<open>
  \<open>struct vector\<close> and its operations. A pointer to a vector is an option (\<open>None\<close> is
  NULL), so the NULL tests of the code are branches. A cell of the array holds
  \<open>Some x\<close>, or \<open>None\<close> where nothing has been stored (NULL after \<open>calloc\<close>,
  undetermined after \<open>realloc\<close>). An operation that allocates takes and returns the
  allocation script. Calls to the element destructor are reported as the list of the
  elements it was called on. Sizes are natural numbers: a vector occupies eight bytes per
  element, so its size and capacity stay below $2^{61}$.

  The contract of the array (\<open>items\<close>: the list of its elements) is the locale
  \<open>dyn_array\<close>; the linear search that the server runs over the array is proved once in
  it, and the interpretation \<open>vec\<close> gives these facts for the code's vector.
\<close>

subsection \<open>The code\<close>

definition INITIAL_CAPACITY :: nat where
  "INITIAL_CAPACITY = 8"

definition GROWTH_FACTOR :: nat where
  "GROWTH_FACTOR = 2"

record 'a vector =
  v_data :: "'a option list"
  v_size :: nat
  v_capacity :: nat
  v_destructor :: bool

definition vector_create :: "bool \<Rightarrow> bool list \<Rightarrow> 'a vector option \<times> bool list" where
  "vector_create destructor al =
     (let (ok1, al1) = next_alloc al in
      if \<not> ok1 then (None, al1)
      else let (ok2, al2) = next_alloc al1 in
      if \<not> ok2 then (None, al2)
      else (Some \<lparr>v_data = replicate INITIAL_CAPACITY None, v_size = 0,
                  v_capacity = INITIAL_CAPACITY, v_destructor = destructor\<rparr>, al2))"

fun vector_destroy :: "'a vector option \<Rightarrow> 'a option list" where
  "vector_destroy None = []"
| "vector_destroy (Some this) =
     (if v_destructor this then take (v_size this) (v_data this) else [])"

fun vector_size :: "'a vector option \<Rightarrow> nat" where
  "vector_size None = 0"
| "vector_size (Some this) = v_size this"

fun vector_get :: "'a vector option \<Rightarrow> nat \<Rightarrow> 'a option" where
  "vector_get None n = None"
| "vector_get (Some this) n = (if n \<ge> v_size this then None else v_data this ! n)"

fun vector_push_back :: "bool list \<Rightarrow> 'a vector option \<Rightarrow> 'a \<Rightarrow> bool list \<times> 'a vector option" where
  "vector_push_back al None element = (al, None)"
| "vector_push_back al (Some this) element =
     (let store = (\<lambda>t. t\<lparr>v_data := (v_data t)[v_size t := Some element], v_size := v_size t + 1\<rparr>) in
      if v_size this = v_capacity this
      then (let next_capacity = v_capacity this * GROWTH_FACTOR;
                (ok, al') = next_alloc al in
            if \<not> ok then (al', Some this)
            else (al', Some (store (this\<lparr>v_data := v_data this @ replicate (next_capacity - v_capacity this) None,
                                         v_capacity := next_capacity\<rparr>))))
      else (al, Some (store this)))"

fun vector_erase :: "'a vector option \<Rightarrow> nat \<Rightarrow> 'a vector option \<times> 'a option list" where
  "vector_erase None position = (None, [])"
| "vector_erase (Some this) position =
     (if position \<ge> v_size this then (Some this, [])
      else (let destroyed = (if v_destructor this then [v_data this ! position] else []);
                data = (if position + 1 < v_size this
                        then memmove (v_data this) position (position + 1) (v_size this - position - 1)
                        else v_data this)
            in (Some (this\<lparr>v_data := data, v_size := v_size this - 1\<rparr>), destroyed)))"

text \<open>
  The search loop of the server, \<open>for (i = 0; i < vector_size(v); i++)\<close> with a test on
  \<open>vector_get(v, i)\<close>: the first index from \<open>i\<close> on whose element satisfies \<open>P\<close>.
\<close>

function index_loop :: "('v \<Rightarrow> nat) \<Rightarrow> ('v \<Rightarrow> nat \<Rightarrow> 'a option) \<Rightarrow> ('a \<Rightarrow> bool) \<Rightarrow> 'v \<Rightarrow> nat \<Rightarrow> nat option" where
  "index_loop size_of get P v i =
     (if i < size_of v
      then (if (case get v i of None \<Rightarrow> False | Some x \<Rightarrow> P x) then Some i
            else index_loop size_of get P v (Suc i))
      else None)"
  by pat_completeness auto
termination
  by (relation "measure (\<lambda>(size_of, get, P, v, i). size_of v - i)") auto

declare index_loop.simps [simp del]

subsection \<open>The contract\<close>

locale dyn_array =
  fixes size_of :: "'v \<Rightarrow> nat"
    and get :: "'v \<Rightarrow> nat \<Rightarrow> 'a option"
    and push :: "bool list \<Rightarrow> 'v \<Rightarrow> 'a \<Rightarrow> bool list \<times> 'v"
    and erase :: "'v \<Rightarrow> nat \<Rightarrow> 'v"
    and items :: "'v \<Rightarrow> 'a list"
    and good :: "'v \<Rightarrow> bool"
  assumes size_items: "good v \<Longrightarrow> size_of v = length (items v)"
    and get_items: "good v \<Longrightarrow> i < length (items v) \<Longrightarrow> get v i = Some (items v ! i)"
    and get_beyond: "good v \<Longrightarrow> length (items v) \<le> i \<Longrightarrow> get v i = None"
    and push_items: "good v \<Longrightarrow> items (snd (push al v x)) = items v @ [x]
                       \<or> (items (snd (push al v x)) = items v \<and> False \<in> set al)"
    and push_good: "good v \<Longrightarrow> good (snd (push al v x))"
    and push_script: "good v \<Longrightarrow> set (fst (push al v x)) \<subseteq> set al"
    and erase_items: "good v \<Longrightarrow> i < length (items v) \<Longrightarrow>
                        items (erase v i) = take i (items v) @ drop (Suc i) (items v)"
    and erase_good: "good v \<Longrightarrow> i < length (items v) \<Longrightarrow> good (erase v i)"
begin

lemma push_enough:
  assumes "good v" and "False \<notin> set al"
  shows "items (snd (push al v x)) = items v @ [x]"
  using push_items [OF assms(1)] assms(2) by blast

lemma index_loop_step:
  assumes "good v"
  shows "index_loop size_of get P v i =
           (if i < length (items v)
            then (if P (items v ! i) then Some i else index_loop size_of get P v (Suc i))
            else None)"
  using assms by (subst index_loop.simps) (simp add: size_items get_items)

lemma index_loop_Some:
  assumes "good v" and "index_loop size_of get P v i = Some j"
  shows "i \<le> j \<and> j < length (items v) \<and> P (items v ! j) \<and> (\<forall>k. i \<le> k \<and> k < j \<longrightarrow> \<not> P (items v ! k))"
  using assms(2)
proof (induction "length (items v) - i" arbitrary: i)
  case 0
  then show ?case using assms(1) by (simp add: index_loop_step [of v P i])
next
  case (Suc n)
  from Suc.hyps(2) have i: "i < length (items v)" by simp
  show ?case
  proof (cases "P (items v ! i)")
    case True
    with i Suc.prems show ?thesis using assms(1) by (auto simp: index_loop_step [of v P i])
  next
    case False
    with i Suc.prems have "index_loop size_of get P v (Suc i) = Some j"
      using assms(1) by (simp add: index_loop_step [of v P i])
    moreover have "n = length (items v) - Suc i" using Suc.hyps(2) by simp
    ultimately have "Suc i \<le> j \<and> j < length (items v) \<and> P (items v ! j)
        \<and> (\<forall>k. Suc i \<le> k \<and> k < j \<longrightarrow> \<not> P (items v ! k))"
      using Suc.hyps(1) by blast
    with False show ?thesis by (metis Suc_leD Suc_leI le_neq_implies_less)
  qed
qed

lemma index_loop_None:
  assumes "good v"
  shows "index_loop size_of get P v i = None \<longleftrightarrow> (\<forall>k. i \<le> k \<and> k < length (items v) \<longrightarrow> \<not> P (items v ! k))"
proof (induction "length (items v) - i" arbitrary: i)
  case 0
  then show ?case using assms by (auto simp: index_loop_step [of v P i])
next
  case (Suc n)
  from Suc.hyps(2) have i: "i < length (items v)" by simp
  have "n = length (items v) - Suc i" using Suc.hyps(2) by simp
  from Suc.hyps(1) [OF this] i show ?case
    using assms by (auto simp: index_loop_step [of v P i] Suc_le_eq less_Suc_eq_le
        intro: le_neq_implies_less dest: le_imp_less_or_eq)
qed

lemma search_absent:
  assumes "good v"
  shows "index_loop size_of get (\<lambda>y. y = x) v 0 = None \<longleftrightarrow> x \<notin> set (items v)"
  using assms by (auto simp: index_loop_None in_set_conv_nth)

lemma search_present:
  assumes "good v" and "index_loop size_of get (\<lambda>y. y = x) v 0 = Some j"
  shows "j < length (items v)" and "items v ! j = x"
  using index_loop_Some [OF assms] by simp_all

text \<open>Erasing at the index that the search found removes the first occurrence.\<close>

lemma erase_found:
  assumes "good v" and "index_loop size_of get (\<lambda>y. y = x) v 0 = Some j"
  shows "items (erase v j) = remove1 x (items v)"
proof -
  note j = index_loop_Some [OF assms]
  have "x \<notin> set (take j (items v))"
    using j by (auto simp: in_set_conv_nth)
  then have "remove1 x (take j (items v) @ x # drop (Suc j) (items v))
               = take j (items v) @ drop (Suc j) (items v)"
    by (simp add: remove1_append)
  moreover have "items v = take j (items v) @ x # drop (Suc j) (items v)"
    using j by (metis id_take_nth_drop)
  ultimately show ?thesis
    using assms(1) j by (metis erase_items)
qed

end

subsection \<open>The code's vector meets it\<close>

definition vec_ok :: "'a vector option \<Rightarrow> bool" where
  "vec_ok v = (case v of None \<Rightarrow> False | Some t \<Rightarrow>
     length (v_data t) = v_capacity t \<and> v_size t \<le> v_capacity t \<and> 0 < v_capacity t \<and>
     (\<forall>i < v_size t. v_data t ! i \<noteq> None))"

definition vec_items :: "'a vector option \<Rightarrow> 'a list" where
  "vec_items v = (case v of None \<Rightarrow> [] | Some t \<Rightarrow> map the (take (v_size t) (v_data t)))"

definition vec_erase :: "'a vector option \<Rightarrow> nat \<Rightarrow> 'a vector option" where
  "vec_erase v i = fst (vector_erase v i)"

lemma length_vec_items: "vec_ok v \<Longrightarrow> length (vec_items v) = vector_size v"
  by (cases v) (auto simp: vec_ok_def vec_items_def)

lemma nth_vec_items:
  "vec_ok v \<Longrightarrow> i < vector_size v \<Longrightarrow> vector_get v i = Some (vec_items v ! i)"
  by (cases v) (auto simp: vec_ok_def vec_items_def)

lemma push_room:
  fixes t :: "'a vector" and x :: 'a
  assumes "vec_ok (Some t)" and "v_size t < v_capacity t"
  defines "t' \<equiv> t\<lparr>v_data := (v_data t)[v_size t := Some x], v_size := v_size t + 1\<rparr>"
  shows "vec_ok (Some t')" and "vec_items (Some t') = vec_items (Some t) @ [x]"
proof -
  show "vec_ok (Some t')"
    using assms(1,2) by (auto simp: vec_ok_def t'_def nth_list_update less_Suc_eq)
  have "v_size t < length ((v_data t)[v_size t := Some x])"
    using assms(1,2) by (simp add: vec_ok_def)
  then show "vec_items (Some t') = vec_items (Some t) @ [x]"
    by (simp add: vec_items_def t'_def take_Suc_conv_app_nth)
qed

lemma grow_ok:
  assumes "vec_ok (Some t)"
  defines "t' \<equiv> t\<lparr>v_data := v_data t @ replicate (v_capacity t * GROWTH_FACTOR - v_capacity t) None,
                    v_capacity := v_capacity t * GROWTH_FACTOR\<rparr>"
  shows "vec_ok (Some t')" and "vec_items (Some t') = vec_items (Some t)"
    and "v_size t' < v_capacity t'" and "v_size t' = v_size t"
  using assms(1) by (auto simp: vec_ok_def vec_items_def t'_def GROWTH_FACTOR_def nth_append)

lemma vector_push_back_cases:
  assumes "vec_ok v"
  shows "vec_ok (snd (vector_push_back al v x)) \<and> set (fst (vector_push_back al v x)) \<subseteq> set al \<and>
         (vec_items (snd (vector_push_back al v x)) = vec_items v @ [x]
          \<or> vec_items (snd (vector_push_back al v x)) = vec_items v \<and> False \<in> set al)"
proof -
  from assms obtain t where v: "v = Some t" by (cases v) (auto simp: vec_ok_def)
  show ?thesis
  proof (cases "v_size t = v_capacity t")
    case False
    then have "v_size t < v_capacity t" using assms v by (simp add: vec_ok_def)
    from push_room [OF _ this] assms v False show ?thesis by auto
  next
    case True
    note g = grow_ok [OF assms [unfolded v]]
    obtain ok al' where na: "next_alloc al = (ok, al')" by fastforce
    then have sub: "set al' \<subseteq> set al" and no: "\<not> ok \<Longrightarrow> False \<in> set al"
      by (auto simp: next_alloc_def split: list.splits)
    from push_room [OF g(1) g(3), of x] g(2,4) True na sub no assms v show ?thesis
      by (auto simp: Let_def)
  qed
qed

lemma vector_erase_items:
  assumes "vec_ok v" and "i < vector_size v"
  shows "vec_ok (vec_erase v i)"
    and "vec_items (vec_erase v i) = take i (vec_items v) @ drop (Suc i) (vec_items v)"
proof -
  from assms(1) obtain t where v: "v = Some t" by (cases v) (auto simp: vec_ok_def)
  let ?d = "v_data t" and ?n = "v_size t"
  have b: "?n \<le> length ?d" "i < ?n" using assms v by (auto simp: vec_ok_def)
  have mm: "take (?n - 1) (if i + 1 < ?n then memmove ?d i (i + 1) (?n - i - 1) else ?d)
              = take i ?d @ drop (Suc i) (take ?n ?d)"
  proof (cases "i + 1 < ?n")
    case True
    then show ?thesis using b take_memmove_down [of i ?n ?d] by simp
  next
    case False
    then have "?n = Suc i" using b by simp
    then show ?thesis by simp
  qed
  show "vec_items (vec_erase v i) = take i (vec_items v) @ drop (Suc i) (vec_items v)"
    using b mm by (simp add: v vec_erase_def vec_items_def Let_def take_map drop_map min_def)
  have ln: "length (if i + 1 < ?n then memmove ?d i (i + 1) (?n - i - 1) else ?d) = length ?d"
    using b by (simp add: length_memmove)
  have "\<forall>k < ?n - 1. (if i + 1 < ?n then memmove ?d i (i + 1) (?n - i - 1) else ?d) ! k \<noteq> None"
  proof (intro allI impI)
    fix k assume k: "k < ?n - 1"
    have "(if i + 1 < ?n then memmove ?d i (i + 1) (?n - i - 1) else ?d) ! k
            = (take i ?d @ drop (Suc i) (take ?n ?d)) ! k"
      using k by (metis mm nth_take)
    also have "\<dots> = (if k < i then ?d ! k else ?d ! Suc k)"
      using b k by (auto simp: nth_append)
    finally show "(if i + 1 < ?n then memmove ?d i (i + 1) (?n - i - 1) else ?d) ! k \<noteq> None"
      using assms(1) v k by (auto simp: vec_ok_def)
  qed
  with assms v b ln show "vec_ok (vec_erase v i)"
    by (auto simp: vec_ok_def vec_erase_def Let_def)
qed

interpretation vec: dyn_array vector_size vector_get vector_push_back vec_erase vec_items vec_ok
proof
  fix v :: "'a vector option" and i :: nat and al :: "bool list" and x :: 'a
  assume ok: "vec_ok v"
  show "vector_size v = length (vec_items v)" using ok by (simp add: length_vec_items)
  show "vector_get v i = Some (vec_items v ! i)" if "i < length (vec_items v)"
    using ok that by (simp add: length_vec_items nth_vec_items)
  show "vector_get v i = None" if "length (vec_items v) \<le> i"
    using ok that by (cases v) (simp_all add: length_vec_items)
  show "vec_items (snd (vector_push_back al v x)) = vec_items v @ [x]
          \<or> vec_items (snd (vector_push_back al v x)) = vec_items v \<and> False \<in> set al"
    and "vec_ok (snd (vector_push_back al v x))"
    and "set (fst (vector_push_back al v x)) \<subseteq> set al"
    using vector_push_back_cases [OF ok] by blast+
  show "vec_items (vec_erase v i) = take i (vec_items v) @ drop (Suc i) (vec_items v)"
    and "vec_ok (vec_erase v i)" if "i < length (vec_items v)"
    using ok that by (simp_all add: length_vec_items vector_erase_items)
qed

lemma vector_create_items:
  assumes "vector_create d al = (v, al')" and "False \<notin> set al"
  shows "vec_ok v \<and> vec_items v = []"
  using assms
  by (auto simp: vector_create_def next_alloc_def vec_ok_def vec_items_def INITIAL_CAPACITY_def
      split: list.splits)

subsection \<open>Properties\<close>

text \<open>C28: The vector implements a list. Whatever the capacity is, as long as no allocation
  fails, \<open>vector_push_back\<close> appends, also when it has to grow the array first;
  \<open>vector_erase\<close> inside the bounds removes exactly that element and outside changes nothing;
  \<open>vector_size\<close> and \<open>vector_get\<close> are the length and the element, NULL beyond the end.\<close>

theorem vector_refines_list:
  assumes "vec_ok v" and "False \<notin> set al"
  shows "vec_ok (snd (vector_push_back al v x))
    \<and> vec_items (snd (vector_push_back al v x)) = vec_items v @ [x]
    \<and> vec_ok (fst (vector_erase v i))
    \<and> vec_items (fst (vector_erase v i)) = take i (vec_items v) @ drop (Suc i) (vec_items v)
    \<and> vector_size v = length (vec_items v)
    \<and> vector_get v i = (if i < length (vec_items v) then Some (vec_items v ! i) else None)"
proof -
  have "vec_ok (fst (vector_erase v i))
    \<and> vec_items (fst (vector_erase v i)) = take i (vec_items v) @ drop (Suc i) (vec_items v)"
  proof (cases "i < vector_size v")
    case True
    then show ?thesis using vector_erase_items [OF assms(1)] by (simp add: vec_erase_def)
  next
    case False
    then show ?thesis using assms(1) by (cases v) (auto simp: vec_ok_def vec_items_def)
  qed
  then show ?thesis
    using vec.push_enough [OF assms, of x] vec.push_good [OF assms(1), of al x] vec.size_items [OF assms(1)]
      vec.get_items [OF assms(1), of i] vec.get_beyond [OF assms(1), of i]
    by (simp add: not_less)
qed

theorem vector_refines_list_witness:
  "vec_items (snd (vector_push_back [] (fst (vector_create False [])) ''a'')) = [''a'']"
proof -
  have v: "vec_ok (fst (vector_create False []) :: string vector option)"
    and e: "vec_items (fst (vector_create False []) :: string vector option) = []"
    using vector_create_items [of False "[]" "fst (vector_create False [] :: string vector option \<times> bool list)"
        "snd (vector_create False [] :: string vector option \<times> bool list)"] by simp_all
  show ?thesis using vector_refines_list [OF v, of "[]" "''a''"] by (simp add: e)
qed



end
