(* ===== verification/Fss_Dictionary.thy ===== *)
theory Fss_Dictionary
  imports Fss_Vector
begin

section \<open>The dictionary of \<open>src/collections.c\<close>\<close>

text \<open>
  \<open>struct dictionary\<close>: an array of (integer key, value pointer) entries searched linearly.
  A pointer to a dictionary and a pointer to a key are options (\<open>None\<close> is NULL); a cell of
  the array is \<open>None\<close> where no entry was ever stored. The values are non-NULL pointers.

  The contract, the locale \<open>finite_map\<close>, says that the operations implement a partial map;
  the facts that the server needs about a map from descriptors to client objects (other
  entries unaffected, injectivity kept) are proved in the locale, and the interpretation
  \<open>dict\<close> gives them for the code's dictionary.
\<close>

subsection \<open>The code\<close>

record 'v dictionary =
  d_entries :: "(int \<times> 'v) option list"
  d_size :: nat
  d_capacity :: nat

definition dictionary_create :: "bool list \<Rightarrow> 'v dictionary option \<times> bool list" where
  "dictionary_create al =
     (let (ok1, al1) = next_alloc al in
      if \<not> ok1 then (None, al1)
      else let (ok2, al2) = next_alloc al1 in
      if \<not> ok2 then (None, al2)
      else (Some \<lparr>d_entries = replicate INITIAL_CAPACITY None, d_size = 0,
                  d_capacity = INITIAL_CAPACITY\<rparr>, al2))"

definition int_to_shallow_dictionary_create :: "bool list \<Rightarrow> 'v dictionary option \<times> bool list" where
  "int_to_shallow_dictionary_create al = dictionary_create al"

text \<open>The entries and the dictionary are freed: nothing is left of it.\<close>

definition dictionary_destroy :: "'v dictionary option \<Rightarrow> 'v dictionary option" where
  "dictionary_destroy this = (case this of None \<Rightarrow> None | Some d \<Rightarrow> None)"

text \<open>The search loop of the three operations: the first index whose entry has the key.\<close>

function dict_find :: "'v dictionary \<Rightarrow> int \<Rightarrow> nat \<Rightarrow> nat option" where
  "dict_find this int_key i =
     (if i < d_size this
      then (if map_option fst (d_entries this ! i) = Some int_key then Some i
            else dict_find this int_key (Suc i))
      else None)"
  by pat_completeness auto
termination
  by (relation "measure (\<lambda>(this, int_key, i). d_size this - i)") auto

declare dict_find.simps [simp del]

fun dictionary_set :: "bool list \<Rightarrow> 'v dictionary option \<Rightarrow> int option \<Rightarrow> 'v
    \<Rightarrow> bool list \<times> 'v dictionary option" where
  "dictionary_set al None key v = (al, None)"
| "dictionary_set al (Some this) None v = (al, Some this)"
| "dictionary_set al (Some this) (Some int_key) v =
     (let store = (\<lambda>t. t\<lparr>d_entries := (d_entries t)[d_size t := Some (int_key, v)], d_size := d_size t + 1\<rparr>) in
      case dict_find this int_key 0 of
        Some i \<Rightarrow> (al, Some (this\<lparr>d_entries := (d_entries this)[i := Some (int_key, v)]\<rparr>))
      | None \<Rightarrow>
          if d_size this = d_capacity this
          then (let next_capacity = d_capacity this * GROWTH_FACTOR;
                    (ok, al') = next_alloc al in
                if \<not> ok then (al', Some this)
                else (al', Some (store (this\<lparr>d_entries := d_entries this @ replicate (next_capacity - d_capacity this) None,
                                             d_capacity := next_capacity\<rparr>))))
          else (al, Some (store this)))"

fun dictionary_get :: "'v dictionary option \<Rightarrow> int option \<Rightarrow> 'v option" where
  "dictionary_get None key = None"
| "dictionary_get (Some this) None = None"
| "dictionary_get (Some this) (Some int_key) =
     (case dict_find this int_key 0 of
        Some i \<Rightarrow> map_option snd (d_entries this ! i)
      | None \<Rightarrow> None)"

fun dictionary_remove :: "'v dictionary option \<Rightarrow> int option \<Rightarrow> 'v dictionary option" where
  "dictionary_remove None key = None"
| "dictionary_remove (Some this) None = Some this"
| "dictionary_remove (Some this) (Some int_key) =
     (case dict_find this int_key 0 of
        Some i \<Rightarrow>
          Some (this\<lparr>d_entries := (if i + 1 < d_size this
                       then memmove (d_entries this) i (i + 1) (d_size this - i - 1)
                       else d_entries this),
                     d_size := d_size this - 1\<rparr>)
      | None \<Rightarrow> Some this)"

subsection \<open>The contract\<close>

locale finite_map =
  fixes lookup :: "'m \<Rightarrow> 'k \<Rightarrow> 'v option"
    and upd :: "bool list \<Rightarrow> 'm \<Rightarrow> 'k \<Rightarrow> 'v \<Rightarrow> bool list \<times> 'm"
    and del :: "'m \<Rightarrow> 'k \<Rightarrow> 'm"
    and good :: "'m \<Rightarrow> bool"
  assumes upd_good: "good m \<Longrightarrow> good (snd (upd al m k v))"
    and del_good: "good m \<Longrightarrow> good (del m k)"
    and upd_lookup: "good m \<Longrightarrow> lookup (snd (upd al m k v)) = (lookup m)(k \<mapsto> v)
                        \<or> (lookup (snd (upd al m k v)) = lookup m \<and> lookup m k = None \<and> False \<in> set al)"
    and del_lookup: "good m \<Longrightarrow> lookup (del m k) = (lookup m)(k := None)"
begin

lemma upd_enough: "good m \<Longrightarrow> False \<notin> set al \<Longrightarrow> lookup (snd (upd al m k v)) k = Some v"
  using upd_lookup by (metis fun_upd_same)

lemma upd_other: "good m \<Longrightarrow> j \<noteq> k \<Longrightarrow> lookup (snd (upd al m k v)) j = lookup m j"
  using upd_lookup by (metis fun_upd_other)

lemma del_same: "good m \<Longrightarrow> lookup (del m k) k = None"
  by (simp add: del_lookup)

lemma del_other: "good m \<Longrightarrow> j \<noteq> k \<Longrightarrow> lookup (del m k) j = lookup m j"
  by (simp add: del_lookup)

lemma upd_cases:
  assumes "good m" and "lookup (snd (upd al m k v)) j = Some x"
  shows "(j = k \<and> x = v) \<or> lookup m j = Some x"
  using upd_lookup [OF assms(1), of al k v] assms(2) by (auto split: if_splits)

lemma upd_del:
  assumes "good m" and "False \<notin> set al"
  shows "lookup (del (snd (upd al m k v)) k) = (lookup m)(k := None)"
  using assms upd_lookup [OF assms(1), of al k v] upd_good [OF assms(1)]
  by (metis del_lookup fun_upd_upd)

text \<open>A map whose values are distinct pointers keeps them distinct.\<close>

definition inj_map :: "'m \<Rightarrow> bool" where
  "inj_map m \<longleftrightarrow> (\<forall>i j x. lookup m i = Some x \<and> lookup m j = Some x \<longrightarrow> i = j)"

lemma del_inj: "good m \<Longrightarrow> inj_map m \<Longrightarrow> inj_map (del m k)"
  by (auto simp: inj_map_def del_lookup)

lemma upd_inj:
  assumes "good m" and "inj_map m" and "\<forall>j. lookup m j \<noteq> Some v"
  shows "inj_map (snd (upd al m k v))"
  unfolding inj_map_def
proof (intro allI impI)
  fix i j x
  assume "lookup (snd (upd al m k v)) i = Some x \<and> lookup (snd (upd al m k v)) j = Some x"
  then have "(i = k \<and> x = v) \<or> lookup m i = Some x" and "(j = k \<and> x = v) \<or> lookup m j = Some x"
    using upd_cases [OF assms(1)] by blast+
  with assms(2,3) show "i = j" unfolding inj_map_def by metis
qed

end

subsection \<open>The code's dictionary meets it\<close>

definition dict_entries :: "'v dictionary \<Rightarrow> (int \<times> 'v) list" where
  "dict_entries d = map the (take (d_size d) (d_entries d))"

definition dict_ok :: "'v dictionary option \<Rightarrow> bool" where
  "dict_ok m = (case m of None \<Rightarrow> False | Some d \<Rightarrow>
     length (d_entries d) = d_capacity d \<and> d_size d \<le> d_capacity d \<and> 0 < d_capacity d \<and>
     (\<forall>i < d_size d. d_entries d ! i \<noteq> None) \<and> distinct (map fst (dict_entries d)))"

definition dict_lookup :: "'v dictionary option \<Rightarrow> int \<Rightarrow> 'v option" where
  "dict_lookup m k = dictionary_get m (Some k)"

definition dict_upd :: "bool list \<Rightarrow> 'v dictionary option \<Rightarrow> int \<Rightarrow> 'v \<Rightarrow> bool list \<times> 'v dictionary option" where
  "dict_upd al m k v = dictionary_set al m (Some k) v"

definition dict_del :: "'v dictionary option \<Rightarrow> int \<Rightarrow> 'v dictionary option" where
  "dict_del m k = dictionary_remove m (Some k)"

lemma length_dict_entries: "dict_ok (Some d) \<Longrightarrow> length (dict_entries d) = d_size d"
  by (simp add: dict_ok_def dict_entries_def)

lemma nth_dict_entries:
  "dict_ok (Some d) \<Longrightarrow> i < d_size d \<Longrightarrow> d_entries d ! i = Some (dict_entries d ! i)"
  by (auto simp: dict_ok_def dict_entries_def)

lemma dict_find_step:
  assumes "dict_ok (Some d)"
  shows "dict_find d k i = (if i < d_size d
           then (if fst (dict_entries d ! i) = k then Some i else dict_find d k (Suc i)) else None)"
  using assms by (subst dict_find.simps) (simp add: nth_dict_entries)

lemma dict_find_Some:
  assumes "dict_ok (Some d)" and "dict_find d k i = Some j"
  shows "i \<le> j \<and> j < d_size d \<and> fst (dict_entries d ! j) = k"
  using assms(2)
proof (induction "d_size d - i" arbitrary: i)
  case 0
  then show ?case using assms(1) by (simp add: dict_find_step [of d k i])
next
  case (Suc n)
  from Suc.hyps(2) have i: "i < d_size d" by simp
  show ?case
  proof (cases "fst (dict_entries d ! i) = k")
    case True
    with i Suc.prems show ?thesis using assms(1) by (auto simp: dict_find_step [of d k i])
  next
    case False
    with i Suc.prems have "dict_find d k (Suc i) = Some j"
      using assms(1) by (simp add: dict_find_step [of d k i])
    moreover have "n = d_size d - Suc i" using Suc.hyps(2) by simp
    ultimately show ?thesis using Suc.hyps(1) [of "Suc i"] by simp
  qed
qed

lemma dict_find_None:
  assumes "dict_ok (Some d)" and "dict_find d k i = None" and "i \<le> j" and "j < d_size d"
  shows "fst (dict_entries d ! j) \<noteq> k"
  using assms(2,3)
proof (induction "d_size d - i" arbitrary: i)
  case 0
  then show ?case using assms(4) by simp
next
  case (Suc n)
  from Suc.hyps(2) have i: "i < d_size d" by simp
  with Suc.prems(1) have ne: "fst (dict_entries d ! i) \<noteq> k" and nx: "dict_find d k (Suc i) = None"
    using assms(1) by (auto simp: dict_find_step [of d k i] split: if_splits)
  have n: "n = d_size d - Suc i" using Suc.hyps(2) by simp
  show ?case
  proof (cases "i = j")
    case True
    with ne show ?thesis by simp
  next
    case False
    with Suc.prems(2) have "Suc i \<le> j" by simp
    with Suc.hyps(1) [OF n nx] show ?thesis by simp
  qed
qed

lemma dict_lookup_map_of:
  assumes "dict_ok (Some d)"
  shows "dict_lookup (Some d) k = map_of (dict_entries d) k"
proof (cases "dict_find d k 0")
  case None
  then have "\<forall>j < length (dict_entries d). fst (dict_entries d ! j) \<noteq> k"
    using dict_find_None [OF assms None] by (simp add: length_dict_entries [OF assms])
  then have "map_of (dict_entries d) k = None"
    by (auto simp: map_of_eq_None_iff in_set_conv_nth) (metis fst_conv)
  with None show ?thesis by (simp add: dict_lookup_def)
next
  case (Some j)
  note j = dict_find_Some [OF assms Some]
  then have "dict_entries d ! j \<in> set (dict_entries d)"
    by (simp add: length_dict_entries [OF assms])
  then have "map_of (dict_entries d) k = Some (snd (dict_entries d ! j))"
    using assms j by (intro map_of_is_SomeI) (auto simp: dict_ok_def)
  with Some j show ?thesis by (simp add: dict_lookup_def nth_dict_entries [OF assms])
qed

text \<open>Storing a new entry behind the last one.\<close>

lemma dict_store_new:
  fixes d :: "'v dictionary" and v :: 'v
  assumes "dict_ok (Some d)" and "d_size d < d_capacity d" and "dict_find d k 0 = None"
  defines "d' \<equiv> d\<lparr>d_entries := (d_entries d)[d_size d := Some (k, v)], d_size := d_size d + 1\<rparr>"
  shows "dict_ok (Some d')" and "dict_entries d' = dict_entries d @ [(k, v)]"
proof -
  have "d_size d < length ((d_entries d)[d_size d := Some (k, v)])"
    using assms(1,2) by (simp add: dict_ok_def)
  then show e: "dict_entries d' = dict_entries d @ [(k, v)]"
    by (simp add: dict_entries_def d'_def take_Suc_conv_app_nth)
  have "\<forall>j < length (dict_entries d). fst (dict_entries d ! j) \<noteq> k"
    using dict_find_None [OF assms(1,3)] by (simp add: length_dict_entries [OF assms(1)])
  then have "k \<notin> fst ` set (dict_entries d)"
    by (auto simp: in_set_conv_nth) (metis fst_conv)
  with assms(1,2) e show "dict_ok (Some d')"
    by (auto simp: dict_ok_def d'_def nth_list_update less_Suc_eq)
qed

lemma dict_grow:
  fixes d :: "'v dictionary"
  assumes "dict_ok (Some d)"
  defines "d' \<equiv> d\<lparr>d_entries := d_entries d @ replicate (d_capacity d * GROWTH_FACTOR - d_capacity d) None,
                    d_capacity := d_capacity d * GROWTH_FACTOR\<rparr>"
  shows "dict_ok (Some d')" and "dict_entries d' = dict_entries d"
    and "d_size d' < d_capacity d'" and "d_size d' = d_size d"
proof -
  show e: "dict_entries d' = dict_entries d"
    using assms(1) by (simp add: dict_ok_def dict_entries_def d'_def)
  show "dict_ok (Some d')"
    using assms(1) e by (auto simp: dict_ok_def d'_def GROWTH_FACTOR_def nth_append)
  show "d_size d' < d_capacity d'" "d_size d' = d_size d"
    using assms(1) by (auto simp: dict_ok_def d'_def GROWTH_FACTOR_def)
qed

lemma dict_grow_find:
  assumes "dict_ok (Some d)" and "dict_ok (Some d')"
    and "dict_entries d' = dict_entries d" and "d_size d' = d_size d"
  shows "dict_find d' k i = dict_find d k i"
proof (induction "d_size d - i" arbitrary: i)
  case 0
  then show ?case using assms by (simp add: dict_find_step [of d k i] dict_find_step [of d' k i])
next
  case (Suc n)
  then show ?case using assms
    by (simp add: dict_find_step [of d k i] dict_find_step [of d' k i])
qed

lemma dictionary_set_new:
  assumes "dict_ok (Some d)" and "dict_find d k 0 = None"
  shows "dict_ok (snd (dict_upd al (Some d) k v)) \<and>
         (dict_lookup (snd (dict_upd al (Some d) k v)) = (dict_lookup (Some d))(k \<mapsto> v)
          \<or> dict_lookup (snd (dict_upd al (Some d) k v)) = dict_lookup (Some d)
            \<and> dict_lookup (Some d) k = None \<and> False \<in> set al)"
proof -
  have none: "map_of (dict_entries d) k = None"
    using assms(2) dict_lookup_map_of [OF assms(1), of k] by (simp add: dict_lookup_def)
  have lk: "dict_lookup (Some e) = (dict_lookup (Some d))(k \<mapsto> v)"
    if "dict_ok (Some e)" and "dict_entries e = dict_entries d @ [(k, v)]" for e
    using none that dict_lookup_map_of [OF assms(1)] dict_lookup_map_of [OF that(1)]
    by (auto simp: fun_eq_iff map_add_def split: option.splits)
  show ?thesis
  proof (cases "d_size d = d_capacity d")
    case False
    then have "d_size d < d_capacity d" using assms(1) by (simp add: dict_ok_def)
    note s = dict_store_new [OF assms(1) this assms(2), of v]
    from s lk [OF s] False assms(2) show ?thesis by (simp add: dict_upd_def)
  next
    case True
    note g = dict_grow [OF assms(1)]
    note s = dict_store_new [OF g(1) g(3), of k v]
    obtain ok al' where na: "next_alloc al = (ok, al')" by fastforce
    show ?thesis
    proof (cases ok)
      case True': True
      have "dict_find (d\<lparr>d_entries := d_entries d @ replicate (d_capacity d * GROWTH_FACTOR - d_capacity d) None,
              d_capacity := d_capacity d * GROWTH_FACTOR\<rparr>) k 0 = None"
        using dict_grow_find [OF assms(1) g(1,2,4)] assms(2) by simp
      from s [OF this] lk True True' na assms(2) g(2,4) show ?thesis
        by (simp add: dict_upd_def Let_def)
    next
      case False
      then have "False \<in> set al" using na by (auto simp: next_alloc_def split: list.splits)
      with False True na assms none show ?thesis
        by (simp add: dict_upd_def dict_lookup_map_of)
    qed
  qed
qed

lemma dictionary_set_old:
  assumes "dict_ok (Some d)" and "dict_find d k 0 = Some i"
  shows "dict_ok (snd (dict_upd al (Some d) k v)) \<and>
         dict_lookup (snd (dict_upd al (Some d) k v)) = (dict_lookup (Some d))(k \<mapsto> v)"
proof -
  note i = dict_find_Some [OF assms]
  let ?d = "d\<lparr>d_entries := (d_entries d)[i := Some (k, v)]\<rparr>"
  have e: "dict_entries ?d = (dict_entries d)[i := (k, v)]"
    by (simp add: dict_entries_def take_update_swap map_update)
  have len: "i < length (dict_entries d)" using i by (simp add: length_dict_entries [OF assms(1)])
  have keys: "map fst (dict_entries ?d) = map fst (dict_entries d)"
    using i len by (simp add: e map_update) (metis length_map list_update_id nth_map)
  have ok: "dict_ok (Some ?d)"
    using assms(1) keys i by (auto simp: dict_ok_def nth_list_update)
  have dist: "distinct (map fst (dict_entries d))" using assms(1) by (simp add: dict_ok_def)
  have "map_of (dict_entries ?d) j = ((map_of (dict_entries d))(k \<mapsto> v)) j" for j
  proof (cases "j = k")
    case True
    have "(k, v) \<in> set (dict_entries ?d)" using len by (simp add: e set_update_memI)
    with True dist keys show ?thesis by simp
  next
    case False
    have same: "(j, x) \<in> set (dict_entries ?d) \<longleftrightarrow> (j, x) \<in> set (dict_entries d)" for x
      using False i len
      by (auto simp: e in_set_conv_nth nth_list_update) (metis fst_conv nth_list_update_neq)+
    show ?thesis
      using False same dist keys by (metis fun_upd_other map_of_eq_Some_iff not_None_eq)
  qed
  then show ?thesis
    using ok assms(2) by (auto simp: dict_upd_def dict_lookup_map_of [OF ok] dict_lookup_map_of [OF assms(1)])
qed

lemma dictionary_remove_map:
  assumes "dict_ok (Some d)"
  shows "dict_ok (dict_del (Some d) k) \<and>
         dict_lookup (dict_del (Some d) k) = (dict_lookup (Some d))(k := None)"
proof (cases "dict_find d k 0")
  case None
  then have "dict_lookup (Some d) k = None" by (simp add: dict_lookup_def)
  with None assms show ?thesis by (auto simp: dict_del_def)
next
  case (Some i)
  note i = dict_find_Some [OF assms Some]
  let ?xs = "d_entries d" and ?n = "d_size d"
  define ys where "ys = (if i + 1 < ?n then memmove ?xs i (i + 1) (?n - i - 1) else ?xs)"
  define d' where "d' = d\<lparr>d_entries := ys, d_size := ?n - 1\<rparr>"
  have b: "?n \<le> length ?xs" using assms by (simp add: dict_ok_def)
  have take_ys: "take (?n - 1) ys = take i ?xs @ drop (Suc i) (take ?n ?xs)"
  proof (cases "i + 1 < ?n")
    case True
    with i b show ?thesis using take_memmove_down [of i ?n ?xs] by (simp add: ys_def)
  next
    case False
    with i have "?n = Suc i" by simp
    then show ?thesis by (simp add: ys_def)
  qed
  have e: "dict_entries d' = take i (dict_entries d) @ drop (Suc i) (dict_entries d)"
    using take_ys i by (simp add: d'_def dict_entries_def take_map drop_map min_def)
  have dist: "distinct (map fst (dict_entries d))" using assms by (simp add: dict_ok_def)
  have split: "dict_entries d = take i (dict_entries d) @ dict_entries d ! i # drop (Suc i) (dict_entries d)"
    using i by (simp add: id_take_nth_drop length_dict_entries [OF assms])
  have "\<forall>j < ?n - 1. ys ! j \<noteq> None"
  proof (intro allI impI)
    fix j assume j: "j < ?n - 1"
    then have "ys ! j = (take i ?xs @ drop (Suc i) (take ?n ?xs)) ! j"
      by (metis take_ys nth_take)
    also have "\<dots> = (if j < i then ?xs ! j else ?xs ! Suc j)"
      using b i j by (auto simp: nth_append)
    finally show "ys ! j \<noteq> None" using assms j by (auto simp: dict_ok_def)
  qed
  moreover have "distinct (map fst (dict_entries d'))"
    using dist by (subst (asm) split) (simp add: e)
  moreover have "length ys = length ?xs" using i b by (simp add: ys_def length_memmove)
  ultimately have ok: "dict_ok (Some d')" using assms by (auto simp: dict_ok_def d'_def)
  have "map_of (dict_entries d') j = ((map_of (dict_entries d))(k := None)) j" for j
  proof -
    obtain v where v: "dict_entries d ! i = (k, v)" using i by (metis prod.collapse)
    have notin: "k \<notin> fst ` set (take i (dict_entries d)) \<and> k \<notin> fst ` set (drop (Suc i) (dict_entries d))"
      using dist by (subst (asm) split) (simp add: v)
    show ?thesis
      using map_of_without [of k "take i (dict_entries d)" "drop (Suc i) (dict_entries d)" v] notin split v
      unfolding e by metis
  qed
  moreover have "dict_del (Some d) k = Some d'"
    using Some by (simp add: dict_del_def d'_def ys_def)
  ultimately show ?thesis
    using ok by (auto simp: dict_lookup_map_of [OF ok] dict_lookup_map_of [OF assms])
qed

interpretation dict: finite_map dict_lookup dict_upd dict_del dict_ok
proof
  fix m :: "'v dictionary option" and al :: "bool list" and k :: int and v :: 'v
  assume ok: "dict_ok m"
  then obtain d where d: "m = Some d" by (cases m) (auto simp: dict_ok_def)
  have "dict_ok (snd (dict_upd al m k v)) \<and>
        (dict_lookup (snd (dict_upd al m k v)) = (dict_lookup m)(k \<mapsto> v)
         \<or> dict_lookup (snd (dict_upd al m k v)) = dict_lookup m \<and> dict_lookup m k = None \<and> False \<in> set al)"
    using ok d dictionary_set_new [of d k al v] dictionary_set_old [of d k _ al v]
    by (cases "dict_find d k 0") simp_all
  then show "dict_ok (snd (dict_upd al m k v))"
    and "dict_lookup (snd (dict_upd al m k v)) = (dict_lookup m)(k \<mapsto> v)
         \<or> dict_lookup (snd (dict_upd al m k v)) = dict_lookup m \<and> dict_lookup m k = None \<and> False \<in> set al"
    by blast+
  show "dict_ok (dict_del m k)" and "dict_lookup (dict_del m k) = (dict_lookup m)(k := None)"
    using ok d dictionary_remove_map by blast+
qed

lemma dictionary_create_lookup:
  assumes "dictionary_create al = (m, al')" and "False \<notin> set al"
  shows "dict_ok m \<and> dict_lookup m = Map.empty"
proof -
  from assms obtain d where d: "m = Some d" and "d = \<lparr>d_entries = replicate INITIAL_CAPACITY None, d_size = 0,
                  d_capacity = INITIAL_CAPACITY\<rparr>"
    by (auto simp: dictionary_create_def next_alloc_def split: list.splits)
  then have "dict_ok (Some d)" and "dict_entries d = []"
    by (auto simp: dict_ok_def dict_entries_def INITIAL_CAPACITY_def)
  with d show ?thesis by (auto simp: dict_lookup_map_of fun_eq_iff)
qed

subsection \<open>Properties\<close>

text \<open>C30: The dictionary implements a finite map from integer keys: after \<open>dictionary_set\<close>
  the key has the new value (also when it had one before, and when the table has to grow),
  after \<open>dictionary_remove\<close> it has none, \<open>dictionary_get\<close> reads the map, and other keys are
  unaffected; the representation invariant (no key twice, no gap) is kept.\<close>

theorem dictionary_refines_map:
  assumes "dict_ok m" and "False \<notin> set al"
  shows "dict_ok (snd (dictionary_set al m (Some k) v)) \<and> dict_ok (dictionary_remove m (Some k))
    \<and> dictionary_get (snd (dictionary_set al m (Some k) v)) (Some j) =
        (if j = k then Some v else dictionary_get m (Some j))
    \<and> dictionary_get (dictionary_remove m (Some k)) (Some j) =
        (if j = k then None else dictionary_get m (Some j))"
proof -
  note up = dict.upd_enough [OF assms, of k v] dict.upd_other [OF assms(1), of j k al v]
  note de = dict.del_same [OF assms(1), of k] dict.del_other [OF assms(1), of j k]
  from up de dict.upd_good [OF assms(1), of al k v] dict.del_good [OF assms(1), of k] show ?thesis
    by (auto simp: dict_lookup_def dict_upd_def dict_del_def)
qed

theorem dictionary_refines_map_witness:
  "dictionary_get (dictionary_remove (snd (dictionary_set [] (fst (dictionary_create [])) (Some 4) ''x'')) (Some 5))
     (Some 4) = Some ''x''"
proof -
  have m: "dict_ok (fst (dictionary_create []) :: string dictionary option)"
    using dictionary_create_lookup [of "[]" "fst (dictionary_create [] :: string dictionary option \<times> bool list)"
        "snd (dictionary_create [] :: string dictionary option \<times> bool list)"] by simp
  have "dict_ok (snd (dictionary_set [] (fst (dictionary_create [])) (Some 4) ''x''))"
    and "dictionary_get (snd (dictionary_set [] (fst (dictionary_create [])) (Some 4) ''x'')) (Some 4) = Some ''x''"
    using dictionary_refines_map [OF m, of "[]" 4 "''x''" 4] by simp_all
  with dictionary_refines_map [of "snd (dictionary_set [] (fst (dictionary_create [])) (Some 4) ''x'')" "[]" 5 _ 4]
  show ?thesis by simp
qed

end
