(* ===== verification/Fss_Event_Loop.thy ===== *)
theory Fss_Event_Loop
  imports Fss_Prelude
begin

section \<open>The interface of the event loop\<close>

text \<open>
  \<open>include/fss/event_loop.h\<close> and the contract behind it. A value of type \<open>'k\<close> is the
  state of the kernel's event queue; \<open>watched k fd\<close> is the mask of the \<open>FSS_EVENT\<close>
  bits that \<open>fd\<close> is registered for (0: none). The contract, the locale \<open>event_queue\<close>:
  after an operation exactly the requested mask is registered, and an event that
  \<open>event_loop_wait\<close> returns carries a read or a write bit only if it was registered.
  Inside the locale: as long as every registration is for one direction only, which is how
  the server uses the queue, no event ever carries both bits. The epoll and the kqueue
  implementation are the two interpretations.
\<close>

unbundle bit_operations_syntax

definition FSS_EVENT_READ :: c_int where
  "FSS_EVENT_READ = 1"

definition FSS_EVENT_WRITE :: c_int where
  "FSS_EVENT_WRITE = 2"

definition FSS_EVENT_ERROR :: c_int where
  "FSS_EVENT_ERROR = 4"

lemmas fss_event_defs = FSS_EVENT_READ_def FSS_EVENT_WRITE_def FSS_EVENT_ERROR_def

text \<open>\<open>flags & bit\<close> as a condition.\<close>

definition has_bit :: "c_int \<Rightarrow> c_int \<Rightarrow> bool" where
  "has_bit flags b \<longleftrightarrow> flags AND b \<noteq> 0"

text \<open>\<open>if (b) flags |= bit\<close>.\<close>

definition or_if :: "c_int \<Rightarrow> c_int \<Rightarrow> bool \<Rightarrow> c_int" where
  "or_if flags v b = (if b then flags OR v else flags)"

definition one_way :: "c_int \<Rightarrow> bool" where
  "one_way ev \<longleftrightarrow> ev = FSS_EVENT_READ \<or> ev = FSS_EVENT_WRITE"

lemma has_bit_0 [simp]: "\<not> has_bit 0 b"
  by (simp add: has_bit_def)

lemma has_bit_or: "has_bit (x OR y) b \<longleftrightarrow> has_bit x b \<or> has_bit y b"
  by (auto simp: has_bit_def bit_eq_iff bit_simps)

lemma has_bit_or_if: "has_bit (or_if x v c) b \<longleftrightarrow> has_bit x b \<or> (c \<and> has_bit v b)"
  by (simp add: or_if_def has_bit_or)

lemma fss_bits [simp]:
  "has_bit FSS_EVENT_READ FSS_EVENT_READ" "\<not> has_bit FSS_EVENT_READ FSS_EVENT_WRITE"
  "\<not> has_bit FSS_EVENT_READ FSS_EVENT_ERROR"
  "\<not> has_bit FSS_EVENT_WRITE FSS_EVENT_READ" "has_bit FSS_EVENT_WRITE FSS_EVENT_WRITE"
  "\<not> has_bit FSS_EVENT_WRITE FSS_EVENT_ERROR"
  "\<not> has_bit FSS_EVENT_ERROR FSS_EVENT_READ" "\<not> has_bit FSS_EVENT_ERROR FSS_EVENT_WRITE"
  "has_bit FSS_EVENT_ERROR FSS_EVENT_ERROR"
  by (simp_all add: has_bit_def fss_event_defs)

lemma fss_events_ne [simp]: "FSS_EVENT_READ \<noteq> 0" "FSS_EVENT_WRITE \<noteq> 0"
  "FSS_EVENT_READ \<noteq> FSS_EVENT_WRITE" "FSS_EVENT_WRITE \<noteq> FSS_EVENT_READ"
  by (simp_all add: fss_event_defs)

lemma one_way_not_both: "one_way ev \<Longrightarrow> \<not> (has_bit ev FSS_EVENT_READ \<and> has_bit ev FSS_EVENT_WRITE)"
  by (auto simp: one_way_def)

lemma one_way_ne_0: "one_way ev \<Longrightarrow> ev \<noteq> 0"
  by (auto simp: one_way_def)

text \<open>
  The abstract event queue: the registered mask of every descriptor. An operation is only
  defined where the callers use it: a descriptor is added when it is not registered,
  changed when it is, and for one direction.
\<close>

datatype loop_op = Add int c_int | Modify int c_int | Remove int

fun op_allowed :: "(int \<Rightarrow> c_int) \<Rightarrow> loop_op \<Rightarrow> bool" where
  "op_allowed w (Add fd ev) \<longleftrightarrow> w fd = 0 \<and> one_way ev"
| "op_allowed w (Modify fd ev) \<longleftrightarrow> w fd \<noteq> 0 \<and> one_way ev"
| "op_allowed w (Remove fd) \<longleftrightarrow> True"

fun op_spec :: "(int \<Rightarrow> c_int) \<Rightarrow> loop_op \<Rightarrow> int \<Rightarrow> c_int" where
  "op_spec w (Add fd ev) = w(fd := ev)"
| "op_spec w (Modify fd ev) = w(fd := ev)"
| "op_spec w (Remove fd) = w(fd := 0)"

fun ops_allowed :: "(int \<Rightarrow> c_int) \<Rightarrow> loop_op list \<Rightarrow> bool" where
  "ops_allowed w [] \<longleftrightarrow> True"
| "ops_allowed w (x # xs) \<longleftrightarrow> op_allowed w x \<and> ops_allowed (op_spec w x) xs"

fun run_op :: "(int \<Rightarrow> c_int \<Rightarrow> 'k \<Rightarrow> int \<times> 'k) \<Rightarrow> (int \<Rightarrow> c_int \<Rightarrow> 'k \<Rightarrow> int \<times> 'k) \<Rightarrow>
    (int \<Rightarrow> 'k \<Rightarrow> int \<times> 'k) \<Rightarrow> 'k \<Rightarrow> loop_op \<Rightarrow> 'k" where
  "run_op add modify remove k (Add fd ev) = snd (add fd ev k)"
| "run_op add modify remove k (Modify fd ev) = snd (modify fd ev k)"
| "run_op add modify remove k (Remove fd) = snd (remove fd k)"

locale event_queue =
  fixes add :: "int \<Rightarrow> c_int \<Rightarrow> 'k \<Rightarrow> int \<times> 'k"
    and modify :: "int \<Rightarrow> c_int \<Rightarrow> 'k \<Rightarrow> int \<times> 'k"
    and remove :: "int \<Rightarrow> 'k \<Rightarrow> int \<times> 'k"
    and deliver :: "'raw \<Rightarrow> int \<times> c_int"
    and reports :: "'k \<Rightarrow> 'raw \<Rightarrow> bool"
    and watched :: "'k \<Rightarrow> int \<Rightarrow> c_int"
    and known :: "'k \<Rightarrow> int \<Rightarrow> bool"
    and alive :: "'k \<Rightarrow> bool"
  assumes unknown: "\<not> known k fd \<Longrightarrow> watched k fd = 0"
    and add_watched: "alive k \<Longrightarrow> \<not> known k fd \<Longrightarrow> one_way ev \<Longrightarrow>
          fst (add fd ev k) = 0 \<and> watched (snd (add fd ev k)) = (watched k)(fd := ev)"
    and modify_watched: "alive k \<Longrightarrow> known k fd \<Longrightarrow> one_way ev \<Longrightarrow>
          fst (modify fd ev k) = 0 \<and> watched (snd (modify fd ev k)) = (watched k)(fd := ev)"
    and remove_watched: "alive k \<Longrightarrow> watched (snd (remove fd k)) = (watched k)(fd := 0)"
    and add_known: "alive k \<Longrightarrow> \<not> known k fd \<Longrightarrow> one_way ev \<Longrightarrow>
          known (snd (add fd ev k)) g \<longleftrightarrow> g = fd \<or> known k g"
    and modify_known: "alive k \<Longrightarrow> known k fd \<Longrightarrow> one_way ev \<Longrightarrow> known (snd (modify fd ev k)) g \<longleftrightarrow> known k g"
    and remove_known: "alive k \<Longrightarrow> known (snd (remove fd k)) g \<longleftrightarrow> g \<noteq> fd \<and> known k g"
    and add_alive: "alive (snd (add fd ev k)) = alive k"
    and modify_alive: "alive (snd (modify fd ev k)) = alive k"
    and remove_alive: "alive (snd (remove fd k)) = alive k"
    and deliver_read: "reports k raw \<Longrightarrow> deliver raw = (fd, m) \<Longrightarrow>
          has_bit m FSS_EVENT_READ \<Longrightarrow> has_bit (watched k fd) FSS_EVENT_READ"
    and deliver_write: "reports k raw \<Longrightarrow> deliver raw = (fd, m) \<Longrightarrow>
          has_bit m FSS_EVENT_WRITE \<Longrightarrow> has_bit (watched k fd) FSS_EVENT_WRITE"
begin

definition single :: "'k \<Rightarrow> bool" where
  "single k \<longleftrightarrow> (\<forall>fd. watched k fd = 0 \<or> one_way (watched k fd))"

lemma single_add: "alive k \<Longrightarrow> single k \<Longrightarrow> \<not> known k fd \<Longrightarrow> one_way ev \<Longrightarrow> single (snd (add fd ev k))"
  using add_watched by (simp add: single_def)

lemma single_modify: "alive k \<Longrightarrow> single k \<Longrightarrow> known k fd \<Longrightarrow> one_way ev \<Longrightarrow> single (snd (modify fd ev k))"
  using modify_watched by (simp add: single_def)

lemma single_remove: "alive k \<Longrightarrow> single k \<Longrightarrow> single (snd (remove fd k))"
  using remove_watched by (simp add: single_def)

text \<open>The queue refines the abstract one: after any allowed sequence the masks are those of the specification.\<close>

definition exact :: "'k \<Rightarrow> bool" where
  "exact k \<longleftrightarrow> alive k \<and> (\<forall>fd. known k fd \<longleftrightarrow> watched k fd \<noteq> 0)"

lemma run_op_exact:
  assumes "exact k" and "op_allowed (watched k) x"
  shows "exact (run_op add modify remove k x)"
    and "watched (run_op add modify remove k x) = op_spec (watched k) x"
  using assms add_watched modify_watched remove_watched add_known modify_known remove_known
    add_alive modify_alive remove_alive
  by (cases x; auto simp: exact_def one_way_ne_0)+

lemma run_ops:
  assumes "exact k" and "ops_allowed (watched k) xs"
  shows "watched (foldl (run_op add modify remove) k xs) = foldl op_spec (watched k) xs"
    and "exact (foldl (run_op add modify remove) k xs)"
  using assms by (induction xs arbitrary: k) (auto simp: run_op_exact)

lemma not_both:
  assumes "single k" and "reports k raw" and "deliver raw = (fd, m)"
  shows "\<not> (has_bit m FSS_EVENT_READ \<and> has_bit m FSS_EVENT_WRITE)"
  using assms deliver_read deliver_write one_way_not_both unfolding single_def
  by (metis has_bit_0)

lemma removed_silent:
  assumes "alive k" and "reports (snd (remove fd k)) raw" and "deliver raw = (fd, m)"
  shows "\<not> has_bit m FSS_EVENT_READ \<and> \<not> has_bit m FSS_EVENT_WRITE"
  using assms deliver_read deliver_write remove_watched by (metis fun_upd_same has_bit_0)

end

end
