(* ===== verification/Fss_Posix.thy ===== *)
theory Fss_Posix
  imports Fss_Prelude
begin

section \<open>The system calls the sources use\<close>

text \<open>
  The operating system as explicit state. What it may freely decide is a script in the
  state, consumed by the calls, so that a theorem for every script is a theorem for every
  fragmentation and every failure:
  \<^item> \<open>rx\<close>: what the successive \<open>read\<close> calls on a connection find. \<open>Data b bs\<close> is a
    segment of at least one byte, of which a read takes as much as it asked for; \<open>RAgain\<close>
    and \<open>RIntr\<close> make one read fail with \<open>EAGAIN\<close> or \<open>EINTR\<close>; \<open>REof\<close> (the peer has
    closed) and \<open>RErr\<close> stay. When the script is exhausted nothing has arrived: a
    non-blocking read gives \<open>EAGAIN\<close>.
  \<^item> \<open>tx\<close>: what the successive \<open>write\<close> calls do. \<open>Room n\<close> takes up to \<open>n + 1\<close> bytes; an
    exhausted script takes everything. \<open>sent\<close> is what the connection has been given.
  \<^item> \<open>disk\<close>: whether a call on a file succeeds, is short, or fails; exhausted means
    success. \<open>heap_ok\<close>: the checked allocations.
  \<^item> \<open>backlog\<close>: the outcomes of the successive \<open>accept\<close> calls.
  A descriptor is looked up in the table \<open>fds\<close>; a new one is the least that is not in use.
  The file system maps directory entries to inodes, so that a file that is open outlives
  its entry. \<open>resolve\<close> is the path resolution of the kernel: the directory entry that a
  path denotes, if its directory exists.
\<close>

datatype errno = EINTR | EAGAIN | EOTHER

datatype rd_ev = Data byte "byte list" | REof | RErr | RIntr | RAgain
datatype wr_ev = Room nat | WAgain | WIntr | WErr
datatype acc_ev = AConn nat | AIntr | AErr
datatype disk_ev = DiskOk | DiskShort nat | DiskErr

record sock =
  rx :: "rd_ev list"
  tx :: "wr_ev list"
  sent :: "byte list"

datatype fobj = OSock nat | OFile nat | OListen | OLoop
datatype node = Regular "byte list" | Directory nat

record kernel =
  fds :: "(int \<times> fobj) list"
  conns :: "nat \<Rightarrow> sock"
  backlog :: "acc_ev list"
  dents :: "(string \<times> nat) list"
  inodes :: "nat \<Rightarrow> node"
  next_ino :: nat
  resolve :: "string \<Rightarrow> string option"
  disk :: "disk_ev list"
  heap_ok :: "bool list"
  interest :: "(int \<times> c_int) list"

subsection \<open>Streams\<close>

text \<open>\<open>idle\<close> is what a read gives when the script is exhausted.\<close>

definition recv_bytes :: "errno + byte list \<Rightarrow> rd_ev list \<Rightarrow> nat \<Rightarrow> (errno + byte list) \<times> rd_ev list" where
  "recv_bytes idle es n =
     (if n = 0 then (Inr [], es)
      else case es of
        [] \<Rightarrow> (idle, [])
      | Data b bs # rest \<Rightarrow>
          (if length bs < n then (Inr (b # bs), rest)
           else (Inr (b # take (n - 1) bs), Data (bs ! (n - 1)) (drop n bs) # rest))
      | REof # rest \<Rightarrow> (Inr [], es)
      | RErr # rest \<Rightarrow> (Inl EOTHER, es)
      | RIntr # rest \<Rightarrow> (Inl EINTR, rest)
      | RAgain # rest \<Rightarrow> (Inl EAGAIN, rest))"

text \<open>The bytes that a script will still deliver, and a bound on the reads it can serve.\<close>

fun arriving :: "rd_ev list \<Rightarrow> byte list" where
  "arriving [] = []"
| "arriving (Data b bs # es) = b # bs @ arriving es"
| "arriving (REof # es) = []"
| "arriving (RErr # es) = []"
| "arriving (RIntr # es) = arriving es"
| "arriving (RAgain # es) = arriving es"

fun rx_weight :: "rd_ev list \<Rightarrow> nat" where
  "rx_weight [] = 0"
| "rx_weight (Data b bs # es) = Suc (length bs + rx_weight es)"
| "rx_weight (REof # es) = Suc (rx_weight es)"
| "rx_weight (RErr # es) = Suc (rx_weight es)"
| "rx_weight (RIntr # es) = Suc (rx_weight es)"
| "rx_weight (RAgain # es) = Suc (rx_weight es)"

definition send_bytes :: "wr_ev list \<Rightarrow> byte list \<Rightarrow> (errno + nat) \<times> wr_ev list" where
  "send_bytes es bs =
     (case es of
        [] \<Rightarrow> (Inr (length bs), [])
      | Room k # rest \<Rightarrow> (Inr (min (Suc k) (length bs)), rest)
      | WAgain # rest \<Rightarrow> (Inl EAGAIN, rest)
      | WIntr # rest \<Rightarrow> (Inl EINTR, rest)
      | WErr # rest \<Rightarrow> (Inl EOTHER, rest))"

text \<open>What every kind of byte source promises to a loop that reads from it.\<close>

locale byte_source =
  fixes read :: "'s \<Rightarrow> nat \<Rightarrow> (errno + byte list) \<times> 's"
    and coming :: "'s \<Rightarrow> byte list"
    and weight :: "'s \<Rightarrow> nat"
  assumes read_data: "0 < n \<Longrightarrow> read s n = (Inr bs, s') \<Longrightarrow> bs \<noteq> [] \<Longrightarrow>
                        length bs \<le> n \<and> coming s = bs @ coming s' \<and> weight s' < weight s"
    and read_eof: "0 < n \<Longrightarrow> read s n = (Inr [], s') \<Longrightarrow> coming s = [] \<and> coming s' = []"
    and read_fail: "read s n = (Inl e, s') \<Longrightarrow> coming s' = coming s"
    and read_intr: "read s n = (Inl EINTR, s') \<Longrightarrow> weight s' < weight s"
begin

lemma read_cons:
  assumes "read s n = (Inr (b # bs), s')" and "0 < n"
  shows "weight s' < weight s"
  using assms read_data by blast

lemma read_progress:
  assumes "0 < n" and "read s n = (Inr bs, s')"
  shows "coming s = bs @ coming s'" and "length bs \<le> n"
  using read_data [OF assms] read_eof [OF assms(1)] assms(2) by (cases "bs = []"; force)+

end

lemma recv_bytes_data:
  assumes "0 < n" and "recv_bytes idle es n = (Inr bs, es')" and "bs \<noteq> []" and "idle = Inl EAGAIN \<or> idle = Inr []"
  shows "length bs \<le> n \<and> arriving es = bs @ arriving es' \<and> rx_weight es' < rx_weight es"
proof (cases es)
  case Nil
  with assms show ?thesis by (auto simp: recv_bytes_def)
next
  case (Cons e rest)
  then show ?thesis
  proof (cases e)
    case (Data b ds)
    show ?thesis
    proof (cases "length ds < n")
      case True
      with Data Cons assms show ?thesis by (auto simp: recv_bytes_def)
    next
      case False
      then have "ds = take (n - 1) ds @ ds ! (n - 1) # drop n ds"
        using assms(1) id_take_nth_drop [of "n - 1" ds] by simp
      then have "b # ds = (b # take (n - 1) ds) @ ds ! (n - 1) # drop n ds" by simp
      with False Data Cons assms show ?thesis by (auto simp: recv_bytes_def)
    qed
  qed (use Cons assms in \<open>auto simp: recv_bytes_def\<close>)
qed

lemma recv_bytes_other:
  assumes "recv_bytes idle es n = (r, es')" and "idle = Inl EAGAIN \<or> idle = Inr []"
  shows "0 < n \<Longrightarrow> r = Inr [] \<Longrightarrow> arriving es = [] \<and> arriving es' = []"
    and "r = Inl e \<Longrightarrow> arriving es' = arriving es"
    and "r = Inl EINTR \<Longrightarrow> rx_weight es' < rx_weight es"
  using assms by (auto simp: recv_bytes_def split: if_splits list.splits rd_ev.splits)

lemma recv_bytes_source:
  assumes "idle = Inl EAGAIN \<or> idle = Inr []"
  shows "byte_source (recv_bytes idle) arriving rx_weight"
proof
  fix n es bs es' e
  show "length bs \<le> n \<and> arriving es = bs @ arriving es' \<and> rx_weight es' < rx_weight es"
    if "0 < n" and "recv_bytes idle es n = (Inr bs, es')" and "bs \<noteq> []"
    using that assms by (rule recv_bytes_data)
  show "arriving es = [] \<and> arriving es' = []" if "0 < n" and "recv_bytes idle es n = (Inr [], es')"
    by (rule recv_bytes_other(1) [OF that(2) assms that(1) refl])
  show "arriving es' = arriving es" if "recv_bytes idle es n = (Inl e, es')"
    by (rule recv_bytes_other(2) [OF that assms refl])
  show "rx_weight es' < rx_weight es" if "recv_bytes idle es n = (Inl EINTR, es')"
    by (rule recv_bytes_other(3) [OF that assms refl])
qed

interpretation nonblocking: byte_source "recv_bytes (Inl EAGAIN)" arriving rx_weight
  by (rule recv_bytes_source) simp

interpretation blocking: byte_source "recv_bytes (Inr [])" arriving rx_weight
  by (rule recv_bytes_source) simp

subsection \<open>Descriptors\<close>

definition fresh_fd :: "(int \<times> fobj) list \<Rightarrow> int" where
  "fresh_fd t = int (hd (filter (\<lambda>n. int n \<notin> fst ` set t) [0..<Suc (length t)]))"

definition sys_close :: "int \<Rightarrow> kernel \<Rightarrow> kernel" where
  "sys_close fd k = k\<lparr>fds := filter (\<lambda>(f, v). f \<noteq> fd) (fds k),
                     interest := filter (\<lambda>(f, v). f \<noteq> fd) (interest k)\<rparr>"

lemma fresh_fd_exists: "\<exists>n < Suc (length t). int n \<notin> fst ` set t"
proof (rule ccontr)
  assume "\<not> (\<exists>n < Suc (length t). int n \<notin> fst ` set t)"
  then have "int ` {..<Suc (length t)} \<subseteq> fst ` set t" by auto
  then have "card (int ` {..<Suc (length t)}) \<le> card (fst ` set t)"
    by (intro card_mono) auto
  also have "\<dots> \<le> length t"
    by (metis card_length length_map list.set_map)
  finally show False by (simp add: card_image)
qed

lemma fresh_fd_new: "fresh_fd t \<notin> fst ` set t" and fresh_fd_nonneg: "0 \<le> fresh_fd t"
proof -
  let ?l = "filter (\<lambda>n. int n \<notin> fst ` set t) [0..<Suc (length t)]"
  have "?l \<noteq> []" using fresh_fd_exists [of t] by (auto simp: filter_empty_conv simp del: upt_Suc)
  then have "hd ?l \<in> set ?l" by (rule hd_in_set)
  then show "fresh_fd t \<notin> fst ` set t" by (simp add: fresh_fd_def del: upt_Suc)
  show "0 \<le> fresh_fd t" by (simp add: fresh_fd_def del: upt_Suc)
qed

lemma fresh_fd_unmapped: "map_of t (fresh_fd t) = None"
  using fresh_fd_new by (rule map_of_NoneI)

lemma fresh_fd_ne_minus_one: "fresh_fd t \<noteq> - 1"
  using fresh_fd_nonneg [of t] by auto

subsection \<open>Sockets\<close>

definition sys_read :: "int \<Rightarrow> nat \<Rightarrow> kernel \<Rightarrow> (errno + byte list) \<times> kernel" where
  "sys_read fd n k =
     (case map_of (fds k) fd of
        Some (OSock c) \<Rightarrow>
          (let (r, es) = recv_bytes (Inl EAGAIN) (rx (conns k c)) n
           in (r, k\<lparr>conns := (conns k)(c := (conns k c)\<lparr>rx := es\<rparr>)\<rparr>))
      | _ \<Rightarrow> (Inl EOTHER, k))"

definition sys_write :: "int \<Rightarrow> byte list \<Rightarrow> kernel \<Rightarrow> (errno + nat) \<times> kernel" where
  "sys_write fd bs k =
     (case map_of (fds k) fd of
        Some (OSock c) \<Rightarrow>
          (let (r, es) = send_bytes (tx (conns k c)) bs;
               out = (case r of Inl e \<Rightarrow> [] | Inr n \<Rightarrow> take n bs)
           in (r, k\<lparr>conns := (conns k)(c := (conns k c)\<lparr>tx := es, sent := sent (conns k c) @ out\<rparr>)\<rparr>))
      | _ \<Rightarrow> (Inl EOTHER, k))"

definition sys_accept :: "kernel \<Rightarrow> (errno + int) \<times> kernel" where
  "sys_accept k =
     (case backlog k of
        [] \<Rightarrow> (Inl EAGAIN, k)
      | AConn c # rest \<Rightarrow>
          (Inr (fresh_fd (fds k)),
           k\<lparr>fds := (fresh_fd (fds k), OSock c) # fds k, backlog := rest\<rparr>)
      | AIntr # rest \<Rightarrow> (Inl EINTR, k\<lparr>backlog := rest\<rparr>)
      | AErr # rest \<Rightarrow> (Inl EOTHER, k\<lparr>backlog := rest\<rparr>))"

subsection \<open>Files\<close>

definition next_disk :: "kernel \<Rightarrow> disk_ev \<times> kernel" where
  "next_disk k = (case disk k of [] \<Rightarrow> (DiskOk, k) | d # ds \<Rightarrow> (d, k\<lparr>disk := ds\<rparr>))"

definition open_file :: "nat \<Rightarrow> kernel \<Rightarrow> int \<times> kernel" where
  "open_file ino k = (fresh_fd (fds k), k\<lparr>fds := (fresh_fd (fds k), OFile ino) # fds k\<rparr>)"

text \<open>\<open>open(path, O_RDONLY)\<close>; the result is the descriptor, or -1.\<close>

definition sys_open_rdonly :: "string \<Rightarrow> kernel \<Rightarrow> int \<times> kernel" where
  "sys_open_rdonly path k =
     (let (d, k) = next_disk k in
      if d = DiskErr then (- 1, k)
      else case resolve k path of
        None \<Rightarrow> (- 1, k)
      | Some entry \<Rightarrow>
          (case map_of (dents k) entry of
             None \<Rightarrow> (- 1, k)
           | Some ino \<Rightarrow> open_file ino k))"

text \<open>\<open>open(path, O_WRONLY | O_CREAT | O_TRUNC, mode)\<close>.\<close>

definition sys_open_create :: "string \<Rightarrow> kernel \<Rightarrow> int \<times> kernel" where
  "sys_open_create path k =
     (let (d, k) = next_disk k in
      if d = DiskErr then (- 1, k)
      else case resolve k path of
        None \<Rightarrow> (- 1, k)
      | Some entry \<Rightarrow>
          (case map_of (dents k) entry of
             None \<Rightarrow> open_file (next_ino k)
                       (k\<lparr>dents := (entry, next_ino k) # dents k,
                          inodes := (inodes k)(next_ino k := Regular []),
                          next_ino := Suc (next_ino k)\<rparr>)
           | Some ino \<Rightarrow>
               (case inodes k ino of
                  Directory sz \<Rightarrow> (- 1, k)
                | Regular bs \<Rightarrow> open_file ino (k\<lparr>inodes := (inodes k)(ino := Regular [])\<rparr>))))"

definition sys_fstat :: "int \<Rightarrow> kernel \<Rightarrow> nat option \<times> kernel" where
  "sys_fstat fd k =
     (let (d, k) = next_disk k in
      if d = DiskErr then (None, k)
      else case map_of (fds k) fd of
        Some (OFile ino) \<Rightarrow>
          (Some (case inodes k ino of Regular bs \<Rightarrow> length bs | Directory sz \<Rightarrow> sz), k)
      | _ \<Rightarrow> (None, k))"

text \<open>A short call on a file moves at least one byte.\<close>

definition sys_pread :: "int \<Rightarrow> nat \<Rightarrow> nat \<Rightarrow> kernel \<Rightarrow> (errno + byte list) \<times> kernel" where
  "sys_pread fd n off k =
     (let (d, k) = next_disk k in
      case map_of (fds k) fd of
        Some (OFile ino) \<Rightarrow>
          (case inodes k ino of
             Directory sz \<Rightarrow> (Inl EOTHER, k)
           | Regular bs \<Rightarrow>
               (case d of
                  DiskErr \<Rightarrow> (Inl EOTHER, k)
                | DiskShort m \<Rightarrow> (Inr (take (min (Suc m) n) (drop off bs)), k)
                | DiskOk \<Rightarrow> (Inr (take n (drop off bs)), k)))
      | _ \<Rightarrow> (Inl EOTHER, k))"

text \<open>Writing at an offset: a hole below the offset reads as zero bytes.\<close>

definition splice :: "byte list \<Rightarrow> nat \<Rightarrow> byte list \<Rightarrow> byte list" where
  "splice old off bs =
     take off (old @ replicate (off - length old) NUL) @ bs @ drop (off + length bs) old"

definition sys_pwrite :: "int \<Rightarrow> byte list \<Rightarrow> nat \<Rightarrow> kernel \<Rightarrow> (errno + nat) \<times> kernel" where
  "sys_pwrite fd bs off k =
     (let (d, k) = next_disk k in
      case map_of (fds k) fd of
        Some (OFile ino) \<Rightarrow>
          (case inodes k ino of
             Directory sz \<Rightarrow> (Inl EOTHER, k)
           | Regular old \<Rightarrow>
               (case d of
                  DiskErr \<Rightarrow> (Inl EOTHER, k)
                | DiskShort m \<Rightarrow>
                    (let n = min (Suc m) (length bs)
                     in (Inr n, k\<lparr>inodes := (inodes k)(ino := Regular (splice old off (take n bs)))\<rparr>))
                | DiskOk \<Rightarrow>
                    (Inr (length bs), k\<lparr>inodes := (inodes k)(ino := Regular (splice old off bs))\<rparr>)))
      | _ \<Rightarrow> (Inl EOTHER, k))"

text \<open>\<open>unlink\<close>: whether it succeeded.\<close>

definition sys_unlink :: "string \<Rightarrow> kernel \<Rightarrow> bool \<times> kernel" where
  "sys_unlink path k =
     (let (d, k) = next_disk k in
      if d = DiskErr then (False, k)
      else case resolve k path of
        None \<Rightarrow> (False, k)
      | Some entry \<Rightarrow>
          (case map_of (dents k) entry of
             None \<Rightarrow> (False, k)
           | Some ino \<Rightarrow>
               (case inodes k ino of
                  Directory sz \<Rightarrow> (False, k)
                | Regular bs \<Rightarrow> (True, k\<lparr>dents := filter (\<lambda>(e, v). e \<noteq> entry) (dents k)\<rparr>))))"

text \<open>What a path shows to somebody who looks: the contents of the file, if there is one.\<close>

definition file_at :: "kernel \<Rightarrow> string \<Rightarrow> byte list option" where
  "file_at k path =
     (case resolve k path of
        None \<Rightarrow> None
      | Some entry \<Rightarrow>
          (case map_of (dents k) entry of
             None \<Rightarrow> None
           | Some ino \<Rightarrow> (case inodes k ino of Regular bs \<Rightarrow> Some bs | Directory sz \<Rightarrow> None)))"

lemmas sys_defs =
  sys_read_def sys_write_def sys_accept_def sys_close_def next_disk_def open_file_def
  sys_open_rdonly_def sys_open_create_def sys_fstat_def sys_pread_def sys_pwrite_def sys_unlink_def

end
