(* ===== verification/Fss_Epoll.thy ===== *)
theory Fss_Epoll
  imports Fss_Event_Loop Fss_Posix
begin

section \<open>The epoll implementation, \<open>src/event_loop_epoll.c\<close>\<close>

text \<open>
  The interest list of the epoll instance is the field \<open>interest\<close> of the kernel: the event
  mask of every registered descriptor. \<open>epoll_ctl\<close> fails when the descriptor to be added
  is there already, when the one to be changed or deleted is not, or when the loop
  descriptor is no epoll instance. \<open>epoll_reports\<close> is what \<open>epoll_wait\<close> documents: bits
  that were asked for, and \<open>EPOLLERR\<close> and \<open>EPOLLHUP\<close> at any time, for registered
  descriptors.
\<close>

subsection \<open>The code\<close>

definition EPOLLIN :: c_int where
  "EPOLLIN = 1"
definition EPOLLOUT :: c_int where
  "EPOLLOUT = 4"
definition EPOLLERR :: c_int where
  "EPOLLERR = 8"
definition EPOLLHUP :: c_int where
  "EPOLLHUP = 16"
definition EPOLLET :: c_int where
  "EPOLLET = 2147483648"

lemmas epoll_flag_defs = EPOLLIN_def EPOLLOUT_def EPOLLERR_def EPOLLHUP_def EPOLLET_def

datatype ctl_op = EPOLL_CTL_ADD | EPOLL_CTL_MOD | EPOLL_CTL_DEL

definition epoll_ctl :: "int \<Rightarrow> ctl_op \<Rightarrow> int \<Rightarrow> c_int \<Rightarrow> kernel \<Rightarrow> int \<times> kernel" where
  "epoll_ctl loop_fd op fd ev_mask k =
     (let there = map_of (interest k) fd \<noteq> None;
          others = filter (\<lambda>(f, m). f \<noteq> fd) (interest k) in
      if map_of (fds k) loop_fd \<noteq> Some OLoop then (- 1, k)
      else case op of
        EPOLL_CTL_ADD \<Rightarrow> (if there then (- 1, k) else (0, k\<lparr>interest := (fd, ev_mask) # interest k\<rparr>))
      | EPOLL_CTL_MOD \<Rightarrow> (if there then (0, k\<lparr>interest := (fd, ev_mask) # others\<rparr>) else (- 1, k))
      | EPOLL_CTL_DEL \<Rightarrow> (if there then (0, k\<lparr>interest := others\<rparr>) else (- 1, k)))"

definition to_epoll_events :: "c_int \<Rightarrow> c_int" where
  "to_epoll_events events =
     or_if (or_if EPOLLET EPOLLIN (has_bit events FSS_EVENT_READ))
       EPOLLOUT (has_bit events FSS_EVENT_WRITE)"

text \<open>\<open>epoll_create1\<close> may fail: \<open>ok\<close> says whether it succeeds.\<close>

definition event_loop_create :: "bool \<Rightarrow> kernel \<Rightarrow> int \<times> kernel" where
  "event_loop_create ok k =
     (if ok then (fresh_fd (fds k), k\<lparr>fds := (fresh_fd (fds k), OLoop) # fds k, interest := []\<rparr>)
      else (- 1, k))"

definition event_loop_add :: "int \<Rightarrow> int \<Rightarrow> c_int \<Rightarrow> kernel \<Rightarrow> int \<times> kernel" where
  "event_loop_add loop_fd fd events k = epoll_ctl loop_fd EPOLL_CTL_ADD fd (to_epoll_events events) k"

definition event_loop_modify :: "int \<Rightarrow> int \<Rightarrow> c_int \<Rightarrow> kernel \<Rightarrow> int \<times> kernel" where
  "event_loop_modify loop_fd fd events k = epoll_ctl loop_fd EPOLL_CTL_MOD fd (to_epoll_events events) k"

definition event_loop_remove :: "int \<Rightarrow> int \<Rightarrow> kernel \<Rightarrow> int \<times> kernel" where
  "event_loop_remove loop_fd fd k = epoll_ctl loop_fd EPOLL_CTL_DEL fd 0 k"

text \<open>One turn of the loop that translates the kernel's events.\<close>

definition from_epoll_event :: "int \<times> c_int \<Rightarrow> int \<times> c_int" where
  "from_epoll_event raw =
     (case raw of (fd, m) \<Rightarrow>
        (fd, or_if (or_if (or_if 0 FSS_EVENT_READ (has_bit m EPOLLIN))
                          FSS_EVENT_WRITE (has_bit m EPOLLOUT))
                   FSS_EVENT_ERROR (has_bit m (EPOLLERR OR EPOLLHUP))))"

text \<open>\<open>epoll_wait\<close> fails with an error, or gives at most \<open>max_events\<close> events.\<close>

definition event_loop_wait :: "errno + (int \<times> c_int) list \<Rightarrow> errno + (int \<times> c_int) list" where
  "event_loop_wait outcome = map_sum id (map from_epoll_event) outcome"

subsection \<open>It meets the contract\<close>

definition ep_watched :: "kernel \<Rightarrow> int \<Rightarrow> c_int" where
  "ep_watched k fd =
     (case map_of (interest k) fd of
        None \<Rightarrow> 0
      | Some m \<Rightarrow> or_if (or_if 0 FSS_EVENT_READ (has_bit m EPOLLIN)) FSS_EVENT_WRITE (has_bit m EPOLLOUT))"

definition ep_known :: "kernel \<Rightarrow> int \<Rightarrow> bool" where
  "ep_known k fd \<longleftrightarrow> map_of (interest k) fd \<noteq> None"

definition ep_alive :: "int \<Rightarrow> kernel \<Rightarrow> bool" where
  "ep_alive loop_fd k \<longleftrightarrow> map_of (fds k) loop_fd = Some OLoop"

definition epoll_reports :: "kernel \<Rightarrow> int \<times> c_int \<Rightarrow> bool" where
  "epoll_reports k raw =
     (case raw of (fd, m) \<Rightarrow>
        (case map_of (interest k) fd of
           None \<Rightarrow> False
         | Some asked \<Rightarrow> (has_bit m EPOLLIN \<longrightarrow> has_bit asked EPOLLIN)
                       \<and> (has_bit m EPOLLOUT \<longrightarrow> has_bit asked EPOLLOUT)))"

lemma epoll_bits [simp]:
  "\<not> has_bit EPOLLET EPOLLIN" "\<not> has_bit EPOLLET EPOLLOUT" "has_bit EPOLLIN EPOLLIN"
  "\<not> has_bit EPOLLIN EPOLLOUT" "\<not> has_bit EPOLLOUT EPOLLIN" "has_bit EPOLLOUT EPOLLOUT"
  by (simp_all add: has_bit_def epoll_flag_defs)

lemma to_epoll_round:
  assumes "one_way ev"
  shows "or_if (or_if 0 FSS_EVENT_READ (has_bit (to_epoll_events ev) EPOLLIN))
           FSS_EVENT_WRITE (has_bit (to_epoll_events ev) EPOLLOUT) = ev"
  using assms by (auto simp: one_way_def to_epoll_events_def has_bit_or_if has_bit_or or_if_def)

interpretation epoll: event_queue "event_loop_add lfd" "event_loop_modify lfd" "event_loop_remove lfd"
    from_epoll_event epoll_reports ep_watched ep_known "ep_alive lfd" for lfd
proof
  fix k fd g ev raw m
  show "ep_watched k fd = 0" if "\<not> ep_known k fd"
    using that by (simp add: ep_known_def ep_watched_def)
  show "ep_known (snd (event_loop_remove lfd fd k)) g \<longleftrightarrow> g \<noteq> fd \<and> ep_known k g" if "ep_alive lfd k"
    using that
    by (cases "map_of (interest k) fd")
       (auto simp: event_loop_remove_def epoll_ctl_def ep_alive_def ep_known_def map_of_filter_other)
  show "ep_known (snd (event_loop_add lfd fd ev k)) g \<longleftrightarrow> g = fd \<or> ep_known k g"
    if "ep_alive lfd k" and "\<not> ep_known k fd" and "one_way ev"
    using that by (simp add: event_loop_add_def epoll_ctl_def ep_alive_def ep_known_def)
  show "ep_known (snd (event_loop_modify lfd fd ev k)) g \<longleftrightarrow> ep_known k g"
    if "ep_alive lfd k" and "ep_known k fd" and "one_way ev"
    using that by (simp add: event_loop_modify_def epoll_ctl_def ep_alive_def ep_known_def map_of_filter_other)
  show "ep_alive lfd (snd (event_loop_add lfd fd ev k)) = ep_alive lfd k"
    and "ep_alive lfd (snd (event_loop_modify lfd fd ev k)) = ep_alive lfd k"
    and "ep_alive lfd (snd (event_loop_remove lfd fd k)) = ep_alive lfd k"
    by (simp_all add: event_loop_add_def event_loop_modify_def event_loop_remove_def epoll_ctl_def ep_alive_def Let_def)
  show "ep_watched (snd (event_loop_remove lfd fd k)) = (ep_watched k)(fd := 0)" if "ep_alive lfd k"
    using that
    by (auto simp: event_loop_remove_def epoll_ctl_def ep_alive_def ep_watched_def map_of_filter_other fun_eq_iff)
  show "fst (event_loop_add lfd fd ev k) = 0
        \<and> ep_watched (snd (event_loop_add lfd fd ev k)) = (ep_watched k)(fd := ev)"
    if "ep_alive lfd k" and "\<not> ep_known k fd" and "one_way ev"
    using that
    by (auto simp: event_loop_add_def epoll_ctl_def ep_alive_def ep_known_def ep_watched_def
        to_epoll_round fun_eq_iff)
  show "fst (event_loop_modify lfd fd ev k) = 0
        \<and> ep_watched (snd (event_loop_modify lfd fd ev k)) = (ep_watched k)(fd := ev)"
    if "ep_alive lfd k" and "ep_known k fd" and "one_way ev"
    using that
    by (auto simp: event_loop_modify_def epoll_ctl_def ep_alive_def ep_known_def ep_watched_def
        to_epoll_round map_of_filter_other fun_eq_iff)
  show "has_bit (ep_watched k fd) FSS_EVENT_READ"
    if "epoll_reports k raw" and "from_epoll_event raw = (fd, m)" and "has_bit m FSS_EVENT_READ"
    using that
    by (auto simp: epoll_reports_def from_epoll_event_def ep_watched_def has_bit_or_if
        split: prod.splits option.splits)
  show "has_bit (ep_watched k fd) FSS_EVENT_WRITE"
    if "epoll_reports k raw" and "from_epoll_event raw = (fd, m)" and "has_bit m FSS_EVENT_WRITE"
    using that
    by (auto simp: epoll_reports_def from_epoll_event_def ep_watched_def has_bit_or_if
        split: prod.splits option.splits)
qed

end
