(* ===== verification/Fss_Format.thy ===== *)
theory Fss_Format
  imports Fss_Prelude
begin

section \<open>The messages of \<open>src/format.c\<close>\<close>

text \<open>
  The three error messages of the server, and the text that each \<open>print_\<close> function puts on
  the standard output (\<open>print_server_usage\<close>: on the standard error).
\<close>

definition err_bad_request :: string where
  "err_bad_request = ''Bad request'' @ [NL]"

definition err_bad_file_size :: string where
  "err_bad_file_size = ''Bad file size'' @ [NL]"

definition err_no_such_file :: string where
  "err_no_such_file = ''No such file'' @ [NL]"

text \<open>A source line of a continued string literal: the indentation, the text, a newline and a blank.\<close>

definition tab :: string where
  "tab = [CHR 0x09]"

definition indented :: "string \<Rightarrow> string" where
  "indented s = ''        '' @ s @ [NL]"

definition print_client_usage :: string where
  "print_client_usage =
     ''./client <host>:<port> <method> [remote] [local]'' @ [NL] @ '' ''
     @ indented (''<host>'' @ tab @ tab @ ''Address to conenct to.'') @ '' ''
     @ indented (''<port>'' @ tab @ tab @ ''Port to set up connection on.'') @ '' ''
     @ indented (''<method>'' @ tab @ ''Method of request to send.'') @ '' ''
     @ indented (''[remote]'' @ tab @ ''Optional argument refering to remote filename'') @ '' ''
     @ indented (''[local]'' @ tab @ ''Optional argument refering to file on local system'') @ '' ''
     @ indented ''If <method> is any PUT, GET, or DELETE then [remote] and/or [local] are required''"

definition print_client_help :: string where
  "print_client_help =
     print_client_usage @ ''Methods:'' @ [NL] @ '' ''
     @ indented (''LIST'' @ tab @ tab @ tab @ ''Requests a list of files on the server.'') @ '' ''
     @ indented (''PUT <remote> <local>'' @ tab @ ''Uploads <local> file to serve as filename <remote>.'') @ '' ''
     @ indented (''GET <remote> <local>'' @ tab @ ''Downloads file named <remote> from server as filename <local>.'') @ '' ''
     @ indented (''DELETE <remote>'' @ tab @ ''Deletes file named <remote> on server.'')"

definition print_connection_closed :: string where
  "print_connection_closed = ''Connection closed'' @ [NL]"

definition print_error_message :: "string \<Rightarrow> string" where
  "print_error_message err = err @ [NL]"

definition print_invalid_response :: string where
  "print_invalid_response = ''Invalid response'' @ [NL]"

definition print_received_too_much_data :: string where
  "print_received_too_much_data = ''Received too much data'' @ [NL]"

definition print_too_little_data :: string where
  "print_too_little_data = ''Received too little data'' @ [NL]"

definition print_success :: string where
  "print_success = ''DELETE/PUT successful'' @ [NL]"

definition print_temp_directory :: "string \<Rightarrow> string" where
  "print_temp_directory temp_directory = temp_directory @ [NL]"

definition print_server_usage :: string where
  "print_server_usage = ''./server <port>'' @ [NL]"

end
