(* ===== verification/Fss_Common.thy ===== *)
theory Fss_Common
  imports Fss_Posix
begin

section \<open>The blocking helpers of \<open>src/common.c\<close>\<close>

text \<open>
  \<open>read_all_from_socket\<close>, \<open>write_all_to_socket\<close>, \<open>read_line_from_socket\<close> and
  \<open>get_file_size\<close>, which the client uses on a blocking socket: a read of an exhausted
  script finds the end of the stream. A loop returns what the C function returns (the
  \<open>ssize_t\<close>), the bytes it has stored, and the socket. The diagnostics of \<open>perror\<close> on the
  standard error stream are not modelled. Reading past the end of the buffer that is to be
  written is the result \<open>None\<close>.
\<close>

subsection \<open>The code\<close>

datatype verb = GET | PUT | DELETE | LIST | V_UNKNOWN

definition sock_read :: "sock \<Rightarrow> nat \<Rightarrow> (errno + byte list) \<times> sock" where
  "sock_read s n = (let (r, es) = recv_bytes (Inr []) (rx s) n in (r, s\<lparr>rx := es\<rparr>))"

definition sock_write :: "sock \<Rightarrow> byte list \<Rightarrow> (errno + nat) \<times> sock" where
  "sock_write s bs =
     (let (r, es) = send_bytes (tx s) bs;
          out = (case r of Inl e \<Rightarrow> [] | Inr n \<Rightarrow> take n bs)
      in (r, s\<lparr>tx := es, sent := sent s @ out\<rparr>))"

interpretation sock: byte_source sock_read "\<lambda>s. arriving (rx s)" "\<lambda>s. rx_weight (rx s)"
proof
  fix s s' n bs e
  assume n: "0 < (n::nat)"
  show "length bs \<le> n \<and> arriving (rx s) = bs @ arriving (rx s') \<and> rx_weight (rx s') < rx_weight (rx s)"
    if "sock_read s n = (Inr bs, s')" and "bs \<noteq> []"
    using that blocking.read_data [OF n] by (auto simp: sock_read_def split: prod.splits)
  show "arriving (rx s) = [] \<and> arriving (rx s') = []" if "sock_read s n = (Inr [], s')"
    using that blocking.read_eof [OF n] by (auto simp: sock_read_def split: prod.splits)
next
  fix s s' n e
  show "arriving (rx s') = arriving (rx s)" if "sock_read s n = (Inl e, s')"
    using that blocking.read_fail by (auto simp: sock_read_def split: prod.splits)
  show "rx_weight (rx s') < rx_weight (rx s)" if "sock_read s n = (Inl EINTR, s')"
    using that blocking.read_intr by (auto simp: sock_read_def split: prod.splits)
qed

text \<open>\<open>buffer\<close> holds the bytes read so far; their number is \<open>total_read\<close>.\<close>

function read_all_loop :: "sock \<Rightarrow> byte list \<Rightarrow> nat \<Rightarrow> int \<times> byte list \<times> sock" where
  "read_all_loop s buffer count =
     (if length buffer < count
      then (case sock_read s (count - length buffer) of
              (Inl EINTR, s') \<Rightarrow> read_all_loop s' buffer count
            | (Inl EAGAIN, s') \<Rightarrow> (- 1, buffer, s')
            | (Inl EOTHER, s') \<Rightarrow> (- 1, buffer, s')
            | (Inr [], s') \<Rightarrow> (int (length buffer), buffer, s')
            | (Inr (b # bs), s') \<Rightarrow> read_all_loop s' (buffer @ b # bs) count)
      else (int (length buffer), buffer, s))"
  by pat_completeness auto
termination
  by (relation "measure (\<lambda>(s, buffer, count). rx_weight (rx s))")
     (auto dest!: sym [of _ "sock_read _ _"] elim: sock.read_intr sock.read_cons)

declare read_all_loop.simps [simp del]

definition read_all_from_socket :: "sock \<Rightarrow> nat \<Rightarrow> int \<times> byte list \<times> sock" where
  "read_all_from_socket s count = read_all_loop s [] count"

lemma sock_write_decreases:
  assumes "sock_write s bs = (r, s')" and "bs \<noteq> []"
  shows "r = Inl EINTR \<Longrightarrow> length (tx s') < length (tx s)"
    and "r = Inr n \<Longrightarrow> length (tx s') + length (drop n bs) < length (tx s) + length bs"
  using assms by (auto simp: sock_write_def send_bytes_def split: list.splits wr_ev.splits)

text \<open>\<open>rest\<close> is \<open>buffer + total_written\<close>, up to \<open>count\<close>.\<close>

function write_all_loop :: "sock \<Rightarrow> byte list \<Rightarrow> nat \<Rightarrow> int \<times> sock" where
  "write_all_loop s rest total_written =
     (if rest \<noteq> []
      then (case sock_write s rest of
              (Inl EINTR, s') \<Rightarrow> write_all_loop s' rest total_written
            | (Inl EAGAIN, s') \<Rightarrow> (- 1, s')
            | (Inl EOTHER, s') \<Rightarrow> (- 1, s')
            | (Inr n, s') \<Rightarrow> write_all_loop s' (drop n rest) (total_written + n))
      else (int total_written, s))"
  by pat_completeness auto
termination
  by (relation "measure (\<lambda>(s, rest, total_written). length (tx s) + length rest)")
     (auto dest!: sym [of _ "sock_write _ _"] intro: sock_write_decreases simp del: length_drop)

declare write_all_loop.simps [simp del]

definition write_all_to_socket :: "sock \<Rightarrow> byte list \<Rightarrow> nat \<Rightarrow> (int \<times> sock) option" where
  "write_all_to_socket s buffer count =
     (if count \<le> length buffer then Some (write_all_loop s (take count buffer) 0) else None)"

text \<open>\<open>bufsize\<close> is the size of the array, which keeps room for the terminating NUL.\<close>

function read_line_loop :: "sock \<Rightarrow> byte list \<Rightarrow> nat \<Rightarrow> int \<times> byte list \<times> sock" where
  "read_line_loop s buffer bufsize =
     (if length buffer < bufsize - 1
      then (case sock_read s 1 of
              (Inl EINTR, s') \<Rightarrow> read_line_loop s' buffer bufsize
            | (Inl EAGAIN, s') \<Rightarrow> (- 1, buffer, s')
            | (Inl EOTHER, s') \<Rightarrow> (- 1, buffer, s')
            | (Inr [], s') \<Rightarrow>
                (if length buffer = 0 then (0, buffer, s') else (int (length buffer), buffer, s'))
            | (Inr (c # cs), s') \<Rightarrow>
                (if c = NL then (int (length (buffer @ [c])), buffer @ [c], s')
                 else read_line_loop s' (buffer @ [c]) bufsize))
      else (int (length buffer), buffer, s))"
  by pat_completeness auto
termination
  by (relation "measure (\<lambda>(s, buffer, bufsize). rx_weight (rx s))")
     (auto dest!: sym [of _ "sock_read _ _"] elim: sock.read_intr sock.read_cons)

declare read_line_loop.simps [simp del]

definition read_line_from_socket :: "sock \<Rightarrow> nat \<Rightarrow> int \<times> byte list \<times> sock" where
  "read_line_from_socket s bufsize = read_line_loop s [] bufsize"

text \<open>\<open>stat\<close> gives the size of the file, or fails; the result is converted to \<open>size_t\<close>.\<close>

definition get_file_size :: "nat option \<Rightarrow> size_t" where
  "get_file_size stat = (case stat of None \<Rightarrow> - 1 | Some st_size \<Rightarrow> of_nat st_size)"

subsection \<open>What the helpers do on a connection without errors\<close>

definition rx_clean :: "rd_ev list \<Rightarrow> bool" where
  "rx_clean es \<longleftrightarrow> RErr \<notin> set es \<and> RAgain \<notin> set es"

definition tx_clean :: "wr_ev list \<Rightarrow> bool" where
  "tx_clean es \<longleftrightarrow> WErr \<notin> set es \<and> WAgain \<notin> set es"

lemma sock_read_clean:
  assumes "rx_clean (rx s)" and "sock_read s n = (r, s')"
  shows "rx_clean (rx s') \<and> tx s' = tx s \<and> sent s' = sent s" and "r = Inl EINTR \<or> (\<exists>bs. r = Inr bs)"
  using assms
  by (auto simp: sock_read_def recv_bytes_def rx_clean_def split: prod.splits if_splits list.splits rd_ev.splits)

lemma sock_write_clean:
  assumes "tx_clean (tx s)" and "sock_write s bs = (r, s')"
  shows "tx_clean (tx s') \<and> rx s' = rx s"
    and "(r = Inl EINTR \<and> sent s' = sent s) \<or> (\<exists>n. r = Inr n \<and> n \<le> length bs \<and> sent s' = sent s @ take n bs)"
  using assms
  by (auto simp: sock_write_def send_bytes_def tx_clean_def split: prod.splits list.splits wr_ev.splits)

lemma read_all_loop_spec:
  assumes "rx_clean (rx s)" and "length buffer \<le> count"
    and "read_all_loop s buffer count = (r, out, s')"
  shows "out = buffer @ take (count - length buffer) (arriving (rx s)) \<and> r = int (length out)
         \<and> arriving (rx s') = drop (count - length buffer) (arriving (rx s))
         \<and> rx_clean (rx s') \<and> tx s' = tx s \<and> sent s' = sent s"
  using assms
proof (induction s buffer count rule: read_all_loop.induct)
  case (1 s buffer count)
  note unf = read_all_loop.simps [of s buffer count]
  show ?case
  proof (cases "length buffer < count")
    case False
    with "1.prems" show ?thesis by (simp add: unf)
  next
    case True
    then have pos: "0 < count - length buffer" by simp
    obtain r1 s1 where rd: "sock_read s (count - length buffer) = (r1, s1)" by fastforce
    note cl = sock_read_clean [OF "1.prems"(1) rd]
    from cl(2) consider "r1 = Inl EINTR" | "r1 = Inr []" | b bs where "r1 = Inr (b # bs)"
      by (auto intro: list.exhaust)
    then show ?thesis
    proof cases
      case 1
      with "1.IH"(1) [OF True rd [symmetric] 1] cl(1) "1.prems" True rd sock.read_fail
      show ?thesis by (auto simp: unf)
    next
      case 2
      with "1.prems" True rd cl(1) sock.read_eof [OF pos] show ?thesis by (auto simp: unf)
    next
      case 3
      note prog = sock.read_progress [OF pos rd [unfolded 3]]
      with 3 "1.prems" True rd have "read_all_loop s1 (buffer @ b # bs) count = (r, out, s')"
        by (simp add: unf)
      define x where "x = b # bs"
      have ar: "arriving (rx s) = x @ arriving (rx s1)" and le: "length (buffer @ x) \<le> count"
        using prog True by (simp_all add: x_def)
      have sub: "count - length buffer - length x = count - length (buffer @ x)" by simp
      note loop = \<open>read_all_loop s1 (buffer @ b # bs) count = (r, out, s')\<close> [folded x_def]
      from "1.IH"(2) [OF True rd [symmetric] 3 refl, folded x_def] cl(1) le loop
      have "out = (buffer @ x) @ take (count - length (buffer @ x)) (arriving (rx s1)) \<and> r = int (length out)
          \<and> arriving (rx s') = drop (count - length (buffer @ x)) (arriving (rx s1))
          \<and> rx_clean (rx s') \<and> tx s' = tx s1 \<and> sent s' = sent s1" by blast
      then show ?thesis using le cl(1) by (simp add: ar)
    qed
  qed
qed

lemma write_all_loop_spec:
  assumes "tx_clean (tx s)" and "write_all_loop s rest tw = (r, s')"
  shows "r = int (tw + length rest) \<and> sent s' = sent s @ rest \<and> tx_clean (tx s') \<and> rx s' = rx s"
  using assms
proof (induction s rest tw rule: write_all_loop.induct)
  case (1 s rest tw)
  note unf = write_all_loop.simps [of s rest tw]
  show ?case
  proof (cases "rest = []")
    case True
    with "1.prems" show ?thesis by (simp add: write_all_loop.simps [of s "[]" tw])
  next
    case False
    obtain r1 s1 where wr: "sock_write s rest = (r1, s1)" by fastforce
    note cl = sock_write_clean [OF "1.prems"(1) wr]
    from cl(2) show ?thesis
    proof (elim disjE exE conjE)
      assume i: "r1 = Inl EINTR" "sent s1 = sent s"
      with "1.IH"(1) [OF False wr [symmetric] i(1) refl] "1.prems" False wr cl(1) show ?thesis
        by (simp add: unf)
    next
      fix n assume n: "r1 = Inr n" "n \<le> length rest" "sent s1 = sent s @ take n rest"
      with "1.prems" False wr have "write_all_loop s1 (drop n rest) (tw + n) = (r, s')"
        by (simp add: unf)
      with "1.IH"(2) [OF False wr [symmetric] n(1)] cl(1) n show ?thesis by simp
    qed
  qed
qed

text \<open>A line that fits: up to the newline, which it includes.\<close>

lemma read_line_loop_spec:
  assumes "rx_clean (rx s)" and "arriving (rx s) = line @ NL # later" and "NL \<notin> set line"
    and "length buffer + length line + 1 < bufsize"
    and "read_line_loop s buffer bufsize = (r, out, s')"
  shows "out = buffer @ line @ [NL] \<and> r = int (length out) \<and> arriving (rx s') = later
         \<and> rx_clean (rx s') \<and> tx s' = tx s \<and> sent s' = sent s"
  using assms
proof (induction s buffer bufsize arbitrary: line rule: read_line_loop.induct)
  case (1 s buffer bufsize)
  note unf = read_line_loop.simps [of s buffer bufsize]
  have room: "length buffer < bufsize - 1" using "1.prems"(4) by simp
  obtain r1 s1 where rd: "sock_read s 1 = (r1, s1)" by fastforce
  note cl = sock_read_clean [OF "1.prems"(1) rd]
  from cl(2) consider "r1 = Inl EINTR" | "r1 = Inr []" | b bs where "r1 = Inr (b # bs)"
    by (auto intro: list.exhaust)
  then show ?case
  proof cases
    case 1
    with sock.read_fail rd have "arriving (rx s1) = arriving (rx s)" by blast
    with "1.IH"(1) [OF room rd [symmetric] 1 refl] cl(1) "1.prems" room rd 1 show ?thesis
      by (simp add: unf)
  next
    case 2
    with sock.read_eof [of 1 s s1] rd have "arriving (rx s) = []" by simp
    with "1.prems"(2) show ?thesis by simp
  next
    case 3
    have "bs = []" and ar: "arriving (rx s) = b # arriving (rx s1)"
      using sock.read_progress [of 1 s "b # bs" s1] rd 3 by simp_all
    show ?thesis
    proof (cases "b = NL")
      case True
      with ar "1.prems"(2,3) have "line = [] \<and> later = arriving (rx s1)"
        by (cases line) auto
      with True 3 rd room "1.prems"(5) cl(1) show ?thesis by (auto simp: unf)
    next
      case False
      with ar "1.prems"(2) obtain l where l: "line = b # l" "arriving (rx s1) = l @ NL # later"
        by (cases line) auto
      with False 3 rd room "1.prems"(5) have "read_line_loop s1 (buffer @ [b]) bufsize = (r, out, s')"
        by (simp add: unf)
      with "1.IH"(2) [OF room rd [symmetric] 3 refl False, of l] cl(1) l "1.prems"(3,4) show ?thesis
        by simp
    qed
  qed
qed

lemmas read_all_spec = read_all_loop_spec [of _ "[]", simplified, folded read_all_from_socket_def]

lemma write_all_spec:
  assumes "tx_clean (tx s)" and "count \<le> length buffer"
  obtains s' where "write_all_to_socket s buffer count = Some (int count, s')"
    and "sent s' = sent s @ take count buffer" and "tx_clean (tx s')" and "rx s' = rx s"
proof -
  obtain r s' where w: "write_all_loop s (take count buffer) 0 = (r, s')" by fastforce
  from write_all_loop_spec [OF assms(1) w] assms(2) w that show thesis
    by (simp add: write_all_to_socket_def min_def)
qed

lemma read_line_spec:
  assumes "rx_clean (rx s)" and "arriving (rx s) = line @ NL # later" and "NL \<notin> set line"
    and "length line + 1 < bufsize"
  obtains s' where "read_line_from_socket s bufsize = (int (length line + 1), line @ [NL], s')"
    and "arriving (rx s') = later" and "rx_clean (rx s')" and "tx s' = tx s" and "sent s' = sent s"
proof -
  obtain r out s' where w: "read_line_loop s [] bufsize = (r, out, s')" by (metis prod_cases3)
  from read_line_loop_spec [OF assms(1,2,3) _ w] assms(4) w that show thesis
    by (simp add: read_line_from_socket_def)
qed

subsection \<open>Properties\<close>

text \<open>C31: \<open>read_all_from_socket\<close> returns exactly the next \<open>count\<close> bytes of the stream, however
  they are cut into pieces and however often the reads are interrupted; fewer only when the
  stream ends, and then all that there are. The rest of the stream is left unread.\<close>

theorem read_all_exact:
  assumes "rx_clean (rx s)" and "read_all_from_socket s count = (r, out, s')"
  shows "out = take count (arriving (rx s)) \<and> r = int (min count (length (arriving (rx s))))
    \<and> arriving (rx s') = drop count (arriving (rx s)) \<and> sent s' = sent s"
  using read_all_spec [OF assms] by (auto simp: min_def)

theorem read_all_exact_witness:
  "fst (read_all_from_socket \<lparr>rx = [Data CHR ''a'' [], RIntr, Data CHR ''b'' ''c'', REof], tx = [], sent = []\<rparr> 2) = 2"
proof -
  let ?s = "\<lparr>rx = [Data CHR ''a'' [], RIntr, Data CHR ''b'' ''c'', REof], tx = [], sent = []\<rparr>"
  obtain r out s' where e: "read_all_from_socket ?s 2 = (r, out, s')" by (metis prod_cases3)
  have "rx_clean (rx ?s)" by (simp add: rx_clean_def)
  from read_all_exact [OF this e] e show ?thesis by simp
qed

text \<open>A read that fails for any other reason makes \<open>read_all_from_socket\<close> return -1.\<close>

theorem read_all_error:
  assumes "rx s = RErr # es \<or> rx s = RAgain # es" and "0 < count"
  shows "fst (read_all_from_socket s count) = - 1"
  using assms
  by (auto simp: read_all_from_socket_def read_all_loop.simps [of s "[]" count] sock_read_def recv_bytes_def)

theorem read_all_error_witness:
  "fst (read_all_from_socket \<lparr>rx = [RErr], tx = [], sent = []\<rparr> 5) = - 1"
  using read_all_error [of "\<lparr>rx = [RErr], tx = [], sent = []\<rparr>" "[]" 5] by simp

text \<open>C32: \<open>write_all_to_socket\<close> delivers exactly the \<open>count\<close> bytes, in order, whatever part of them
  each \<open>write\<close> takes; it stays inside the buffer exactly when \<open>count\<close> is at most its size.\<close>

theorem write_all_exact:
  assumes "tx_clean (tx s)"
  shows "case write_all_to_socket s buffer count of
      None \<Rightarrow> length buffer < count
    | Some (r, s') \<Rightarrow> count \<le> length buffer \<and> r = int count \<and> sent s' = sent s @ take count buffer \<and> rx s' = rx s"
proof (cases "count \<le> length buffer")
  case True
  from write_all_spec [OF assms True] obtain s' where
    "write_all_to_socket s buffer count = Some (int count, s')" "sent s' = sent s @ take count buffer" "rx s' = rx s"
    by blast
  then show ?thesis using True by simp
next
  case False
  then show ?thesis by (simp add: write_all_to_socket_def)
qed

theorem write_all_exact_witness:
  "map_option (\<lambda>(r, s). (r, sent s)) (write_all_to_socket \<lparr>rx = [], tx = [Room 0, WIntr], sent = []\<rparr> ''abc'' 3)
     = Some (3, ''abc'')"
proof -
  let ?s = "\<lparr>rx = [], tx = [Room 0, WIntr], sent = []\<rparr>"
  have c: "tx_clean (tx ?s)" by (simp add: tx_clean_def)
  show ?thesis using write_all_exact [OF c, of "''abc''" 3] by (auto split: option.splits)
qed

text \<open>C33: \<open>read_line_from_socket\<close> takes the stream up to and including the first newline, if
  that fits into the array, and leaves what follows unread.\<close>

theorem read_line_exact:
  assumes "rx_clean (rx s)" and "arriving (rx s) = line @ NL # later" and "NL \<notin> set line"
    and "length line + 1 < bufsize" and "read_line_from_socket s bufsize = (r, out, s')"
  shows "out = line @ [NL] \<and> r = int (length line) + 1 \<and> arriving (rx s') = later"
  using read_line_loop_spec [OF assms(1-3), of "[]" bufsize] assms(4,5)
  by (simp add: read_line_from_socket_def)

theorem read_line_exact_witness:
  "fst (read_line_from_socket \<lparr>rx = [Data CHR ''O'' [], RIntr, Data CHR ''K'' (NL # ''abc'')], tx = [], sent = []\<rparr> 1024) = 3"
proof -
  let ?s = "\<lparr>rx = [Data CHR ''O'' [], RIntr, Data CHR ''K'' (NL # ''abc'')], tx = [], sent = []\<rparr>"
  obtain r out s' where e: "read_line_from_socket ?s 1024 = (r, out, s')" by (metis prod_cases3)
  have "rx_clean (rx ?s)" by (simp add: rx_clean_def)
  from read_line_exact [OF this _ _ _ e, of "''OK''" "''abc''"] e show ?thesis by simp
qed

end
