(* ===== verification/Fss_Server_State.thy ===== *)
theory Fss_Server_State
  imports Fss_Dictionary Fss_Epoll Fss_Format Fss_Common
begin

section \<open>The state of the server (\<open>src/server.c\<close>, first part)\<close>

text \<open>
  The connection object \<open>client_t\<close>, the global variables, and the life cycle of a
  connection object.

  A handler of the C code gets a pointer to the connection object and may free it. Here it
  takes the object and the rest of the state, and returns the object, or \<open>None\<close> when it has
  been freed, with the new state; the event loop takes the object from the heap and puts it
  back. No handler reads another connection's object, so nothing is lost.

  \<open>header_buf\<close> and \<open>simple_response_buf\<close> are the bytes stored in the arrays so far (the
  rest of the zeroed array is NUL bytes); \<open>header_len\<close> of the code is the length of
  \<open>header_buf\<close>.
\<close>

subsection \<open>Types and globals\<close>

definition MAX_EVENTS :: nat where
  "MAX_EVENTS = 64"
definition MAX_HEADER_LEN :: nat where
  "MAX_HEADER_LEN = 1024"
definition BUFFER_SIZE :: nat where
  "BUFFER_SIZE = 4096"

datatype conn_state =
    STATE_RECV_HEADER
  | STATE_RECV_PUT_SIZE
  | STATE_RECV_PUT_DATA
  | STATE_SEND_OK
  | STATE_SEND_ERROR
  | STATE_SEND_GET_SIZE
  | STATE_SEND_GET_DATA
  | STATE_SEND_LIST_DATA
  | STATE_DONE

text \<open>The numbers that C gives to the enumerators; states are ordered by them.\<close>

fun state_number :: "conn_state \<Rightarrow> nat" where
  "state_number STATE_RECV_HEADER = 0"
| "state_number STATE_RECV_PUT_SIZE = 1"
| "state_number STATE_RECV_PUT_DATA = 2"
| "state_number STATE_SEND_OK = 3"
| "state_number STATE_SEND_ERROR = 4"
| "state_number STATE_SEND_GET_SIZE = 5"
| "state_number STATE_SEND_GET_DATA = 6"
| "state_number STATE_SEND_LIST_DATA = 7"
| "state_number STATE_DONE = 8"

lemma state_number_inject: "state_number a = state_number b \<Longrightarrow> a = b"
  by (cases a; cases b) auto

instantiation conn_state :: linorder
begin

definition less_eq_conn_state :: "conn_state \<Rightarrow> conn_state \<Rightarrow> bool" where
  "less_eq_conn_state a b \<longleftrightarrow> state_number a \<le> state_number b"

definition less_conn_state :: "conn_state \<Rightarrow> conn_state \<Rightarrow> bool" where
  "less_conn_state a b \<longleftrightarrow> state_number a < state_number b"

instance
  by standard (auto simp: less_eq_conn_state_def less_conn_state_def dest: state_number_inject)

end

record client =
  c_fd :: int
  c_state :: conn_state
  c_verb :: verb
  c_header_buf :: "byte list"
  c_filename :: string
  c_file_fd :: int
  c_expected_size :: size_t
  c_file_size :: size_t
  c_bytes_transferred :: size_t
  c_list_buf :: "byte list option"
  c_list_len :: nat
  c_list_sent :: nat
  c_resp_buf :: "byte list"
  c_resp_len :: nat
  c_resp_sent :: nat

record server =
  running :: bool
  temp_dir :: "string option"
  server_files :: "string vector option"
  fd_to_client :: "nat dictionary option"
  event_loop_fd :: int
  listen_fd :: int
  heap :: "nat \<Rightarrow> client option"
  next_addr :: nat
  console :: string
  kern :: kernel

type_synonym handled = "client option \<times> server"

definition initial_globals :: "kernel \<Rightarrow> server" where
  "initial_globals k =
     \<lparr>running = True, temp_dir = None, server_files = None, fd_to_client = None,
      event_loop_fd = - 1, listen_fd = - 1, heap = Map.empty, next_addr = 0, console = [],
      kern = k\<rparr>"

subsection \<open>Operations\<close>

text \<open>\<open>SIGINT\<close> is signal 2.\<close>

definition signal_handler :: "int \<Rightarrow> server \<Rightarrow> server" where
  "signal_handler sig s = (if sig = 2 then s\<lparr>running := False\<rparr> else s)"

text \<open>\<open>calloc\<close> zeroes the object: the verb is the enumerator 0, \<open>GET\<close>.\<close>

definition client_create :: "int \<Rightarrow> client" where
  "client_create fd =
     \<lparr>c_fd = fd, c_state = STATE_RECV_HEADER, c_verb = GET, c_header_buf = [], c_filename = [],
      c_file_fd = - 1, c_expected_size = 0, c_file_size = 0, c_bytes_transferred = 0,
      c_list_buf = None, c_list_len = 0, c_list_sent = 0,
      c_resp_buf = [], c_resp_len = 0, c_resp_sent = 0\<rparr>"

text \<open>Freeing the memory is the \<open>None\<close> that the callers return.\<close>

definition client_destroy :: "client \<Rightarrow> kernel \<Rightarrow> kernel" where
  "client_destroy c k = (if c_file_fd c \<noteq> - 1 then sys_close (c_file_fd c) k else k)"

text \<open>\<open>snprintf(filepath, sizeof(filepath), "%s/%s", temp_dir, client->filename)\<close>.\<close>

definition filepath :: "server \<Rightarrow> string \<Rightarrow> string" where
  "filepath s name =
     fst (snprintf 1024 ((case temp_dir s of None \<Rightarrow> ''(null)'' | Some d \<Rightarrow> d) @ ''/'' @ name))"

definition modify_event_loop :: "int \<Rightarrow> c_int \<Rightarrow> server \<Rightarrow> server" where
  "modify_event_loop fd events s =
     s\<lparr>kern := snd (event_loop_modify (event_loop_fd s) fd events (kern s))\<rparr>"

definition add_fd_to_event_loop :: "int \<Rightarrow> c_int \<Rightarrow> server \<Rightarrow> server" where
  "add_fd_to_event_loop fd events s =
     s\<lparr>kern := snd (event_loop_add (event_loop_fd s) fd events (kern s))\<rparr>"

definition close_and_cleanup :: "client \<Rightarrow> server \<Rightarrow> handled" where
  "close_and_cleanup c s =
     (let k = snd (event_loop_remove (event_loop_fd s) (c_fd c) (kern s));
          k = sys_close (c_fd c) k;
          k = (if c_verb c = PUT \<and> c_state c \<noteq> STATE_DONE
               then snd (sys_unlink (filepath s (c_filename c)) k) else k);
          k = client_destroy c k
      in (None, s\<lparr>fd_to_client := dictionary_remove (fd_to_client s) (Some (c_fd c)), kern := k\<rparr>))"

end
