(* ===== verification/Fss_Server_Files.thy ===== *)
theory Fss_Server_Files
  imports Fss_Server_State
begin

section \<open>The list of the stored files (\<open>src/server.c\<close>, \<open>server_files\<close>)\<close>

text \<open>
  \<open>build_list_buffer\<close>, \<open>add_file_to_list\<close>, \<open>remove_file_from_list\<close>. The buffer that
  \<open>calloc\<close> gives is written from the front without gaps, so it is modelled as the bytes
  written so far, the offset being its length; that the bytes never exceed the size that
  was allocated is a lemma.
\<close>

subsection \<open>The code\<close>

text \<open>The three loops \<open>for (i = 0; i < vector_size(server_files); i++)\<close> with \<open>strcmp\<close>.\<close>

definition find_file :: "server \<Rightarrow> string \<Rightarrow> nat option" where
  "find_file s name = index_loop vector_size vector_get (\<lambda>f. f = name) (server_files s) 0"

function total_size_loop :: "string vector option \<Rightarrow> nat \<Rightarrow> nat \<Rightarrow> nat" where
  "total_size_loop files i total_data_size =
     (if i < vector_size files
      then (let total = total_data_size + (case vector_get files i of None \<Rightarrow> 0 | Some f \<Rightarrow> length f);
                total = (if i < vector_size files - 1 then total + 1 else total)
            in total_size_loop files (Suc i) total)
      else total_data_size)"
  by pat_completeness auto
termination
  by (relation "measure (\<lambda>(files, i, t). vector_size files - i)") auto

function copy_names_loop :: "string vector option \<Rightarrow> nat \<Rightarrow> byte list \<Rightarrow> byte list" where
  "copy_names_loop files i buffer =
     (if i < vector_size files
      then (let buf = buffer @ (case vector_get files i of None \<Rightarrow> [] | Some f \<Rightarrow> f);
                buf = (if i < vector_size files - 1 then buf @ [NL] else buf)
            in copy_names_loop files (Suc i) buf)
      else buffer)"
  by pat_completeness auto
termination
  by (relation "measure (\<lambda>(files, i, t). vector_size files - i)") auto

declare total_size_loop.simps [simp del] copy_names_loop.simps [simp del]

text \<open>The buffer (\<open>None\<close> where \<open>calloc\<close> fails), its length, and the state.\<close>

definition build_list_buffer :: "server \<Rightarrow> (byte list \<times> nat) option \<times> server" where
  "build_list_buffer s =
     (let total_data_size = total_size_loop (server_files s) 0 0;
          total_buffer_size = sizeof_size_t + total_data_size;
          (ok, al) = next_alloc (heap_ok (kern s));
          s = s\<lparr>kern := (kern s)\<lparr>heap_ok := al\<rparr>\<rparr>
      in if \<not> ok then (None, s)
         else (Some (copy_names_loop (server_files s) 0 (encode_size (of_nat total_data_size)),
                     total_buffer_size), s))"

definition add_file_to_list :: "string \<Rightarrow> server \<Rightarrow> server" where
  "add_file_to_list name s =
     (case find_file s name of
        Some i \<Rightarrow> s
      | None \<Rightarrow>
          (let (al, files) = vector_push_back (heap_ok (kern s)) (server_files s) name
           in s\<lparr>server_files := files, kern := (kern s)\<lparr>heap_ok := al\<rparr>\<rparr>))"

definition remove_file_from_list :: "string \<Rightarrow> server \<Rightarrow> server" where
  "remove_file_from_list name s =
     (case find_file s name of
        Some i \<Rightarrow> s\<lparr>server_files := fst (vector_erase (server_files s) i)\<rparr>
      | None \<Rightarrow> s)"

subsection \<open>What the list operations do\<close>

abbreviation files_of :: "server \<Rightarrow> string list" where
  "files_of s \<equiv> vec_items (server_files s)"

definition files_ok :: "server \<Rightarrow> bool" where
  "files_ok s \<longleftrightarrow> vec_ok (server_files s) \<and> distinct (files_of s)"

text \<open>The body of the answer to a list request: the names, separated by newlines.\<close>

fun join_lines :: "string list \<Rightarrow> byte list" where
  "join_lines [] = []"
| "join_lines [x] = x"
| "join_lines (x # y # ys) = x @ NL # join_lines (y # ys)"

lemma find_file_None: "files_ok s \<Longrightarrow> find_file s name = None \<longleftrightarrow> name \<notin> set (files_of s)"
  by (simp add: find_file_def files_ok_def vec.search_absent)

lemma total_size_loop_join:
  assumes "vec_ok files" and "i \<le> length (vec_items files)"
  shows "total_size_loop files i t = t + length (join_lines (drop i (vec_items files)))"
  using assms(2)
proof (induction "length (vec_items files) - i" arbitrary: i t)
  case 0
  then show ?case using assms(1)
    by (subst total_size_loop.simps) (simp add: vec.size_items)
next
  case (Suc n)
  let ?xs = "vec_items files"
  from Suc.hyps(2) have i: "i < length ?xs" by simp
  have n: "n = length ?xs - Suc i" using Suc.hyps(2) by simp
  have d: "drop i ?xs = ?xs ! i # drop (Suc i) ?xs" using i by (simp add: Cons_nth_drop_Suc)
  have step: "total_size_loop files i t =
      total_size_loop files (Suc i) (t + length (?xs ! i) + (if i < length ?xs - 1 then 1 else 0))"
    using assms(1) i by (subst total_size_loop.simps) (simp add: vec.size_items vec.get_items Let_def)
  show ?case
  proof (cases "drop (Suc i) ?xs")
    case Nil
    then have "\<not> i < length ?xs - 1" by auto
    with step Suc.hyps(1) [OF n] i d Nil show ?thesis by simp
  next
    case (Cons y ys)
    then have "i < length ?xs - 1" by (cases "Suc i < length ?xs") auto
    with step Suc.hyps(1) [OF n] i d Cons show ?thesis by simp
  qed
qed

lemma copy_names_loop_join:
  assumes "vec_ok files" and "i \<le> length (vec_items files)"
  shows "copy_names_loop files i b = b @ join_lines (drop i (vec_items files))"
  using assms(2)
proof (induction "length (vec_items files) - i" arbitrary: i b)
  case 0
  then show ?case using assms(1)
    by (subst copy_names_loop.simps) (simp add: vec.size_items)
next
  case (Suc n)
  let ?xs = "vec_items files"
  from Suc.hyps(2) have i: "i < length ?xs" by simp
  have n: "n = length ?xs - Suc i" using Suc.hyps(2) by simp
  have d: "drop i ?xs = ?xs ! i # drop (Suc i) ?xs" using i by (simp add: Cons_nth_drop_Suc)
  have step: "copy_names_loop files i b =
      copy_names_loop files (Suc i) (b @ ?xs ! i @ (if i < length ?xs - 1 then [NL] else []))"
    using assms(1) i by (subst copy_names_loop.simps) (simp add: vec.size_items vec.get_items Let_def)
  show ?case
  proof (cases "drop (Suc i) ?xs")
    case Nil
    then have "\<not> i < length ?xs - 1" by auto
    with step Suc.hyps(1) [OF n] i d Nil show ?thesis by simp
  next
    case (Cons y ys)
    then have "i < length ?xs - 1" by (cases "Suc i < length ?xs") auto
    with step Suc.hyps(1) [OF n] i d Cons show ?thesis by simp
  qed
qed

text \<open>The buffer is the size and the names, and exactly fills what was allocated.\<close>

definition list_reply :: "string list \<Rightarrow> byte list" where
  "list_reply names = encode_size (of_nat (length (join_lines names))) @ join_lines names"

lemma build_list_buffer_spec:
  assumes "files_ok s" and "build_list_buffer s = (r, s')"
  shows "(r = None \<and> False \<in> set (heap_ok (kern s))) \<or>
         r = Some (list_reply (files_of s), length (list_reply (files_of s)))"
    and "\<exists>al. s' = s\<lparr>kern := (kern s)\<lparr>heap_ok := al\<rparr>\<rparr> \<and> set al \<subseteq> set (heap_ok (kern s))"
  using assms
  by (auto simp: build_list_buffer_def files_ok_def total_size_loop_join copy_names_loop_join
      list_reply_def next_alloc_def Let_def split: if_splits list.splits)

lemma add_file_frame:
  "\<exists>v al. add_file_to_list name s = s\<lparr>server_files := v, kern := (kern s)\<lparr>heap_ok := al\<rparr>\<rparr>"
proof (cases "find_file s name")
  case None
  then show ?thesis by (auto simp: add_file_to_list_def split: prod.splits)
next
  case (Some i)
  then have "add_file_to_list name s = s\<lparr>server_files := server_files s, kern := (kern s)\<lparr>heap_ok := heap_ok (kern s)\<rparr>\<rparr>"
    by (simp add: add_file_to_list_def)
  then show ?thesis by blast
qed

lemma add_file_present:
  assumes "files_ok s" and "name \<in> set (files_of s)"
  shows "add_file_to_list name s = s"
  using assms find_file_None [OF assms(1), of name] by (auto simp: add_file_to_list_def)

lemma add_file_absent:
  assumes "files_ok s" and "name \<notin> set (files_of s)"
  shows "files_ok (add_file_to_list name s)"
    and "files_of (add_file_to_list name s) = files_of s @ [name]
         \<or> files_of (add_file_to_list name s) = files_of s \<and> False \<in> set (heap_ok (kern s))"
proof -
  obtain al v where p: "vector_push_back (heap_ok (kern s)) (server_files s) name = (al, v)" by fastforce
  have a: "add_file_to_list name s = s\<lparr>server_files := v, kern := (kern s)\<lparr>heap_ok := al\<rparr>\<rparr>"
    using assms find_file_None [OF assms(1), of name] p by (simp add: add_file_to_list_def)
  have ok: "vec_ok (server_files s)" using assms(1) by (simp add: files_ok_def)
  from vec.push_items [OF ok, of "heap_ok (kern s)" name] p a
  show r: "files_of (add_file_to_list name s) = files_of s @ [name]
         \<or> files_of (add_file_to_list name s) = files_of s \<and> False \<in> set (heap_ok (kern s))" by simp
  from vec.push_good [OF ok, of "heap_ok (kern s)" name] p a r assms
  show "files_ok (add_file_to_list name s)" by (auto simp: files_ok_def)
qed

lemma add_file_ok: "files_ok s \<Longrightarrow> files_ok (add_file_to_list name s)"
  using add_file_present add_file_absent by (cases "name \<in> set (files_of s)") auto

lemma add_file_set:
  assumes "files_ok s" and "False \<notin> set (heap_ok (kern s))"
  shows "set (files_of (add_file_to_list name s)) = insert name (set (files_of s))"
  using add_file_present [OF assms(1)] add_file_absent [OF assms(1)] assms(2)
  by (cases "name \<in> set (files_of s)") auto

lemma remove_file_items:
  assumes "files_ok s"
  shows "files_ok (remove_file_from_list name s)"
    and "files_of (remove_file_from_list name s) = remove1 name (files_of s)"
proof -
  have ok: "vec_ok (server_files s)" using assms by (simp add: files_ok_def)
  have "vec_ok (server_files (remove_file_from_list name s)) \<and>
        files_of (remove_file_from_list name s) = remove1 name (files_of s)"
  proof (cases "find_file s name")
    case None
    then have "name \<notin> set (files_of s)" using find_file_None [OF assms] by blast
    with None ok show ?thesis by (simp add: remove_file_from_list_def remove1_idem)
  next
    case (Some i)
    then have il: "index_loop vector_size vector_get (\<lambda>f. f = name) (server_files s) 0 = Some i"
      by (simp add: find_file_def)
    from vec.erase_found [OF ok il] vec.erase_good [OF ok vec.search_present(1) [OF ok il]] Some
    show ?thesis by (simp add: remove_file_from_list_def vec_erase_def)
  qed
  with assms show "files_ok (remove_file_from_list name s)"
    and "files_of (remove_file_from_list name s) = remove1 name (files_of s)"
    by (auto simp: files_ok_def)
qed

lemma remove_file_set:
  "files_ok s \<Longrightarrow> set (files_of (remove_file_from_list name s)) = set (files_of s) - {name}"
  by (simp add: remove_file_items files_ok_def)

subsection \<open>Properties\<close>

text \<open>A state with two names, for the witnesses.\<close>

definition two_names :: server where
  "two_names = (initial_globals \<lparr>fds = [], conns = (\<lambda>n. \<lparr>rx = [], tx = [], sent = []\<rparr>), backlog = [], dents = [],
       inodes = (\<lambda>i. Regular []), next_ino = 0, resolve = Some, disk = [], heap_ok = [], interest = []\<rparr>)
     \<lparr>server_files := Some \<lparr>v_data = [Some ''a'', Some ''bc''], v_size = 2, v_capacity = 2, v_destructor = False\<rparr>\<rparr>"

lemma two_names_ok: "files_ok two_names" "files_of two_names = [''a'', ''bc'']" "heap_ok (kern two_names) = []"
  by (auto simp: two_names_def files_ok_def vec_ok_def vec_items_def initial_globals_def less_Suc_eq numeral_2_eq_2)


text \<open>C26: The buffer of a list reply is the size of the list as eight bytes followed by the names
  joined by newlines, and its bytes exactly fill the memory that was allocated for it, so the
  copying loop neither writes past the end nor leaves a gap; only a failed allocation gives
  no buffer.\<close>

theorem list_buffer_exact:
  assumes "files_ok s" and "build_list_buffer s = (r, s')"
  shows "(case r of
            None \<Rightarrow> False \<in> set (heap_ok (kern s))
          | Some (buf, len) \<Rightarrow> buf = encode_size (of_nat (length (join_lines (files_of s)))) @ join_lines (files_of s)
              \<and> len = length buf \<and> len = sizeof_size_t + total_size_loop (server_files s) 0 0)
         \<and> files_of s' = files_of s"
  using build_list_buffer_spec(1) [OF assms] build_list_buffer_spec(2) [OF assms] assms(1)
  by (auto simp: list_reply_def files_ok_def total_size_loop_join)

theorem list_buffer_exact_witness:
  "files_of (snd (build_list_buffer two_names)) = [''a'', ''bc''] \<and> fst (build_list_buffer two_names) \<noteq> None"
  using list_buffer_exact [OF two_names_ok(1) prod.collapse [symmetric]]
  by (auto simp: two_names_ok split: option.splits)

text \<open>C27: The list of names is a set without duplicates: \<open>add_file_to_list\<close> adds a name that is
  missing (unless memory is exhausted) and does nothing for one that is present,
  \<open>remove_file_from_list\<close> takes it out, and both leave the other names and their order alone.\<close>

theorem file_list_is_a_set:
  assumes "files_ok s" and "False \<notin> set (heap_ok (kern s))"
  shows "files_ok (add_file_to_list name s) \<and> files_ok (remove_file_from_list name s)
    \<and> files_of (add_file_to_list name s) = (if name \<in> set (files_of s) then files_of s else files_of s @ [name])
    \<and> files_of (remove_file_from_list name s) = filter (\<lambda>f. f \<noteq> name) (files_of s)"
proof -
  have "distinct (files_of s)" using assms(1) by (simp add: files_ok_def)
  then have "remove1 name (files_of s) = filter (\<lambda>f. f \<noteq> name) (files_of s)"
    by (auto simp: distinct_remove1_removeAll removeAll_filter_not_eq intro: filter_cong)
  then show ?thesis
    using assms remove_file_items [OF assms(1), of name] add_file_present [OF assms(1), of name]
      add_file_absent [OF assms(1), of name]
    by auto
qed

theorem file_list_is_a_set_witness:
  "files_of (add_file_to_list ''d'' two_names) = [''a'', ''bc'', ''d''] \<and>
   files_of (remove_file_from_list ''a'' two_names) = [''bc'']"
  using file_list_is_a_set [OF two_names_ok(1), of "''d''"] file_list_is_a_set [OF two_names_ok(1), of "''a''"]
  by (simp add: two_names_ok)

end
