(* ===== verification/Fss_Server_Response.thy ===== *)
theory Fss_Server_Response
  imports Fss_Server_Files
begin

section \<open>Sending a status line and the list (\<open>src/server.c\<close>)\<close>

text \<open>
  \<open>execute_simple_response_write\<close>, \<open>prepare_and_send_response\<close> and \<open>start_send_list\<close> call
  each other: writing the last byte of \<open>OK\<close> to a list request starts the list, and a list
  that cannot be allocated turns into an error response. The recursion ends because an
  error response starts nothing. The status is the string of the code.
\<close>

definition OK_LINE :: "byte list" where
  "OK_LINE = ''OK'' @ [NL]"

definition error_lines :: "string option \<Rightarrow> byte list" where
  "error_lines msg = ''ERROR'' @ [NL] @ (case msg of None \<Rightarrow> [] | Some m \<Rightarrow> m) @ [NL]"

text \<open>The assignments of \<open>prepare_and_send_response\<close>, before it calls the writer.\<close>

definition prepare_response :: "string \<Rightarrow> string option \<Rightarrow> client \<Rightarrow> client" where
  "prepare_response status msg c =
     (let c = c\<lparr>c_resp_sent := 0\<rparr>;
          text = (if status = ''OK'' then OK_LINE else error_lines msg);
          c = c\<lparr>c_resp_buf := fst (snprintf MAX_HEADER_LEN text),
                c_resp_len := snd (snprintf MAX_HEADER_LEN text),
                c_state := (if status = ''OK'' then STATE_SEND_OK else STATE_SEND_ERROR)\<rparr>
      in if c_resp_len c \<ge> MAX_HEADER_LEN then c\<lparr>c_resp_len := MAX_HEADER_LEN - 1\<rparr> else c)"

text \<open>\<open>simple_response_buf + simple_response_sent\<close>, \<open>bytes_left\<close> bytes.\<close>

definition response_rest :: "client \<Rightarrow> byte list" where
  "response_rest c = take (c_resp_len c - c_resp_sent c) (drop (c_resp_sent c) (c_resp_buf c))"

function execute_simple_response_write :: "client \<Rightarrow> server \<Rightarrow> handled"
  and start_send_list :: "client \<Rightarrow> server \<Rightarrow> handled"
  and prepare_and_send_response :: "client \<Rightarrow> server \<Rightarrow> string \<Rightarrow> string option \<Rightarrow> handled" where
  "execute_simple_response_write c s =
     (case sys_write (c_fd c) (response_rest c) (kern s) of
        (Inl EAGAIN, k) \<Rightarrow> (Some c, s\<lparr>kern := k\<rparr>)
      | (Inl EINTR, k) \<Rightarrow> close_and_cleanup c (s\<lparr>kern := k\<rparr>)
      | (Inl EOTHER, k) \<Rightarrow> close_and_cleanup c (s\<lparr>kern := k\<rparr>)
      | (Inr n, k) \<Rightarrow>
          (let s' = s\<lparr>kern := k\<rparr>;
               c' = c\<lparr>c_resp_sent := c_resp_sent c + n\<rparr>
           in if c_resp_sent c + n = c_resp_len c
              then (if c_state c = STATE_SEND_OK
                    then (if c_verb c = LIST then start_send_list c' s'
                          else if c_verb c = GET
                          then (Some (c'\<lparr>c_resp_len := 0, c_resp_sent := 0, c_state := STATE_SEND_GET_SIZE\<rparr>),
                                modify_event_loop (c_fd c) FSS_EVENT_WRITE s')
                          else close_and_cleanup (c'\<lparr>c_state := STATE_DONE\<rparr>) s')
                    else if c_state c = STATE_SEND_ERROR
                    then close_and_cleanup (c'\<lparr>c_state := STATE_DONE\<rparr>) s'
                    else (Some c', s'))
              else (Some c', modify_event_loop (c_fd c) FSS_EVENT_WRITE s')))"
| "start_send_list c s =
     (case build_list_buffer s of
        (None, s') \<Rightarrow> prepare_and_send_response (c\<lparr>c_list_buf := None\<rparr>) s' ''ERROR'' (Some err_bad_request)
      | (Some (buf, len), s') \<Rightarrow>
          (Some (c\<lparr>c_list_buf := Some buf, c_list_len := len, c_list_sent := 0,
                   c_state := STATE_SEND_LIST_DATA\<rparr>),
           modify_event_loop (c_fd c) FSS_EVENT_WRITE s'))"
| "prepare_and_send_response c s status msg =
     execute_simple_response_write (prepare_response status msg c) s"
  by pat_completeness auto
termination
  by (relation "measure (\<lambda>x. case x of
        Inl (c, s) \<Rightarrow> if c_state c = STATE_SEND_OK then 3 else 0
      | Inr (Inl (c, s)) \<Rightarrow> 2
      | Inr (Inr (c, s, status, msg)) \<Rightarrow> if status = ''OK'' then 4 else 1)")
     (auto simp: prepare_response_def Let_def)

declare execute_simple_response_write.simps [simp del] start_send_list.simps [simp del]
  prepare_and_send_response.simps [simp del]

definition send_list_data :: "client \<Rightarrow> server \<Rightarrow> handled" where
  "send_list_data c s =
     (case sys_write (c_fd c)
             (take (c_list_len c - c_list_sent c)
                (drop (c_list_sent c) (case c_list_buf c of None \<Rightarrow> [] | Some b \<Rightarrow> b))) (kern s) of
        (Inl EAGAIN, k) \<Rightarrow> (Some c, s\<lparr>kern := k\<rparr>)
      | (Inl EINTR, k) \<Rightarrow> close_and_cleanup c (s\<lparr>kern := k\<rparr>)
      | (Inl EOTHER, k) \<Rightarrow> close_and_cleanup c (s\<lparr>kern := k\<rparr>)
      | (Inr n, k) \<Rightarrow>
          (let c' = c\<lparr>c_list_sent := c_list_sent c + n\<rparr>
           in if c_list_sent c + n = c_list_len c
              then close_and_cleanup (c'\<lparr>c_state := STATE_DONE\<rparr>) (s\<lparr>kern := k\<rparr>)
              else (Some c', s\<lparr>kern := k\<rparr>)))"

end
