(* ===== verification/Fss_Server_Put.thy ===== *)
theory Fss_Server_Put
  imports Fss_Server_Response
begin

section \<open>Receiving an upload (\<open>src/server.c\<close>, PUT)\<close>

text \<open>
  The two loops over \<open>read\<close> are functions of their own; they return why they ended. A loop
  ends because each turn either consumes an interruption or at least one byte of what the
  connection will deliver (\<open>fd_weight\<close>).
\<close>

datatype loop_end = LoopOver | LoopWait | LoopFail

definition fd_coming :: "int \<Rightarrow> kernel \<Rightarrow> byte list" where
  "fd_coming fd k = (case map_of (fds k) fd of Some (OSock c) \<Rightarrow> arriving (rx (conns k c)) | _ \<Rightarrow> [])"

definition fd_weight :: "int \<Rightarrow> kernel \<Rightarrow> nat" where
  "fd_weight fd k = (case map_of (fds k) fd of Some (OSock c) \<Rightarrow> rx_weight (rx (conns k c)) | _ \<Rightarrow> 0)"

interpretation kread: byte_source "\<lambda>k n. sys_read fd n k" "fd_coming fd" "fd_weight fd" for fd
proof
  fix k k' n bs e
  show "length bs \<le> n \<and> fd_coming fd k = bs @ fd_coming fd k' \<and> fd_weight fd k' < fd_weight fd k"
    if "0 < n" and "sys_read fd n k = (Inr bs, k')" and "bs \<noteq> []"
    using that nonblocking.read_data [of n]
    by (auto simp: sys_read_def fd_coming_def fd_weight_def split: option.splits fobj.splits prod.splits)
  show "fd_coming fd k = [] \<and> fd_coming fd k' = []" if "0 < n" and "sys_read fd n k = (Inr [], k')"
    using that nonblocking.read_eof [of n]
    by (auto simp: sys_read_def fd_coming_def split: option.splits fobj.splits prod.splits)
  show "fd_coming fd k' = fd_coming fd k" if "sys_read fd n k = (Inl e, k')"
    using that nonblocking.read_fail
    by (auto simp: sys_read_def fd_coming_def split: option.splits fobj.splits prod.splits)
  show "fd_weight fd k' < fd_weight fd k" if "sys_read fd n k = (Inl EINTR, k')"
    using that nonblocking.read_intr
    by (auto simp: sys_read_def fd_weight_def split: option.splits fobj.splits prod.splits)
qed

lemma pwrite_frame:
  assumes "sys_pwrite fd bs off k = (r, k')"
  shows "fds k' = fds k \<and> conns k' = conns k"
  using assms
  by (auto simp: sys_pwrite_def next_disk_def Let_def
      split: list.splits option.splits fobj.splits node.splits disk_ev.splits prod.splits)

lemma pwrite_weight: "sys_pwrite fd' bs off k = (r, k') \<Longrightarrow> fd_weight fd k' = fd_weight fd k"
  using pwrite_frame [of fd' bs off k r k'] by (auto simp: fd_weight_def split: option.splits fobj.splits)

subsection \<open>The code\<close>

definition size_len :: size_t where
  "size_len = of_nat sizeof_size_t"

function recv_put_size_loop :: "client \<Rightarrow> kernel \<Rightarrow> loop_end \<times> client \<times> kernel" where
  "recv_put_size_loop c k =
     (if c_bytes_transferred c < size_len
      then (case sys_read (c_fd c) (unat (size_len - c_bytes_transferred c)) k of
              (Inl EINTR, k') \<Rightarrow> recv_put_size_loop c k'
            | (Inl EAGAIN, k') \<Rightarrow> (LoopWait, c, k')
            | (Inl EOTHER, k') \<Rightarrow> (LoopFail, c, k')
            | (Inr [], k') \<Rightarrow> (LoopFail, c, k')
            | (Inr (b # bs), k') \<Rightarrow>
                recv_put_size_loop
                  (c\<lparr>c_expected_size := poke_size (c_expected_size c) (unat (c_bytes_transferred c)) (b # bs),
                     c_bytes_transferred := c_bytes_transferred c + of_nat (length (b # bs))\<rparr>) k')
      else (LoopOver, c, k))"
  by pat_completeness auto
termination
  by (relation "measure (\<lambda>(c, k). fd_weight (c_fd c) k)")
     (auto dest!: sym [of _ "sys_read _ _ _"] elim: kread.read_intr kread.read_cons
       simp: unat_gt_0 simp del: of_nat_Suc)

text \<open>How much the next turn of a transfer loop asks for, when \<open>left\<close> bytes remain.\<close>

definition chunk_len :: "size_t \<Rightarrow> nat" where
  "chunk_len left = (if left < of_nat BUFFER_SIZE then unat left else BUFFER_SIZE)"

lemma chunk_len_pos [simp]: "0 < chunk_len left \<longleftrightarrow> left \<noteq> 0"
  by (auto simp: chunk_len_def unat_gt_0 BUFFER_SIZE_def)

lemma chunk_len_le: "chunk_len left \<le> unat left" "chunk_len left \<le> BUFFER_SIZE"
  by (auto simp: chunk_len_def BUFFER_SIZE_def word_less_nat_alt not_less)

lemma read_chunk_weight:
  assumes "sys_read fd (chunk_len (e - b)) k = (Inr (x # xs), k')" and "b < e"
  shows "fd_weight fd k' < fd_weight fd k"
  using assms(2) by (intro kread.read_cons [OF assms(1)]) auto

function recv_put_data_loop :: "client \<Rightarrow> kernel \<Rightarrow> loop_end \<times> client \<times> kernel" where
  "recv_put_data_loop c k =
     (if c_bytes_transferred c < c_expected_size c
      then (case sys_read (c_fd c) (chunk_len (c_expected_size c - c_bytes_transferred c)) k of
              (Inl EINTR, k') \<Rightarrow> recv_put_data_loop c k'
            | (Inl EAGAIN, k') \<Rightarrow> (LoopWait, c, k')
            | (Inl EOTHER, k') \<Rightarrow> (LoopFail, c, k')
            | (Inr [], k') \<Rightarrow> (LoopFail, c, k')
            | (Inr (b # bs), k') \<Rightarrow>
                (case sys_pwrite (c_file_fd c) (b # bs) (unat (c_bytes_transferred c)) k' of
                   (n_written, k'') \<Rightarrow>
                     (if n_written \<noteq> Inr (length (b # bs)) then (LoopFail, c, k'')
                      else recv_put_data_loop
                        (c\<lparr>c_bytes_transferred := c_bytes_transferred c + of_nat (length (b # bs))\<rparr>) k'')))
      else (LoopOver, c, k))"
  by pat_completeness auto
termination
  by (relation "measure (\<lambda>(c, k). fd_weight (c_fd c) k)")
     (auto dest!: sym [of _ "sys_read _ _ _"] sym [of _ "sys_pwrite _ _ _ _"]
       elim: kread.read_intr dest: read_chunk_weight
       simp: pwrite_weight simp del: of_nat_Suc)

declare recv_put_size_loop.simps [simp del] recv_put_data_loop.simps [simp del]

text \<open>\<open>close(client->file_fd); client->file_fd = -1;\<close>\<close>

definition close_file :: "client \<Rightarrow> server \<Rightarrow> client \<times> server" where
  "close_file c s = (c\<lparr>c_file_fd := - 1\<rparr>, s\<lparr>kern := sys_close (c_file_fd c) (kern s)\<rparr>)"

text \<open>
  After the loop. The read of one more byte finds data (the upload is too long), or the end
  of the stream or nothing (it is complete).
\<close>

definition recv_put_data :: "client \<Rightarrow> server \<Rightarrow> handled" where
  "recv_put_data c s =
     (case recv_put_data_loop c (kern s) of
        (LoopFail, c, k) \<Rightarrow>
          (let (c, s) = close_file c (s\<lparr>kern := k\<rparr>)
           in prepare_and_send_response c s ''ERROR'' (Some err_bad_file_size))
      | (_, c, k) \<Rightarrow>
          (if c_bytes_transferred c = c_expected_size c
           then (let (c, s) = close_file c (s\<lparr>kern := k\<rparr>);
                     (extra_read, k) = sys_read (c_fd c) 1 (kern s);
                     s = s\<lparr>kern := k\<rparr>
                 in case extra_read of
                      Inr (b # bs) \<Rightarrow> prepare_and_send_response c s ''ERROR'' (Some err_bad_file_size)
                    | _ \<Rightarrow> prepare_and_send_response c (add_file_to_list (c_filename c) s) ''OK'' None)
           else (Some c, s\<lparr>kern := k\<rparr>)))"

definition recv_put_size :: "client \<Rightarrow> server \<Rightarrow> handled" where
  "recv_put_size c s =
     (case recv_put_size_loop c (kern s) of
        (LoopWait, c, k) \<Rightarrow> (Some c, s\<lparr>kern := k\<rparr>)
      | (LoopFail, c, k) \<Rightarrow> prepare_and_send_response c (s\<lparr>kern := k\<rparr>) ''ERROR'' (Some err_bad_file_size)
      | (LoopOver, c, k) \<Rightarrow>
          (let c = c\<lparr>c_bytes_transferred := 0\<rparr>;
               (file_fd, k) = sys_open_create (filepath s (c_filename c)) k;
               c = c\<lparr>c_file_fd := file_fd\<rparr>;
               s = s\<lparr>kern := k\<rparr>
           in if file_fd = - 1 then prepare_and_send_response c s ''ERROR'' (Some err_bad_file_size)
              else recv_put_data (c\<lparr>c_state := STATE_RECV_PUT_DATA\<rparr>) s))"

end
