(* ===== verification/Fss_Server_Get.thy ===== *)
theory Fss_Server_Get
  imports Fss_Server_Put
begin

section \<open>Sending a download, and deleting (\<open>src/server.c\<close>, GET and DELETE)\<close>

text \<open>
  \<open>start_send_get\<close>, \<open>send_get_size\<close>, \<open>send_get_data\<close> and \<open>delete_request\<close>. The transfer loop
  of a download is a function of its own that returns why it ended; it ends because every
  turn that does not return has sent at least one byte of what remains.
\<close>

definition start_send_get :: "client \<Rightarrow> server \<Rightarrow> handled" where
  "start_send_get c s =
     (let (file_fd, k) = sys_open_rdonly (filepath s (c_filename c)) (kern s);
          c = c\<lparr>c_file_fd := file_fd\<rparr>;
          s = s\<lparr>kern := k\<rparr>
      in if file_fd = - 1 then prepare_and_send_response c s ''ERROR'' (Some err_no_such_file)
         else (case sys_fstat file_fd (kern s) of
                 (None, k) \<Rightarrow>
                   (let (c, s) = close_file c (s\<lparr>kern := k\<rparr>)
                    in prepare_and_send_response c s ''ERROR'' (Some err_no_such_file))
               | (Some st_size, k) \<Rightarrow>
                   prepare_and_send_response
                     (c\<lparr>c_file_size := of_nat st_size, c_bytes_transferred := 0\<rparr>)
                     (s\<lparr>kern := k\<rparr>) ''OK'' None))"

definition send_get_size :: "client \<Rightarrow> server \<Rightarrow> handled" where
  "send_get_size c s =
     (let c = (if c_resp_len c = 0
               then c\<lparr>c_resp_buf := encode_size (c_file_size c), c_resp_len := sizeof_size_t, c_resp_sent := 0\<rparr>
               else c)
      in case sys_write (c_fd c) (response_rest c) (kern s) of
           (Inl EAGAIN, k) \<Rightarrow> (Some c, s\<lparr>kern := k\<rparr>)
         | (Inl EINTR, k) \<Rightarrow> close_and_cleanup c (s\<lparr>kern := k\<rparr>)
         | (Inl EOTHER, k) \<Rightarrow> close_and_cleanup c (s\<lparr>kern := k\<rparr>)
         | (Inr n, k) \<Rightarrow>
             (let c' = c\<lparr>c_resp_sent := c_resp_sent c + n\<rparr>
              in if c_resp_sent c' = c_resp_len c'
                 then (Some (c'\<lparr>c_state := STATE_SEND_GET_DATA, c_resp_len := 0, c_resp_sent := 0\<rparr>),
                       modify_event_loop (c_fd c) FSS_EVENT_WRITE (s\<lparr>kern := k\<rparr>))
                 else (Some c', s\<lparr>kern := k\<rparr>)))"

lemma pread_length:
  assumes "sys_pread fd n off k = (Inr bs, k')"
  shows "length bs \<le> n"
  using assms
  by (auto simp: sys_pread_def next_disk_def Let_def
      split: list.splits option.splits fobj.splits node.splits disk_ev.splits prod.splits)

lemma sys_write_le:
  assumes "sys_write fd bs k = (Inr n, k')"
  shows "n \<le> length bs" and "bs \<noteq> [] \<Longrightarrow> 0 < n"
  using assms
  by (auto simp: sys_write_def send_bytes_def split: list.splits option.splits fobj.splits wr_ev.splits)

lemma chunk_progress:
  assumes "b < (e :: size_t)" and "0 < n" and "n \<le> chunk_len (e - b)"
  shows "unat (e - (b + of_nat n)) < unat (e - b)"
proof -
  have le: "n \<le> unat (e - b)" using assms(3) chunk_len_le(1) order_trans by blast
  note u = unat_of_nat_le [OF le]
  have "of_nat n \<le> e - b" using le by (simp add: word_le_nat_alt u)
  then have "unat (e - b - of_nat n) = unat (e - b) - n" by (simp add: unat_sub u)
  moreover have eq: "e - (b + of_nat n) = e - b - of_nat n" by (simp add: diff_diff_eq)
  moreover have "0 < unat (e - b)" using assms(1) by (simp add: unat_gt_0)
  ultimately show ?thesis using assms(2) unfolding eq by linarith
qed

lemma send_chunk_decreases:
  assumes "sys_pread f (chunk_len (e - b)) off k = (Inr (x # xs), k1)"
    and "sys_write fd (x # xs) k1 = (Inr n, k2)" and "b < e"
  shows "unat (e - (b + of_nat n)) < unat (e - b)"
proof (rule chunk_progress [OF assms(3)])
  show "0 < n" using sys_write_le(2) [OF assms(2)] by simp
  show "n \<le> chunk_len (e - b)"
    using sys_write_le(1) [OF assms(2)] pread_length [OF assms(1)] by simp
qed

text \<open>Another turn of the loop is taken only when the whole piece was written.\<close>

function send_get_data_loop :: "client \<Rightarrow> kernel \<Rightarrow> loop_end \<times> client \<times> kernel" where
  "send_get_data_loop c k =
     (if c_bytes_transferred c < c_file_size c
      then (case sys_pread (c_file_fd c) (chunk_len (c_file_size c - c_bytes_transferred c))
                   (unat (c_bytes_transferred c)) k of
              (Inl e, k') \<Rightarrow> (LoopFail, c, k')
            | (Inr [], k') \<Rightarrow> (LoopFail, c, k')
            | (Inr (b # bs), k') \<Rightarrow>
                (case sys_write (c_fd c) (b # bs) k' of
                   (Inl EAGAIN, k'') \<Rightarrow> (LoopWait, c, k'')
                 | (Inl EINTR, k'') \<Rightarrow> (LoopFail, c, k'')
                 | (Inl EOTHER, k'') \<Rightarrow> (LoopFail, c, k'')
                 | (Inr n_written, k'') \<Rightarrow>
                     (let c' = c\<lparr>c_bytes_transferred := c_bytes_transferred c + of_nat n_written\<rparr>
                      in if n_written < length (b # bs) then (LoopWait, c', k'')
                         else send_get_data_loop c' k'')))
      else (LoopOver, c, k))"
  by pat_completeness auto
termination
  by (relation "measure (\<lambda>(c, k). unat (c_file_size c - c_bytes_transferred c))")
     (auto dest!: sym [of _ "sys_pread _ _ _ _"] sym [of _ "sys_write _ _ _"] dest: send_chunk_decreases)

declare send_get_data_loop.simps [simp del]

definition send_get_data :: "client \<Rightarrow> server \<Rightarrow> handled" where
  "send_get_data c s =
     (case send_get_data_loop c (kern s) of
        (LoopFail, c, k) \<Rightarrow> close_and_cleanup c (s\<lparr>kern := k\<rparr>)
      | (LoopWait, c, k) \<Rightarrow> (Some c, s\<lparr>kern := k\<rparr>)
      | (LoopOver, c, k) \<Rightarrow>
          (if c_bytes_transferred c = c_file_size c
           then close_and_cleanup (c\<lparr>c_state := STATE_DONE\<rparr>) (s\<lparr>kern := k\<rparr>)
           else (Some c, s\<lparr>kern := k\<rparr>)))"

definition delete_request :: "client \<Rightarrow> server \<Rightarrow> handled" where
  "delete_request c s =
     (case find_file s (c_filename c) of
        None \<Rightarrow> prepare_and_send_response c s ''ERROR'' (Some err_no_such_file)
      | Some index \<Rightarrow>
          (case sys_unlink (filepath s (c_filename c)) (kern s) of
             (False, k) \<Rightarrow> prepare_and_send_response c (s\<lparr>kern := k\<rparr>) ''ERROR'' (Some err_no_such_file)
           | (True, k) \<Rightarrow>
               prepare_and_send_response c (remove_file_from_list (c_filename c) (s\<lparr>kern := k\<rparr>)) ''OK'' None))"

end
