(* ===== verification/Fss_Server_Loop.thy ===== *)
theory Fss_Server_Loop
  imports Fss_Server_Get
begin

section \<open>Requests and events (\<open>src/server.c\<close>, last part)\<close>

text \<open>
  Parsing a request line, the two event handlers, accepting, the body of the event loop,
  the set-up and the clean-up, and \<open>main\<close>.
\<close>

subsection \<open>The request line\<close>

text \<open>
  The two NUL bytes that the code stores, the verb in front of them and the file name
  behind the blank.
\<close>

definition split_header :: "byte list \<Rightarrow> nat \<Rightarrow> byte list \<times> string \<times> string option" where
  "split_header buf newline =
     (let buf = buf[newline := NUL] in
      case strchr buf CHR '' '' of
        None \<Rightarrow> (buf, cstr buf, None)
      | Some space \<Rightarrow>
          (let buf = buf[space := NUL] in (buf, cstr buf, Some (cstr (drop (space + 1) buf)))))"

definition parse_header_and_transition :: "client \<Rightarrow> server \<Rightarrow> handled" where
  "parse_header_and_transition c s =
     (case strchr (c_header_buf c) NL of
        None \<Rightarrow> (Some c, s)
      | Some newline \<Rightarrow>
          (let (buf, verb_str, name) = split_header (c_header_buf c) newline;
               c = c\<lparr>c_header_buf := buf\<rparr>;
               bad = (\<lambda>c. prepare_and_send_response c s ''ERROR'' (Some err_bad_request))
           in if verb_str = ''LIST'' then
                (let c = c\<lparr>c_verb := LIST\<rparr> in
                 case name of Some f \<Rightarrow> bad c | None \<Rightarrow> prepare_and_send_response c s ''OK'' None)
              else if verb_str = ''DELETE'' then
                (let c = c\<lparr>c_verb := DELETE\<rparr> in
                 case name of None \<Rightarrow> bad c
                 | Some f \<Rightarrow> delete_request (c\<lparr>c_filename := strncpy 255 f\<rparr>) s)
              else if verb_str = ''GET'' then
                (let c = c\<lparr>c_verb := GET\<rparr> in
                 case name of None \<Rightarrow> bad c
                 | Some f \<Rightarrow> start_send_get (c\<lparr>c_filename := strncpy 255 f\<rparr>) s)
              else if verb_str = ''PUT'' then
                (let c = c\<lparr>c_verb := PUT\<rparr> in
                 case name of None \<Rightarrow> bad c
                 | Some f \<Rightarrow>
                     (Some (c\<lparr>c_filename := strncpy 255 f, c_bytes_transferred := 0,
                              c_state := STATE_RECV_PUT_SIZE\<rparr>),
                      modify_event_loop (c_fd c) FSS_EVENT_READ s))
              else bad c))"

subsection \<open>The event handlers\<close>

datatype header_end = HeaderLine | HeaderWait | HeaderClose

function recv_header_loop :: "client \<Rightarrow> kernel \<Rightarrow> header_end \<times> client \<times> kernel" where
  "recv_header_loop c k =
     (if length (c_header_buf c) < MAX_HEADER_LEN - 1
      then (case sys_read (c_fd c) 1 k of
              (Inl EINTR, k') \<Rightarrow> recv_header_loop c k'
            | (Inl EAGAIN, k') \<Rightarrow> (HeaderWait, c, k')
            | (Inl EOTHER, k') \<Rightarrow> (HeaderClose, c, k')
            | (Inr [], k') \<Rightarrow> (HeaderClose, c, k')
            | (Inr (ch # chs), k') \<Rightarrow>
                (let c' = c\<lparr>c_header_buf := c_header_buf c @ [ch]\<rparr>
                 in if ch = NL then (HeaderLine, c', k') else recv_header_loop c' k'))
      else (HeaderWait, c, k))"
  by pat_completeness auto
termination
  by (relation "measure (\<lambda>(c, k). fd_weight (c_fd c) k)")
     (auto dest!: sym [of _ "sys_read _ _ _"] elim: kread.read_intr kread.read_cons)

declare recv_header_loop.simps [simp del]

definition handle_read_event :: "client \<Rightarrow> server \<Rightarrow> handled" where
  "handle_read_event c s =
     (if c_state c = STATE_RECV_HEADER
      then (case recv_header_loop c (kern s) of
              (HeaderLine, c, k) \<Rightarrow> parse_header_and_transition c (s\<lparr>kern := k\<rparr>)
            | (HeaderClose, c, k) \<Rightarrow> close_and_cleanup c (s\<lparr>kern := k\<rparr>)
            | (HeaderWait, c, k) \<Rightarrow>
                (if length (c_header_buf c) \<ge> MAX_HEADER_LEN - 1
                 then prepare_and_send_response c (s\<lparr>kern := k\<rparr>) ''ERROR'' (Some err_bad_request)
                 else (Some c, s\<lparr>kern := k\<rparr>)))
      else if c_state c = STATE_RECV_PUT_SIZE then recv_put_size c s
      else if c_state c = STATE_RECV_PUT_DATA then recv_put_data c s
      else (Some c, s))"

definition handle_write_event :: "client \<Rightarrow> server \<Rightarrow> handled" where
  "handle_write_event c s =
     (if c_state c = STATE_SEND_OK \<or> c_state c = STATE_SEND_ERROR then execute_simple_response_write c s
      else if c_state c = STATE_SEND_LIST_DATA then send_list_data c s
      else if c_state c = STATE_SEND_GET_SIZE then send_get_size c s
      else if c_state c = STATE_SEND_GET_DATA then send_get_data c s
      else (Some c, s))"

subsection \<open>Accepting\<close>

lemma sys_accept_backlog:
  assumes "sys_accept k = (r, k')"
  shows "r = Inl EINTR \<or> r = Inr fd \<Longrightarrow> length (backlog k') < length (backlog k)"
  using assms by (auto simp: sys_accept_def split: list.splits acc_ev.splits)

text \<open>
  \<open>make_socket_nonblocking\<close> changes no modelled state: every read and write of the model is
  non-blocking.
\<close>

definition accept_one :: "int \<Rightarrow> server \<Rightarrow> server" where
  "accept_one client_fd s =
     (let s = add_fd_to_event_loop client_fd FSS_EVENT_READ s;
          p = next_addr s;
          (al, d) = dictionary_set (heap_ok (kern s)) (fd_to_client s) (Some client_fd) p
      in s\<lparr>heap := (heap s)(p \<mapsto> client_create client_fd), next_addr := p + 1,
           fd_to_client := d, kern := (kern s)\<lparr>heap_ok := al\<rparr>\<rparr>)"

lemma accept_one_backlog: "backlog (kern (accept_one fd s)) = backlog (kern s)"
  by (simp add: accept_one_def add_fd_to_event_loop_def event_loop_add_def epoll_ctl_def Let_def
      split: prod.splits)

function accept_connections :: "server \<Rightarrow> server" where
  "accept_connections s =
     (case sys_accept (kern s) of
        (Inl EAGAIN, k) \<Rightarrow> s\<lparr>kern := k\<rparr>
      | (Inl EINTR, k) \<Rightarrow> accept_connections (s\<lparr>kern := k\<rparr>)
      | (Inl EOTHER, k) \<Rightarrow> s\<lparr>kern := k\<rparr>
      | (Inr client_fd, k) \<Rightarrow> accept_connections (accept_one client_fd (s\<lparr>kern := k\<rparr>)))"
  by pat_completeness auto
termination
  by (relation "measure (\<lambda>s. length (backlog (kern s)))")
     (auto dest!: sym [of _ "sys_accept _"] intro: sys_accept_backlog simp: accept_one_backlog)

declare accept_connections.simps [simp del]

subsection \<open>The event loop\<close>

definition put_back :: "nat \<Rightarrow> handled \<Rightarrow> server" where
  "put_back p h = (case h of (r, s) \<Rightarrow> s\<lparr>heap := (heap s)(p := r)\<rparr>)"

text \<open>
  The body of the loop for one event. The result is \<open>None\<close> when the code would use a
  connection object that has been freed: one that the dictionary still names, or one that
  the read handler has freed when the write bit is tested next.
\<close>

definition handle_event :: "int \<times> c_int \<Rightarrow> server \<Rightarrow> server option" where
  "handle_event event s =
     (case event of (current_fd, events) \<Rightarrow>
        if current_fd = listen_fd s then Some (accept_connections s)
        else case dictionary_get (fd_to_client s) (Some current_fd) of
          None \<Rightarrow> Some s
        | Some p \<Rightarrow>
            (case heap s p of
               None \<Rightarrow> None
             | Some c \<Rightarrow>
                 if has_bit events FSS_EVENT_ERROR then Some (put_back p (close_and_cleanup c s))
                 else (let (r, s) = (if has_bit events FSS_EVENT_READ then handle_read_event c s
                                     else (Some c, s))
                       in if has_bit events FSS_EVENT_WRITE
                          then (case r of
                                  None \<Rightarrow> None
                                | Some c \<Rightarrow>
                                    (if c_state c \<noteq> STATE_RECV_HEADER
                                     then Some (put_back p (handle_write_event c s))
                                     else Some (put_back p (Some c, s))))
                          else Some (put_back p (r, s)))))"

fun handle_events :: "(int \<times> c_int) list \<Rightarrow> server \<Rightarrow> server option" where
  "handle_events [] s = Some s"
| "handle_events (e # es) s =
     (case handle_event e s of None \<Rightarrow> None | Some s' \<Rightarrow> handle_events es s')"

text \<open>
  \<open>while (running)\<close> over the outcomes of the successive waits; the flag says that a
  \<open>SIGINT\<close> arrives during the wait. When the script is exhausted the server is waiting.
\<close>

fun event_loop :: "(bool \<times> (errno + (int \<times> c_int) list)) list \<Rightarrow> server \<Rightarrow> server option" where
  "event_loop [] s = Some s"
| "event_loop ((sigint, outcome) # rest) s =
     (if \<not> running s then Some s
      else let s = (if sigint then signal_handler 2 s else s) in
        case event_loop_wait outcome of
          Inl EINTR \<Rightarrow> event_loop rest s
        | Inl EAGAIN \<Rightarrow> Some s
        | Inl EOTHER \<Rightarrow> Some s
        | Inr events \<Rightarrow>
            (case handle_events events s of None \<Rightarrow> None | Some s' \<Rightarrow> event_loop rest s'))"

subsection \<open>Set-up and clean-up\<close>

text \<open>\<open>mkdtemp\<close> gives the name of the new directory, or fails.\<close>

definition build_temp_directory :: "string option \<Rightarrow> server \<Rightarrow> server option" where
  "build_temp_directory mkdtemp s =
     (case mkdtemp of
        None \<Rightarrow> None
      | Some d \<Rightarrow> Some (s\<lparr>temp_dir := Some d, console := console s @ print_temp_directory d\<rparr>))"

text \<open>
  One candidate address of \<open>getaddrinfo\<close>: whether \<open>socket\<close> and whether \<open>bind\<close> succeed on
  it. Then whether \<open>listen\<close> succeeds, and what \<open>fcntl\<close> returns for \<open>F_GETFL\<close> and, given the
  flags to set, for \<open>F_SETFL\<close>.
\<close>

record bind_script =
  candidates :: "(bool \<times> bool) list option"
  listen_ok :: bool
  getfl :: int
  setfl :: "int \<Rightarrow> int"

definition O_NONBLOCK :: int where
  "O_NONBLOCK = 0x800"

definition make_socket_nonblocking :: "bind_script \<Rightarrow> int" where
  "make_socket_nonblocking b =
     (let flags = getfl b in
      if flags = - 1 then - 1
      else if setfl b (flags OR O_NONBLOCK) = - 1 then - 1
      else 0)"

fun bind_loop :: "(bool \<times> bool) list \<Rightarrow> kernel \<Rightarrow> int \<times> kernel" where
  "bind_loop [] k = (- 1, k)"
| "bind_loop ((socket_ok, bind_ok) # current) k =
     (if \<not> socket_ok then bind_loop current k
      else if bind_ok then (fresh_fd (fds k), k\<lparr>fds := (fresh_fd (fds k), OListen) # fds k\<rparr>)
      else bind_loop current k)"

definition create_and_bind_socket :: "bind_script \<Rightarrow> kernel \<Rightarrow> int \<times> kernel" where
  "create_and_bind_socket b k =
     (case candidates b of
        None \<Rightarrow> (- 1, k)
      | Some res \<Rightarrow>
          (let (socket_fd, k) = bind_loop res k in
           if socket_fd = - 1 then (- 1, k)
           else if \<not> listen_ok b then (- 1, sys_close socket_fd k)
           else if make_socket_nonblocking b = - 1 then (- 1, sys_close socket_fd k)
           else (socket_fd, k)))"

text \<open>
  \<open>readdir\<close> lists the names in the directory; all but the two dot entries are unlinked, and
  the directory itself is removed (\<open>rmdir\<close> changes no modelled state). \<open>opendir\<close> may fail:
  \<open>None\<close>.
\<close>

fun unlink_all :: "string \<Rightarrow> string list \<Rightarrow> kernel \<Rightarrow> kernel" where
  "unlink_all d [] k = k"
| "unlink_all d (name # names) k =
     (if name \<noteq> ''.'' \<and> name \<noteq> ''..''
      then unlink_all d names (snd (sys_unlink (fst (snprintf 1024 (d @ ''/'' @ name))) k))
      else unlink_all d names k)"

definition cleanup_temp_directory :: "string list option \<Rightarrow> server \<Rightarrow> server" where
  "cleanup_temp_directory listing s =
     (case temp_dir s of
        None \<Rightarrow> s
      | Some d \<Rightarrow>
          (case listing of
             None \<Rightarrow> s
           | Some names \<Rightarrow> s\<lparr>kern := unlink_all d names (kern s)\<rparr>))"

text \<open>
  At the end the names, the list and the map are freed: none of them is there any more.
  The connection objects that are still open are not freed.
\<close>

definition cleanup :: "string list option \<Rightarrow> server \<Rightarrow> server" where
  "cleanup listing s =
     (let s = cleanup_temp_directory listing s;
          k = (if listen_fd s \<noteq> - 1 then sys_close (listen_fd s) (kern s) else kern s);
          k = (if event_loop_fd s \<noteq> - 1 then sys_close (event_loop_fd s) k else k)
      in s\<lparr>server_files := None, fd_to_client := dictionary_destroy (fd_to_client s), kern := k\<rparr>)"

text \<open>
  What the environment decides during a run of \<open>main\<close>: the results of the set-up calls, the
  waits, and the listing of the directory at the end.
\<close>

record main_script =
  mkdtemp_result :: "string option"
  bind_result :: bind_script
  epoll_create_ok :: bool
  waits :: "(bool \<times> (errno + (int \<times> c_int) list)) list"
  final_listing :: "string list option"

datatype main_end = Exit int server | Crash

definition server_setup :: "main_script \<Rightarrow> server \<Rightarrow> int \<times> server" where
  "server_setup m s =
     (let (files, al) = vector_create False (heap_ok (kern s));
          s = s\<lparr>server_files := files, kern := (kern s)\<lparr>heap_ok := al\<rparr>\<rparr> in
      if files = None then (1, s)
      else let (d, al) = int_to_shallow_dictionary_create (heap_ok (kern s));
               s = s\<lparr>fd_to_client := d, kern := (kern s)\<lparr>heap_ok := al\<rparr>\<rparr> in
      if d = None then (1, s)
      else case build_temp_directory (mkdtemp_result m) s of
        None \<Rightarrow> (1, s)
      | Some s \<Rightarrow>
          (let (lfd, k) = create_and_bind_socket (bind_result m) (kern s);
               s = s\<lparr>listen_fd := lfd, kern := k\<rparr> in
           if lfd < 0 then (1, cleanup (final_listing m) s)
           else let (efd, k) = event_loop_create (epoll_create_ok m) (kern s);
                    s = s\<lparr>event_loop_fd := efd, kern := k\<rparr> in
           if efd < 0 then (1, cleanup (final_listing m) s)
           else (0, add_fd_to_event_loop lfd FSS_EVENT_READ s)))"

definition server_main :: "nat \<Rightarrow> main_script \<Rightarrow> kernel \<Rightarrow> main_end" where
  "server_main argc m k =
     (if argc \<noteq> 2 then Exit 1 (initial_globals k)
      else case server_setup m (initial_globals k) of
        (rc, s) \<Rightarrow>
          (if rc \<noteq> 0 then Exit rc s
           else case event_loop (waits m) s of
             None \<Rightarrow> Crash
           | Some s' \<Rightarrow> Exit 0 (cleanup (final_listing m) s')))"

end
