(* ===== verification/Fss_Server_Inv.thy ===== *)
theory Fss_Server_Inv
  imports Fss_Server_Loop
begin

section \<open>The invariant of the server\<close>

subsection \<open>Connection objects\<close>

definition response_ok :: "client \<Rightarrow> bool" where
  "response_ok c \<longleftrightarrow> c_resp_len c \<le> length (c_resp_buf c) \<and> length (c_resp_buf c) < MAX_HEADER_LEN
                    \<and> c_resp_sent c \<le> c_resp_len c"

definition state_ok :: "client \<Rightarrow> bool" where
  "state_ok c \<longleftrightarrow>
     (case c_state c of
        STATE_RECV_HEADER \<Rightarrow> c_file_fd c = - 1
      | STATE_RECV_PUT_SIZE \<Rightarrow> c_verb c = PUT \<and> c_file_fd c = - 1 \<and> c_bytes_transferred c \<le> size_len
      | STATE_RECV_PUT_DATA \<Rightarrow>
          c_verb c = PUT \<and> c_file_fd c \<noteq> - 1 \<and> c_bytes_transferred c \<le> c_expected_size c
      | STATE_SEND_OK \<Rightarrow> c_verb c \<noteq> V_UNKNOWN \<and> (c_verb c = GET \<longleftrightarrow> c_file_fd c \<noteq> - 1)
                         \<and> (c_verb c = GET \<longrightarrow> c_bytes_transferred c = 0)
      | STATE_SEND_ERROR \<Rightarrow> c_file_fd c = - 1
      | STATE_SEND_GET_SIZE \<Rightarrow> c_verb c = GET \<and> c_file_fd c \<noteq> - 1 \<and> c_bytes_transferred c = 0
      | STATE_SEND_GET_DATA \<Rightarrow>
          c_verb c = GET \<and> c_file_fd c \<noteq> - 1 \<and> c_bytes_transferred c \<le> c_file_size c
      | STATE_SEND_LIST_DATA \<Rightarrow>
          c_verb c = LIST \<and> c_file_fd c = - 1 \<and> map_option length (c_list_buf c) = Some (c_list_len c)
          \<and> c_list_sent c \<le> c_list_len c
      | STATE_DONE \<Rightarrow> False)"

definition name_ok :: "client \<Rightarrow> bool" where
  "name_ok c \<longleftrightarrow> length (c_header_buf c) < MAX_HEADER_LEN \<and> length (c_filename c) < 256
                \<and> NUL \<notin> set (c_filename c)"

definition client_ok :: "client \<Rightarrow> bool" where
  "client_ok c \<longleftrightarrow> name_ok c \<and> response_ok c \<and> state_ok c"

subsection \<open>Descriptors, the connection map and the event queue\<close>

definition sock_open :: "kernel \<Rightarrow> int \<Rightarrow> bool" where
  "sock_open k fd \<longleftrightarrow> (\<exists>n. map_of (fds k) fd = Some (OSock n))"

definition file_open :: "kernel \<Rightarrow> int \<Rightarrow> bool" where
  "file_open k fd \<longleftrightarrow> (\<exists>n. map_of (fds k) fd = Some (OFile n))"

text \<open>What the connection objects hold: the descriptors of the socket and of the file.\<close>

type_synonym holdings = "nat \<Rightarrow> (int \<times> int) option"

definition holds :: "(nat \<Rightarrow> client option) \<Rightarrow> holdings" where
  "holds h p = map_option (\<lambda>c. (c_fd c, c_file_fd c)) (h p)"

text \<open>The descriptors that are held are open, of the right kind, and not shared.\<close>

definition owns :: "kernel \<Rightarrow> holdings \<Rightarrow> bool" where
  "owns k h \<longleftrightarrow>
     (\<forall>p fd f. h p = Some (fd, f) \<longrightarrow> sock_open k fd \<and> (f \<noteq> - 1 \<longrightarrow> file_open k f)) \<and>
     (\<forall>p q fd f gd g. h p = Some (fd, f) \<and> h q = Some (gd, g) \<and> p \<noteq> q \<longrightarrow> fd \<noteq> gd \<and> (f \<noteq> - 1 \<longrightarrow> f \<noteq> g))"

definition queue_ok :: "int \<Rightarrow> int \<Rightarrow> kernel \<Rightarrow> bool" where
  "queue_ok efd lfd k \<longleftrightarrow>
     ep_alive efd k \<and> epoll.single k \<and> map_of (fds k) lfd = Some OListen \<and>
     (\<forall>fd. ep_known k fd \<longrightarrow> sock_open k fd \<or> map_of (fds k) fd = Some OListen)"

definition mapped :: "nat dictionary option \<Rightarrow> holdings \<Rightarrow> kernel \<Rightarrow> bool" where
  "mapped d h k \<longleftrightarrow> dict_ok d \<and>
     (\<forall>fd p. dict_lookup d fd = Some p \<longrightarrow> ep_known k fd \<and> (\<exists>f. h p = Some (fd, f)))"

definition link_ok :: "server \<Rightarrow> bool" where
  "link_ok s \<longleftrightarrow> files_ok s \<and> queue_ok (event_loop_fd s) (listen_fd s) (kern s)
     \<and> owns (kern s) (holds (heap s)) \<and> mapped (fd_to_client s) (holds (heap s)) (kern s)
     \<and> (\<forall>p. next_addr s \<le> p \<longrightarrow> heap s p = None)"

definition server_ok :: "server \<Rightarrow> bool" where
  "server_ok s \<longleftrightarrow> link_ok s \<and> (\<forall>p c. heap s p = Some c \<longrightarrow> client_ok c)"

text \<open>What an operation on the connection \<open>p\<close> with the descriptor \<open>fd\<close> leaves alone.\<close>

definition frame :: "nat \<Rightarrow> int \<Rightarrow> server \<Rightarrow> server \<Rightarrow> bool" where
  "frame p fd s0 s \<longleftrightarrow>
     heap s = heap s0 \<and> next_addr s = next_addr s0 \<and> listen_fd s = listen_fd s0 \<and>
     event_loop_fd s = event_loop_fd s0 \<and> temp_dir s = temp_dir s0 \<and> running s = running s0 \<and>
     console s = console s0 \<and> backlog (kern s) = backlog (kern s0) \<and>
     resolve (kern s) = resolve (kern s0) \<and>
     (\<forall>g. g \<noteq> fd \<longrightarrow> dict_lookup (fd_to_client s) g = dict_lookup (fd_to_client s0) g
                  \<and> ep_watched (kern s) g = ep_watched (kern s0) g) \<and>
     (\<forall>n. map_of (fds (kern s0)) fd \<noteq> Some (OSock n) \<longrightarrow> conns (kern s) n = conns (kern s0) n) \<and>
     (\<forall>q d. q \<noteq> p \<and> heap s0 q = Some d \<longrightarrow>
        map_of (fds (kern s)) (c_fd d) = map_of (fds (kern s0)) (c_fd d) \<and>
        (c_file_fd d \<noteq> - 1 \<longrightarrow>
           map_of (fds (kern s)) (c_file_fd d) = map_of (fds (kern s0)) (c_file_fd d)))"

text \<open>The object \<open>c\<close> of the connection \<open>p\<close> is in the hands of a handler that started in \<open>s0\<close>.\<close>

definition held :: "nat \<Rightarrow> server \<Rightarrow> client \<Rightarrow> server \<Rightarrow> bool" where
  "held p s0 c s \<longleftrightarrow> link_ok (s\<lparr>heap := (heap s)(p \<mapsto> c)\<rparr>)
     \<and> dict_lookup (fd_to_client s) (c_fd c) = Some p \<and> frame p (c_fd c) s0 s
     \<and> map_of (fds (kern s)) (c_fd c) = map_of (fds (kern s0)) (c_fd c)"

definition gone :: "nat \<Rightarrow> int \<Rightarrow> server \<Rightarrow> server \<Rightarrow> bool" where
  "gone p fd s0 s \<longleftrightarrow> link_ok (s\<lparr>heap := (heap s)(p := None)\<rparr>)
     \<and> dict_lookup (fd_to_client s) fd = None \<and> map_of (fds (kern s)) fd = None \<and> frame p fd s0 s"

definition kept :: "nat \<Rightarrow> int \<Rightarrow> server \<Rightarrow> handled \<Rightarrow> bool" where
  "kept p fd s0 h = (case h of (r, s) \<Rightarrow>
     (case r of None \<Rightarrow> gone p fd s0 s | Some c \<Rightarrow> held p s0 c s \<and> c_fd c = fd \<and> client_ok c))"

lemma kept_simps [simp]:
  "kept p fd s0 (None, s) \<longleftrightarrow> gone p fd s0 s"
  "kept p fd s0 (Some c, s) \<longleftrightarrow> held p s0 c s \<and> c_fd c = fd \<and> client_ok c"
  by (simp_all add: kept_def)

subsection \<open>The basic steps of a handler\<close>

lemma holds_upd: "holds (h(p := r)) = (holds h)(p := map_option (\<lambda>c. (c_fd c, c_file_fd c)) r)"
  by (simp add: holds_def fun_eq_iff)

lemma held_client:
  assumes "held p s0 c s" and "c_fd c' = c_fd c" and "c_file_fd c' = c_file_fd c"
  shows "held p s0 c' s"
  using assms by (auto simp: held_def link_ok_def files_ok_def holds_upd)

text \<open>A call that moves bytes on the own connection or works on files, and opens or closes nothing.\<close>

definition quiet :: "int \<Rightarrow> kernel \<Rightarrow> kernel \<Rightarrow> bool" where
  "quiet fd k k' \<longleftrightarrow> fds k' = fds k \<and> interest k' = interest k \<and> backlog k' = backlog k \<and> resolve k' = resolve k
     \<and> (\<forall>n. map_of (fds k) fd \<noteq> Some (OSock n) \<longrightarrow> conns k' n = conns k n)"

lemma quiet_refl [simp]: "quiet fd k k"
  by (simp add: quiet_def)

lemma quiet_trans: "quiet fd k k' \<Longrightarrow> quiet fd k' k'' \<Longrightarrow> quiet fd k k''"
  by (simp add: quiet_def)

lemma quiet_views:
  assumes "quiet fd k k'"
  shows "ep_watched k' = ep_watched k" and "ep_known k' = ep_known k"
    and "ep_alive l k' = ep_alive l k" and "sock_open k' = sock_open k" and "file_open k' = file_open k"
  using assms
  by (auto simp: quiet_def ep_watched_def ep_known_def ep_alive_def sock_open_def file_open_def fun_eq_iff
      split: option.splits)

lemma owns_cong: "sock_open k' = sock_open k \<Longrightarrow> file_open k' = file_open k \<Longrightarrow> owns k' = owns k"
  by (simp add: owns_def fun_eq_iff)

lemma mapped_cong: "ep_known k' = ep_known k \<Longrightarrow> mapped d h k' = mapped d h k"
  by (simp add: mapped_def)

lemma quiet_link:
  assumes "quiet fd k k'"
  shows "queue_ok l m k' = queue_ok l m k" and "owns k' h = owns k h" and "mapped d h k' = mapped d h k"
  using assms quiet_views [OF assms]
  by (simp_all add: queue_ok_def owns_def mapped_def epoll.single_def quiet_def)

lemma held_kernel:
  assumes "held p s0 c s" and "quiet (c_fd c) (kern s) k"
  shows "held p s0 c (s\<lparr>kern := k\<rparr>)"
proof -
  note q = quiet_link [OF assms(2)] quiet_views [OF assms(2)]
  have "fds k = fds (kern s)" using assms(2) by (simp add: quiet_def)
  with assms show ?thesis
    by (auto simp: held_def link_ok_def files_ok_def frame_def q quiet_def)
qed

lemma held_files:
  assumes "held p s0 c s" and "files_ok (s\<lparr>server_files := v\<rparr>)"
  shows "held p s0 c (s\<lparr>server_files := v\<rparr>)"
  using assms by (auto simp: held_def link_ok_def files_ok_def frame_def)


lemma sys_close_maps [simp]:
  "map_of (fds (sys_close fd k)) = (map_of (fds k))(fd := None)"
  "map_of (interest (sys_close fd k)) = (map_of (interest k))(fd := None)"
  "conns (sys_close fd k) = conns k" "backlog (sys_close fd k) = backlog k"
  "resolve (sys_close fd k) = resolve k" "heap_ok (sys_close fd k) = heap_ok k"
  by (simp_all add: sys_close_def map_of_filter_other)

lemma sys_close_watched [simp]:
  "ep_watched (sys_close fd k) = (ep_watched k)(fd := 0)"
  "ep_known (sys_close fd k) g \<longleftrightarrow> g \<noteq> fd \<and> ep_known k g"
  by (auto simp: ep_watched_def ep_known_def fun_eq_iff)

lemma queue_close:
  assumes "queue_ok efd lfd k" and "sock_open k fd \<or> file_open k fd"
  shows "queue_ok efd lfd (sys_close fd k)"
  using assms
  by (auto simp: queue_ok_def ep_alive_def epoll.single_def sock_open_def file_open_def)

lemma ownsI:
  assumes "\<And>p fd f. h p = Some (fd, f) \<Longrightarrow> sock_open k fd \<and> (f \<noteq> - 1 \<longrightarrow> file_open k f)"
    and "\<And>p q fd f gd g. h p = Some (fd, f) \<Longrightarrow> h q = Some (gd, g) \<Longrightarrow> p \<noteq> q \<Longrightarrow>
           fd \<noteq> gd \<and> (f \<noteq> - 1 \<longrightarrow> f \<noteq> g)"
  shows "owns k h"
  using assms unfolding owns_def by blast

lemma ownsD:
  assumes "owns k h" and "h p = Some (fd, f)"
  shows "sock_open k fd" and "f \<noteq> - 1 \<Longrightarrow> file_open k f"
    and "h q = Some (gd, g) \<Longrightarrow> p \<noteq> q \<Longrightarrow> fd \<noteq> gd"
    and "h q = Some (gd, g) \<Longrightarrow> p \<noteq> q \<Longrightarrow> f \<noteq> - 1 \<Longrightarrow> f \<noteq> g"
  using assms unfolding owns_def by blast+

lemma owns_other:
  assumes "owns k (h(p \<mapsto> (fd, f)))" and "q \<noteq> p" and "h q = Some (gd, g)"
  shows "gd \<noteq> fd" and "sock_open k gd" and "g \<noteq> - 1 \<Longrightarrow> file_open k g" and "f \<noteq> - 1 \<Longrightarrow> f \<noteq> g"
proof -
  have q: "(h(p \<mapsto> (fd, f))) q = Some (gd, g)" and p: "(h(p \<mapsto> (fd, f))) p = Some (fd, f)"
    using assms(2,3) by simp_all
  show "gd \<noteq> fd" "sock_open k gd" "g \<noteq> - 1 \<Longrightarrow> file_open k g"
    using ownsD [OF assms(1) q] p assms(2) by blast+
  show "f \<noteq> - 1 \<Longrightarrow> f \<noteq> g" using ownsD(4) [OF assms(1) p q] assms(2) by blast
qed

text \<open>Other connections' descriptors stay; the own entry is dropped, or its file changes.\<close>

lemma owns_change:
  assumes "owns k (h(p \<mapsto> (fd, f)))"
    and same: "\<And>q gd g. q \<noteq> p \<Longrightarrow> h q = Some (gd, g) \<Longrightarrow>
           map_of (fds k') gd = map_of (fds k) gd \<and> (g \<noteq> - 1 \<longrightarrow> map_of (fds k') g = map_of (fds k) g)"
    and own: "\<And>gd f'. r = Some (gd, f') \<Longrightarrow> gd = fd \<and> sock_open k' fd \<and> (f' \<noteq> - 1 \<longrightarrow> file_open k' f')"
    and new: "\<And>gd f' q qd g. r = Some (gd, f') \<Longrightarrow> f' \<noteq> - 1 \<Longrightarrow> q \<noteq> p \<Longrightarrow> h q = Some (qd, g) \<Longrightarrow> g \<noteq> f'"
  shows "owns k' (h(p := r))"
proof (rule ownsI)
  note oth = owns_other [OF assms(1)]
  fix q gd g assume q: "(h(p := r)) q = Some (gd, g)"
  show "sock_open k' gd \<and> (g \<noteq> - 1 \<longrightarrow> file_open k' g)"
  proof (cases "q = p")
    case True
    with q own show ?thesis by simp
  next
    case False
    with q have "h q = Some (gd, g)" by simp
    with oth(2,3) [OF False this] same [OF False this] show ?thesis
      by (simp add: sock_open_def file_open_def)
  qed
next
  note oth = owns_other [OF assms(1)]
  fix q q' gd g gd' g'
  assume q: "(h(p := r)) q = Some (gd, g)" and q': "(h(p := r)) q' = Some (gd', g')" and ne: "q \<noteq> q'"
  consider "q = p" | "q' = p" | "q \<noteq> p" "q' \<noteq> p" by blast
  then show "gd \<noteq> gd' \<and> (g \<noteq> - 1 \<longrightarrow> g \<noteq> g')"
  proof cases
    case 1
    with q q' ne have "r = Some (gd, g)" "h q' = Some (gd', g')" "q' \<noteq> p" by auto
    with own new oth(1) show ?thesis by metis
  next
    case 2
    with q q' ne have "r = Some (gd', g')" "h q = Some (gd, g)" "q \<noteq> p" by auto
    with own new oth(1) show ?thesis by metis
  next
    case 3
    then have "(h(p \<mapsto> (fd, f))) q = Some (gd, g)" "(h(p \<mapsto> (fd, f))) q' = Some (gd', g')"
      using q q' by simp_all
    with ownsD(3,4) [OF assms(1)] ne show ?thesis by blast
  qed
qed

lemma owns_own:
  assumes "owns k (h(p \<mapsto> (fd, f)))"
  shows "sock_open k fd" and "f \<noteq> - 1 \<Longrightarrow> file_open k f"
  using ownsD(1,2) [OF assms, of p fd f] by simp_all

lemma sock_not_file: "sock_open k g \<Longrightarrow> file_open k f \<Longrightarrow> g \<noteq> f"
  by (auto simp: sock_open_def file_open_def)


lemma holds_Some: "holds h q = Some (gd, g) \<longleftrightarrow> (\<exists>d. h q = Some d \<and> c_fd d = gd \<and> c_file_fd d = g)"
  by (auto simp: holds_def)

lemma heldD:
  assumes "held p s0 c s"
  shows "files_ok s" and "queue_ok (event_loop_fd s) (listen_fd s) (kern s)"
    and "owns (kern s) ((holds (heap s))(p \<mapsto> (c_fd c, c_file_fd c)))"
    and "mapped (fd_to_client s) ((holds (heap s))(p \<mapsto> (c_fd c, c_file_fd c))) (kern s)"
    and "\<forall>q. next_addr s \<le> q \<longrightarrow> heap s q = None" and "p < next_addr s"
    and "dict_lookup (fd_to_client s) (c_fd c) = Some p" and "frame p (c_fd c) s0 s"
    and "map_of (fds (kern s)) (c_fd c) = map_of (fds (kern s0)) (c_fd c)"
  using assms by (auto simp: held_def link_ok_def holds_upd files_ok_def split: if_splits)

lemma heldI:
  assumes "files_ok s" and "queue_ok (event_loop_fd s) (listen_fd s) (kern s)"
    and "owns (kern s) ((holds (heap s))(p \<mapsto> (c_fd c, c_file_fd c)))"
    and "mapped (fd_to_client s) ((holds (heap s))(p \<mapsto> (c_fd c, c_file_fd c))) (kern s)"
    and "\<forall>q. next_addr s \<le> q \<longrightarrow> heap s q = None" and "p < next_addr s"
    and "dict_lookup (fd_to_client s) (c_fd c) = Some p" and "frame p (c_fd c) s0 s"
    and "map_of (fds (kern s)) (c_fd c) = map_of (fds (kern s0)) (c_fd c)"
  shows "held p s0 c s"
  using assms by (auto simp: held_def link_ok_def holds_upd files_ok_def)

lemma held_others:
  assumes "held p s0 c s" and "q \<noteq> p" and "heap s q = Some d"
  shows "c_fd d \<noteq> c_fd c" and "sock_open (kern s) (c_fd d)"
    and "c_file_fd d \<noteq> - 1 \<Longrightarrow> file_open (kern s) (c_file_fd d)"
    and "c_file_fd c \<noteq> - 1 \<Longrightarrow> c_file_fd c \<noteq> c_file_fd d"
  using owns_other [OF heldD(3) [OF assms(1)] assms(2)] assms(3) by (auto simp: holds_Some)

lemma frame_kernel:
  assumes "frame p fd s0 s" and "backlog k = backlog (kern s)" and "resolve k = resolve (kern s)"
    and "\<And>g. g \<noteq> fd \<Longrightarrow> ep_watched k g = ep_watched (kern s) g" and "conns k = conns (kern s)"
    and "\<And>q gd g. q \<noteq> p \<Longrightarrow> holds (heap s) q = Some (gd, g) \<Longrightarrow>
           map_of (fds k) gd = map_of (fds (kern s)) gd \<and> (g \<noteq> - 1 \<longrightarrow> map_of (fds k) g = map_of (fds (kern s)) g)"
  shows "frame p fd s0 (s\<lparr>kern := k\<rparr>)"
proof -
  have "map_of (fds k) (c_fd d) = map_of (fds (kern s)) (c_fd d) \<and>
        (c_file_fd d \<noteq> - 1 \<longrightarrow> map_of (fds k) (c_file_fd d) = map_of (fds (kern s)) (c_file_fd d))"
    if "q \<noteq> p" and "heap s q = Some d" for q d
    using assms(6) [of q "c_fd d" "c_file_fd d"] that by (simp add: holds_def)
  with assms(1-5) show ?thesis unfolding frame_def by (simp, blast?)
qed

text \<open>Opening a file.\<close>

definition opens :: "int \<Rightarrow> kernel \<Rightarrow> kernel \<Rightarrow> bool" where
  "opens f k k' \<longleftrightarrow> f \<noteq> - 1 \<and> map_of (fds k) f = None \<and> (\<exists>i. fds k' = (f, OFile i) # fds k)
     \<and> interest k' = interest k \<and> backlog k' = backlog k \<and> resolve k' = resolve k \<and> conns k' = conns k"

lemma held_open:
  assumes h: "held p s0 c s" and f: "opens f (kern s) k" and "c_file_fd c = - 1"
  shows "held p s0 (c\<lparr>c_file_fd := f\<rparr>) (s\<lparr>kern := k\<rparr>)"
proof (rule heldI)
  note d = heldD [OF h]
  have new: "map_of (fds (kern s)) f = None" and fd: "\<And>g. g \<noteq> f \<Longrightarrow> map_of (fds k) g = map_of (fds (kern s)) g"
    and fop: "file_open k f" and i: "interest k = interest (kern s)"
    using f by (auto simp: opens_def file_open_def)
  have so: "sock_open (kern s) (c_fd c)" using owns_own(1) [OF d(3)] .
  then have ne: "c_fd c \<noteq> f" using new by (auto simp: sock_open_def)
  have w: "ep_watched k = ep_watched (kern s)" "ep_known k = ep_known (kern s)"
    using i by (simp_all add: ep_watched_def ep_known_def fun_eq_iff)
  show "files_ok (s\<lparr>kern := k\<rparr>)" using d(1) by (simp add: files_ok_def)
  show "queue_ok (event_loop_fd (s\<lparr>kern := k\<rparr>)) (listen_fd (s\<lparr>kern := k\<rparr>)) (kern (s\<lparr>kern := k\<rparr>))"
    using d(2) new fd w by (auto simp: queue_ok_def ep_alive_def epoll.single_def sock_open_def) (metis fd option.distinct(1))+
  have same: "map_of (fds k) gd = map_of (fds (kern s)) gd \<and> (g \<noteq> - 1 \<longrightarrow> map_of (fds k) g = map_of (fds (kern s)) g)"
    and other: "g \<noteq> - 1 \<Longrightarrow> g \<noteq> f" if "q \<noteq> p" "holds (heap s) q = Some (gd, g)" for q gd g
    using owns_other(2,3) [OF d(3) that] fd new by (auto simp: sock_open_def file_open_def) (metis fd option.distinct(1))+
  have "owns k ((holds (heap s))(p := Some (c_fd c, f)))"
  proof (rule owns_change [OF d(3) same])
    fix gd f' q qd g
    assume "Some (c_fd c, f) = Some (gd, f')" and n: "f' \<noteq> - 1" "q \<noteq> p" "holds (heap s) q = Some (qd, g)"
    then show "g \<noteq> f'" using other [OF n(2,3)] by auto
  qed (use so ne fd fop in \<open>auto simp: sock_open_def\<close>)
  then show "owns (kern (s\<lparr>kern := k\<rparr>)) ((holds (heap (s\<lparr>kern := k\<rparr>)))(p \<mapsto> (c_fd (c\<lparr>c_file_fd := f\<rparr>), c_file_fd (c\<lparr>c_file_fd := f\<rparr>))))"
    by simp
  show "mapped (fd_to_client (s\<lparr>kern := k\<rparr>)) ((holds (heap (s\<lparr>kern := k\<rparr>)))(p \<mapsto> (c_fd (c\<lparr>c_file_fd := f\<rparr>), c_file_fd (c\<lparr>c_file_fd := f\<rparr>)))) (kern (s\<lparr>kern := k\<rparr>))"
    using d(4) w by (auto simp: mapped_def split: if_splits)
  show "frame p (c_fd (c\<lparr>c_file_fd := f\<rparr>)) s0 (s\<lparr>kern := k\<rparr>)"
    using frame_kernel [OF d(8) _ _ _ _ same] f w by (simp add: opens_def)
  show "map_of (fds (kern (s\<lparr>kern := k\<rparr>))) (c_fd (c\<lparr>c_file_fd := f\<rparr>)) = map_of (fds (kern s0)) (c_fd (c\<lparr>c_file_fd := f\<rparr>))"
    using d(9) ne fd by simp
qed (use heldD [OF h] in auto)


text \<open>Closing the file.\<close>

lemma held_close_file:
  assumes h: "held p s0 c s" and f: "c_file_fd c \<noteq> - 1"
  shows "held p s0 (c\<lparr>c_file_fd := - 1\<rparr>) (s\<lparr>kern := sys_close (c_file_fd c) (kern s)\<rparr>)"
proof (rule heldI)
  note d = heldD [OF h]
  let ?k = "sys_close (c_file_fd c) (kern s)" and ?f = "c_file_fd c"
  have so: "sock_open (kern s) (c_fd c)" and fo: "file_open (kern s) ?f"
    using owns_own [OF d(3)] f by simp_all
  note ne = sock_not_file [OF so fo]
  show "files_ok (s\<lparr>kern := ?k\<rparr>)" using d(1) by (simp add: files_ok_def)
  show "queue_ok (event_loop_fd (s\<lparr>kern := ?k\<rparr>)) (listen_fd (s\<lparr>kern := ?k\<rparr>)) (kern (s\<lparr>kern := ?k\<rparr>))"
    using queue_close [OF d(2)] fo by simp
  have same: "map_of (fds ?k) gd = map_of (fds (kern s)) gd \<and> (g \<noteq> - 1 \<longrightarrow> map_of (fds ?k) g = map_of (fds (kern s)) g)"
    if "q \<noteq> p" "holds (heap s) q = Some (gd, g)" for q gd g
    using owns_other(2,4) [OF d(3) that] f sock_not_file [OF _ fo, of gd] by auto
  have "owns ?k ((holds (heap s))(p := Some (c_fd c, - 1)))"
    by (rule owns_change [OF d(3) same]) (use so ne in \<open>auto simp: sock_open_def\<close>)
  then show "owns (kern (s\<lparr>kern := ?k\<rparr>)) ((holds (heap (s\<lparr>kern := ?k\<rparr>)))(p \<mapsto> (c_fd (c\<lparr>c_file_fd := - 1\<rparr>), c_file_fd (c\<lparr>c_file_fd := - 1\<rparr>))))"
    by simp
  have unw: "\<not> ep_known (kern s) ?f" using d(2) fo by (auto simp: queue_ok_def sock_open_def file_open_def)
  show "mapped (fd_to_client (s\<lparr>kern := ?k\<rparr>)) ((holds (heap (s\<lparr>kern := ?k\<rparr>)))(p \<mapsto> (c_fd (c\<lparr>c_file_fd := - 1\<rparr>), c_file_fd (c\<lparr>c_file_fd := - 1\<rparr>)))) (kern (s\<lparr>kern := ?k\<rparr>))"
    using d(4) unw by (auto simp: mapped_def split: if_splits)
  show "frame p (c_fd (c\<lparr>c_file_fd := - 1\<rparr>)) s0 (s\<lparr>kern := ?k\<rparr>)"
    using frame_kernel [OF d(8) _ _ _ _ same] epoll.unknown [OF unw] by simp
  show "map_of (fds (kern (s\<lparr>kern := ?k\<rparr>))) (c_fd (c\<lparr>c_file_fd := - 1\<rparr>)) = map_of (fds (kern s0)) (c_fd (c\<lparr>c_file_fd := - 1\<rparr>))"
    using d(9) ne by simp
qed (use heldD [OF h] in auto)


text \<open>Asking the event queue for another direction.\<close>

lemma held_known:
  assumes "held p s0 c s"
  shows "ep_known (kern s) (c_fd c)" and "ep_alive (event_loop_fd s) (kern s)"
  using heldD(2,4,7) [OF assms] by (auto simp: mapped_def queue_ok_def)

lemma modify_kernel:
  assumes "event_loop_modify l fd ev k = (r, k')"
  shows "fds k' = fds k \<and> conns k' = conns k \<and> backlog k' = backlog k \<and> resolve k' = resolve k
         \<and> dents k' = dents k \<and> inodes k' = inodes k \<and> next_ino k' = next_ino k \<and> disk k' = disk k
         \<and> heap_ok k' = heap_ok k \<and> ep_known k' = ep_known k"
proof -
  have "k' = snd (event_loop_modify l fd ev k)" using assms by simp
  then show ?thesis
    by (simp add: event_loop_modify_def epoll_ctl_def ep_known_def map_of_filter_other Let_def fun_eq_iff)
qed

lemma held_modify:
  assumes h: "held p s0 c s" and ev: "one_way ev"
  shows "held p s0 c (modify_event_loop (c_fd c) ev s)"
proof -
  note d = heldD [OF h]
  obtain r k where m: "event_loop_modify (event_loop_fd s) (c_fd c) ev (kern s) = (r, k)" by fastforce
  note f = modify_kernel [OF m]
  note kn = held_known [OF h]
  have w: "ep_watched k = (ep_watched (kern s))(c_fd c := ev)"
    using epoll.modify_watched [OF kn(2,1) ev] m by simp
  have sg: "epoll.single k"
    using epoll.single_modify [OF kn(2) _ kn(1) ev] m d(2) by (simp add: queue_ok_def)
  have so: "sock_open k = sock_open (kern s)" "file_open k = file_open (kern s)"
    using f by (simp_all add: sock_open_def file_open_def fun_eq_iff)
  have "held p s0 c (s\<lparr>kern := k\<rparr>)"
  proof (rule heldI)
    show "queue_ok (event_loop_fd (s\<lparr>kern := k\<rparr>)) (listen_fd (s\<lparr>kern := k\<rparr>)) (kern (s\<lparr>kern := k\<rparr>))"
      using d(2) f sg so by (simp add: queue_ok_def ep_alive_def)
    show "owns (kern (s\<lparr>kern := k\<rparr>)) ((holds (heap (s\<lparr>kern := k\<rparr>)))(p \<mapsto> (c_fd c, c_file_fd c)))"
      using d(3) by (simp add: owns_cong [OF so])
    show "mapped (fd_to_client (s\<lparr>kern := k\<rparr>)) ((holds (heap (s\<lparr>kern := k\<rparr>)))(p \<mapsto> (c_fd c, c_file_fd c))) (kern (s\<lparr>kern := k\<rparr>))"
      using d(4) mapped_cong [of k "kern s"] f by simp
    show "frame p (c_fd c) s0 (s\<lparr>kern := k\<rparr>)"
      using frame_kernel [OF d(8), of k] f w by simp
  qed (use d(1,5,6,7,9) f in \<open>simp_all add: files_ok_def\<close>)
  then show ?thesis using m by (simp add: modify_event_loop_def)
qed

text \<open>Closing the connection.\<close>

lemma unlink_quiet:
  assumes "sys_unlink path k = (r, k')"
  shows "quiet fd k k'"
  using assms
  by (auto simp: sys_unlink_def next_disk_def quiet_def Let_def split: list.splits if_splits option.splits node.splits prod.splits)

lemma remove_kernel:
  assumes "event_loop_remove l fd k = (r, k')"
  shows "fds k' = fds k \<and> conns k' = conns k \<and> backlog k' = backlog k \<and> resolve k' = resolve k
         \<and> dents k' = dents k \<and> inodes k' = inodes k \<and> disk k' = disk k \<and> heap_ok k' = heap_ok k
         \<and> next_ino k' = next_ino k"
    and "g \<noteq> fd \<Longrightarrow> ep_watched k' g = ep_watched k g \<and> ep_known k' g = ep_known k g"
proof -
  have e: "k' = snd (event_loop_remove l fd k)" using assms by simp
  then show "fds k' = fds k \<and> conns k' = conns k \<and> backlog k' = backlog k \<and> resolve k' = resolve k
         \<and> dents k' = dents k \<and> inodes k' = inodes k \<and> disk k' = disk k \<and> heap_ok k' = heap_ok k
         \<and> next_ino k' = next_ino k"
    by (simp add: event_loop_remove_def epoll_ctl_def Let_def)
  show "ep_watched k' g = ep_watched k g \<and> ep_known k' g = ep_known k g" if "g \<noteq> fd"
    using e that
    by (simp add: event_loop_remove_def epoll_ctl_def ep_known_def ep_watched_def map_of_filter_other Let_def)
qed

lemma held_cleanup:
  assumes h: "held p s0 c s" and c': "c_fd c' = c_fd c" "c_file_fd c' = c_file_fd c"
  obtains s' where "close_and_cleanup c' s = (None, s')" and "gone p (c_fd c) s0 s'"
proof -
  note d = heldD [OF h]
  let ?fd = "c_fd c" and ?f = "c_file_fd c"
  obtain r1 k1 where rm: "event_loop_remove (event_loop_fd s) ?fd (kern s) = (r1, k1)" by fastforce
  define k2 where "k2 = sys_close ?fd k1"
  define k3 where "k3 = (if c_verb c' = PUT \<and> c_state c' \<noteq> STATE_DONE
                         then snd (sys_unlink (filepath s (c_filename c')) k2) else k2)"
  define k4 where "k4 = client_destroy c' k3"
  define s' where "s' = s\<lparr>fd_to_client := dict_del (fd_to_client s) ?fd, kern := k4\<rparr>"
  have eq: "close_and_cleanup c' s = (None, s')"
    by (simp add: close_and_cleanup_def rm c' k2_def k3_def k4_def s'_def dict_del_def Let_def)
  note k1 = remove_kernel(1) [OF rm] and k1w = remove_kernel(2) [OF rm]
  have q3: "quiet ?fd k2 k3" by (simp add: k3_def) (metis prod.collapse unlink_quiet)
  have so: "sock_open (kern s) ?fd" and fo: "?f \<noteq> - 1 \<Longrightarrow> file_open (kern s) ?f"
    using owns_own [OF d(3)] by simp_all
  have fd4: "map_of (fds k4) g = (if g = ?fd \<or> ?f \<noteq> - 1 \<and> g = ?f then None else map_of (fds (kern s)) g)" for g
    using q3 k1 c' by (auto simp: k4_def client_destroy_def quiet_def k2_def)
  have kn4: "ep_known k4 g \<longleftrightarrow> g \<noteq> ?fd \<and> ep_known (kern s) g"
    and w4: "g \<noteq> ?fd \<Longrightarrow> ep_watched k4 g = ep_watched (kern s) g" for g
  proof -
    have unk: "\<not> ep_known (kern s) ?f" if "?f \<noteq> - 1"
      using d(2) fo [OF that] by (auto simp: queue_ok_def sock_open_def file_open_def)
    show "ep_known k4 g \<longleftrightarrow> g \<noteq> ?fd \<and> ep_known (kern s) g"
      using quiet_views(2) [OF q3] k1w c' unk by (cases "g = ?fd") (auto simp: k4_def client_destroy_def k2_def)
    show "ep_watched k4 g = ep_watched (kern s) g" if "g \<noteq> ?fd"
      using quiet_views(1) [OF q3] k1w [OF that] c' that epoll.unknown [OF unk]
      by (auto simp: k4_def client_destroy_def k2_def)
  qed
  have oth: "conns k4 n = conns (kern s) n" if "map_of (fds (kern s0)) ?fd \<noteq> Some (OSock n)" for n
    using q3 k1 by (auto simp: k4_def client_destroy_def quiet_def k2_def)
  have misc: "backlog k4 = backlog (kern s)" "resolve k4 = resolve (kern s)"
    using q3 k1 by (auto simp: k4_def client_destroy_def quiet_def k2_def)
  have same: "map_of (fds k4) gd = map_of (fds (kern s)) gd \<and> (g \<noteq> - 1 \<longrightarrow> map_of (fds k4) g = map_of (fds (kern s)) g)"
    if "q \<noteq> p" "holds (heap s) q = Some (gd, g)" for q gd g
    using owns_other [OF d(3) that] so fo sock_not_file [of "kern s"] unfolding fd4 by metis
  have ow: "owns k4 ((holds (heap s))(p := None))"
    by (rule owns_change [OF d(3) same]) simp_all
  have typed: "map_of (fds (kern s)) x \<noteq> Some OLoop \<and> map_of (fds (kern s)) x \<noteq> Some OListen"
    if "x = ?fd \<or> ?f \<noteq> - 1 \<and> x = ?f" for x
    using so fo that by (auto simp: sock_open_def file_open_def)
  have qk: "queue_ok (event_loop_fd s) (listen_fd s) k4"
  proof -
    have "ep_alive (event_loop_fd s) k4" "map_of (fds k4) (listen_fd s) = Some OListen"
      using d(2) typed unfolding queue_ok_def ep_alive_def fd4 by auto
    moreover have "epoll.single k4"
      using d(2) kn4 w4 epoll.unknown unfolding queue_ok_def epoll.single_def by metis
    moreover have "sock_open k4 g \<or> map_of (fds k4) g = Some OListen" if "ep_known k4 g" for g
      using that d(2) kn4 fo unfolding queue_ok_def sock_open_def file_open_def fd4 by auto
    ultimately show ?thesis by (simp add: queue_ok_def)
  qed
  have dok: "dict_ok (fd_to_client s)" using d(4) by (simp add: mapped_def)
  note dl = dict.del_lookup [OF dok, of ?fd] and dg = dict.del_good [OF dok, of ?fd]
  have mp: "mapped (dict_del (fd_to_client s) ?fd) ((holds (heap s))(p := None)) k4"
    unfolding mapped_def
  proof (intro conjI allI impI dg)
    fix fd q assume "dict_lookup (dict_del (fd_to_client s) ?fd) fd = Some q"
    then have l: "dict_lookup (fd_to_client s) fd = Some q" "fd \<noteq> ?fd" using dl by (auto split: if_splits)
    then obtain g where "ep_known (kern s) fd" "((holds (heap s))(p \<mapsto> (?fd, ?f))) q = Some (fd, g)"
      using d(4) unfolding mapped_def by metis
    with l(2) show "ep_known k4 fd" "\<exists>f. ((holds (heap s))(p := None)) q = Some (fd, f)"
      by (auto simp: kn4 split: if_splits)
  qed
  have "gone p ?fd s0 s'"
    unfolding gone_def
  proof (intro conjI)
    show "link_ok (s'\<lparr>heap := (heap s')(p := None)\<rparr>)"
      using d(1,5) qk ow mp by (simp add: link_ok_def s'_def holds_upd files_ok_def)
    show "dict_lookup (fd_to_client s') ?fd = None" by (simp add: s'_def dl)
    show "map_of (fds (kern s')) ?fd = None" by (simp add: s'_def fd4)
    have "frame p ?fd s0 (s\<lparr>kern := k4\<lparr>conns := conns (kern s)\<rparr>\<rparr>)"
      using frame_kernel [OF d(8), of "k4\<lparr>conns := conns (kern s)\<rparr>"] misc w4 same
      by (simp add: ep_watched_def)
    then show "frame p ?fd s0 s'" using oth dl by (auto simp: frame_def s'_def ep_watched_def)
  qed
  with eq that show thesis by blast
qed

end
