(* ===== verification/Fss_Server_Safety.thy ===== *)
theory Fss_Server_Safety
  imports Fss_Server_Inv
begin

section \<open>Every handler keeps the invariant\<close>

subsection \<open>The calls are quiet\<close>

lemma read_cases:
  fixes r :: "errno + 'a list"
  obtains "r = Inl EINTR" | "r = Inl EAGAIN" | "r = Inl EOTHER" | "r = Inr []" | x xs where "r = Inr (x # xs)"
proof (cases r)
  case (Inl e)
  then show thesis using that(1-3) by (cases e) simp_all
next
  case (Inr bs)
  then show thesis using that(4,5) by (cases bs) simp_all
qed

lemma read_quiet: "sys_read fd n k = (r, k') \<Longrightarrow> quiet fd k k'"
  by (auto simp: sys_read_def quiet_def split: option.splits fobj.splits prod.splits)

lemma write_quiet: "sys_write fd bs k = (r, k') \<Longrightarrow> quiet fd k k'"
  by (auto simp: sys_write_def quiet_def split: option.splits fobj.splits prod.splits)

lemma pwrite_quiet: "sys_pwrite f bs off k = (r, k') \<Longrightarrow> quiet fd k k'"
  by (auto simp: sys_pwrite_def next_disk_def quiet_def Let_def
      split: list.splits option.splits fobj.splits node.splits disk_ev.splits prod.splits)

lemma pread_quiet: "sys_pread f n off k = (r, k') \<Longrightarrow> quiet fd k k'"
  by (auto simp: sys_pread_def next_disk_def quiet_def Let_def
      split: list.splits option.splits fobj.splits node.splits disk_ev.splits prod.splits)

lemma fstat_quiet: "sys_fstat f k = (r, k') \<Longrightarrow> quiet fd k k'"
  by (auto simp: sys_fstat_def next_disk_def quiet_def Let_def
      split: list.splits option.splits fobj.splits if_splits prod.splits)

lemma heap_ok_quiet: "quiet fd k (k\<lparr>heap_ok := al\<rparr>)"
  by (simp add: quiet_def)

lemma open_file_opens:
  assumes "open_file i k = (f, k')"
  shows "opens f k k'"
  using assms fresh_fd_unmapped [of "fds k"] fresh_fd_ne_minus_one [of "fds k"]
  by (auto simp: open_file_def opens_def)

lemma open_rdonly_cases:
  assumes "sys_open_rdonly path k = (f, k')"
  shows "f = - 1 \<and> quiet fd k k' \<or> opens f k k'"
proof -
  obtain d k1 where nd: "next_disk k = (d, k1)" by fastforce
  then have same: "fds k1 = fds k \<and> interest k1 = interest k \<and> backlog k1 = backlog k \<and> resolve k1 = resolve k
      \<and> conns k1 = conns k"
    by (auto simp: next_disk_def split: list.splits)
  with assms nd show ?thesis
    using open_file_opens [of _ k1 f k']
    by (auto simp: sys_open_rdonly_def quiet_def opens_def split: if_splits option.splits)
qed

lemma open_create_cases:
  assumes "sys_open_create path k = (f, k')"
  shows "f = - 1 \<and> quiet fd k k' \<or> opens f k k'"
proof -
  obtain d k1 where nd: "next_disk k = (d, k1)" by fastforce
  then have same: "fds k1 = fds k \<and> interest k1 = interest k \<and> backlog k1 = backlog k \<and> resolve k1 = resolve k
      \<and> conns k1 = conns k"
    by (auto simp: next_disk_def split: list.splits)
  have op: "opens f k k'" if "open_file i (k1\<lparr>dents := x, inodes := y, next_ino := z\<rparr>) = (f, k')" for i x y z
    using open_file_opens [OF that] same by (simp add: opens_def)
  have op2: "opens f k k'" if "open_file i (k1\<lparr>inodes := y\<rparr>) = (f, k')" for i y
    using open_file_opens [OF that] same by (simp add: opens_def)
  from assms nd op op2 same show ?thesis
    by (auto simp: sys_open_create_def quiet_def split: if_splits option.splits node.splits)
qed

subsection \<open>The contract of a handler\<close>

text \<open>
  Whatever a handler does to the connection it was given, it hands back an object that
  satisfies the invariant, or has closed the connection and removed it from the map; the
  other connections are as they were.
\<close>

locale conn_handler =
  fixes run :: "client \<Rightarrow> server \<Rightarrow> handled"
    and pre :: "client \<Rightarrow> bool"
  assumes keeps: "held p s0 c s \<Longrightarrow> pre c \<Longrightarrow> kept p (c_fd c) s0 (run c s)"
begin

lemma put_back_link:
  assumes "held p s0 c s" and "pre c"
  shows "link_ok (put_back p (run c s))"
proof -
  obtain r s' where r: "run c s = (r, s')" by fastforce
  with keeps [OF assms] show ?thesis
    by (cases r) (auto simp: put_back_def held_def gone_def)
qed

lemma others_kept:
  assumes "held p s0 c s" and "pre c" and "q \<noteq> p"
  shows "heap (put_back p (run c s)) q = heap s0 q"
proof -
  obtain r s' where r: "run c s = (r, s')" by fastforce
  with keeps [OF assms(1,2)] assms(3) show ?thesis
    by (cases r) (auto simp: put_back_def held_def gone_def frame_def)
qed

lemma put_back_ok:
  assumes "held p s0 c s" and "pre c" and "server_ok s0"
  shows "server_ok (put_back p (run c s))"
proof -
  obtain r s' where r: "run c s = (r, s')" by fastforce
  have "client_ok d" if "heap (put_back p (run c s)) q = Some d" for q d
  proof (cases "q = p")
    case True
    with keeps [OF assms(1,2)] r that show ?thesis by (cases r) (auto simp: put_back_def)
  next
    case False
    with others_kept [OF assms(1,2) False] that assms(3) show ?thesis by (simp add: server_ok_def)
  qed
  with put_back_link [OF assms(1,2)] show ?thesis by (simp add: server_ok_def)
qed

lemma own_map:
  assumes "held p s0 c s" and "pre c"
  shows "dict_lookup (fd_to_client (put_back p (run c s))) (c_fd c) =
         (if fst (run c s) = None then None else Some p)"
proof -
  obtain r s' where r: "run c s = (r, s')" by fastforce
  with keeps [OF assms] show ?thesis
    by (cases r) (auto simp: put_back_def held_def gone_def)
qed

lemma frame_kept:
  assumes "held p s0 c s" and "pre c"
  shows "frame p (c_fd c) s0 (snd (run c s))"
proof -
  obtain r s' where r: "run c s = (r, s')" by fastforce
  with keeps [OF assms] show ?thesis by (cases r) (auto simp: held_def gone_def)
qed

end

subsection \<open>Responses\<close>

lemma kept_cleanup:
  assumes "held p s0 c s" and "c_fd c' = c_fd c" and "c_file_fd c' = c_file_fd c" and "c_fd c = fd"
  shows "kept p fd s0 (close_and_cleanup c' s)"
  using held_cleanup [OF assms(1-3)] assms(4) by (metis kept_simps(1))

lemma prepare_fields [simp]:
  "c_fd (prepare_response st msg c) = c_fd c" "c_file_fd (prepare_response st msg c) = c_file_fd c"
  "c_verb (prepare_response st msg c) = c_verb c"
  "c_state (prepare_response st msg c) = (if st = ''OK'' then STATE_SEND_OK else STATE_SEND_ERROR)"
  "c_header_buf (prepare_response st msg c) = c_header_buf c"
  "c_filename (prepare_response st msg c) = c_filename c"
  "c_bytes_transferred (prepare_response st msg c) = c_bytes_transferred c"
  by (simp_all add: prepare_response_def Let_def)

lemma prepare_response_ok: "response_ok (prepare_response st msg c)"
  by (auto simp: prepare_response_def response_ok_def snprintf_def MAX_HEADER_LEN_def Let_def)

lemma prepare_ok:
  assumes "name_ok c"
    and "st = ''OK'' \<Longrightarrow> c_verb c \<noteq> V_UNKNOWN \<and> (c_verb c = GET \<longleftrightarrow> c_file_fd c \<noteq> - 1)
                       \<and> (c_verb c = GET \<longrightarrow> c_bytes_transferred c = 0)"
    and "st \<noteq> ''OK'' \<Longrightarrow> c_file_fd c = - 1"
  shows "client_ok (prepare_response st msg c)"
  using assms prepare_response_ok by (auto simp: client_ok_def name_ok_def state_ok_def)

lemma response_rest_length: "response_ok c \<Longrightarrow> length (response_rest c) = c_resp_len c - c_resp_sent c"
  by (auto simp: response_ok_def response_rest_def)

lemma build_list_ok:
  assumes "files_ok s" and "build_list_buffer s = (Some (buf, len), s')"
  shows "length buf = len"
  using build_list_buffer_spec(1) [OF assms] by auto

lemma response_keeps:
  "held p s0 c s \<Longrightarrow> client_ok c \<Longrightarrow> c_state c = STATE_SEND_OK \<or> c_state c = STATE_SEND_ERROR \<Longrightarrow>
     kept p (c_fd c) s0 (execute_simple_response_write c s)"
  "held p s0 c' s' \<Longrightarrow> client_ok c' \<Longrightarrow> c_state c' = STATE_SEND_OK \<Longrightarrow> c_verb c' = LIST \<Longrightarrow>
     kept p (c_fd c') s0 (start_send_list c' s')"
  "held p s0 c'' s'' \<Longrightarrow> client_ok (prepare_response st msg c'') \<Longrightarrow>
     kept p (c_fd c'') s0 (prepare_and_send_response c'' s'' st msg)"
proof (induction c s and c' s' and c'' s'' st msg
       rule: execute_simple_response_write_start_send_list_prepare_and_send_response.induct)
  case (1 c s)
  note unf = execute_simple_response_write.simps [of c s]
  obtain r k where w: "sys_write (c_fd c) (response_rest c) (kern s) = (r, k)" by fastforce
  have h: "held p s0 c (s\<lparr>kern := k\<rparr>)" using held_kernel [OF 1(2) write_quiet [OF w]] .
  show ?case
  proof (cases r)
    case (Inl e)
    with w unf h 1(3) show ?thesis by (cases e) (auto intro: kept_cleanup [OF h])
  next
    case (Inr n)
    have rok: "response_ok c" using 1(3) by (simp add: client_ok_def)
    have n: "c_resp_sent c + n \<le> c_resp_len c"
      using sys_write_le(1) [OF w [unfolded Inr]] response_rest_length [OF rok] rok
      unfolding response_ok_def by linarith
    define c1 where "c1 = c\<lparr>c_resp_sent := c_resp_sent c + n\<rparr>"
    have h1: "held p s0 c1 (s\<lparr>kern := k\<rparr>)" by (rule held_client [OF h]) (simp_all add: c1_def)
    have ok1: "client_ok c1"
      using 1(3) n by (auto simp: client_ok_def name_ok_def response_ok_def state_ok_def c1_def split: conn_state.splits)
    show ?thesis
    proof (cases "c_resp_sent c + n = c_resp_len c")
      case False
      with w Inr unf held_modify [OF h1, of FSS_EVENT_WRITE] ok1 show ?thesis
        by (simp add: one_way_def c1_def)
    next
      case fin: True
      consider (list) "c_state c = STATE_SEND_OK" "c_verb c = LIST"
        | (get) "c_state c = STATE_SEND_OK" "c_verb c = GET"
        | (rest) "c_state c = STATE_SEND_OK" "c_verb c \<noteq> LIST" "c_verb c \<noteq> GET"
        | (err) "c_state c = STATE_SEND_ERROR" using 1(4) by blast
      then show ?thesis
      proof cases
        case list
        have "kept p (c_fd c1) s0 (start_send_list c1 (s\<lparr>kern := k\<rparr>))"
          by (rule 1(1) [OF w [symmetric] Inr refl _ fin list, of c1])
             (use h1 ok1 list in \<open>simp_all add: c1_def\<close>)
        with list fin w Inr unf show ?thesis by (simp add: c1_def)
      next
        case get
        let ?c2 = "c1\<lparr>c_resp_len := 0, c_resp_sent := 0, c_state := STATE_SEND_GET_SIZE\<rparr>"
        have "held p s0 ?c2 (s\<lparr>kern := k\<rparr>)" by (rule held_client [OF h1]) simp_all
        then have "held p s0 ?c2 (modify_event_loop (c_fd c) FSS_EVENT_WRITE (s\<lparr>kern := k\<rparr>))"
          using held_modify [of p s0 ?c2] by (simp add: one_way_def c1_def)
        moreover have "client_ok ?c2"
          using ok1 get by (auto simp: client_ok_def name_ok_def response_ok_def state_ok_def c1_def)
        ultimately show ?thesis using get fin w Inr unf by (simp add: c1_def)
      next
        case rest
        with fin w Inr unf show ?thesis by (auto intro!: kept_cleanup [OF h1] simp: c1_def)
      next
        case err
        with fin w Inr unf show ?thesis by (auto intro!: kept_cleanup [OF h1] simp: c1_def)
      qed
    qed
  qed
next
  case (2 c s)
  note unf = start_send_list.simps [of c s]
  obtain r s1 where b: "build_list_buffer s = (r, s1)" by fastforce
  have fok: "files_ok s" using heldD(1) 2(2) .
  from build_list_buffer_spec(2) [OF fok b] obtain al where s1: "s1 = s\<lparr>kern := (kern s)\<lparr>heap_ok := al\<rparr>\<rparr>" by blast
  have h: "held p s0 c s1" unfolding s1 by (rule held_kernel [OF 2(2) heap_ok_quiet])
  show ?case
  proof (cases r)
    case None
    let ?c = "c\<lparr>c_list_buf := None\<rparr>"
    have "kept p (c_fd ?c) s0 (prepare_and_send_response ?c s1 ''ERROR'' (Some err_bad_request))"
    proof (rule 2(1) [OF b [symmetric] None])
      show "held p s0 ?c s1" by (rule held_client [OF h]) simp_all
      show "client_ok (prepare_response ''ERROR'' (Some err_bad_request) ?c)"
        using 2(3-5) by (intro prepare_ok) (auto simp: client_ok_def name_ok_def state_ok_def)
    qed
    with b None unf show ?thesis by simp
  next
    case (Some bl)
    obtain buf len where bl: "bl = (buf, len)" by fastforce
    note len = build_list_ok [OF fok b [unfolded Some bl]]
    let ?c = "c\<lparr>c_list_buf := Some buf, c_list_len := len, c_list_sent := 0, c_state := STATE_SEND_LIST_DATA\<rparr>"
    have "held p s0 ?c s1" by (rule held_client [OF h]) simp_all
    then have "held p s0 ?c (modify_event_loop (c_fd c) FSS_EVENT_WRITE s1)"
      using held_modify [of p s0 ?c] by (simp add: one_way_def)
    moreover have "client_ok ?c"
      using 2(3-5) len by (auto simp: client_ok_def name_ok_def response_ok_def state_ok_def)
    ultimately show ?thesis using b Some bl unf by simp
  qed
next
  case (3 c s st msg)
  then show ?case using held_client [OF 3(2), of "prepare_response st msg c"]
    by (simp add: prepare_and_send_response.simps)
qed


lemmas write_keeps = response_keeps(1)
lemmas prepare_keeps = response_keeps(3)

lemma error_keeps:
  assumes "held p s0 c s" and "name_ok c" and "c_file_fd c = - 1" and "c_fd c = fd"
  shows "kept p fd s0 (prepare_and_send_response c s ''ERROR'' msg)"
  using prepare_keeps [OF assms(1) prepare_ok [OF assms(2)], of "''ERROR''" msg] assms(3,4) by simp

lemma ok_keeps:
  assumes "held p s0 c s" and "name_ok c" and "c_verb c \<noteq> V_UNKNOWN" and "c_fd c = fd"
    and "c_verb c = GET \<longleftrightarrow> c_file_fd c \<noteq> - 1" and "c_verb c = GET \<Longrightarrow> c_bytes_transferred c = 0"
  shows "kept p fd s0 (prepare_and_send_response c s ''OK'' msg)"
  using prepare_keeps [OF assms(1) prepare_ok [OF assms(2)], of "''OK''" msg] assms(3-6) by simp

lemma list_data_keeps:
  assumes h0: "held p s0 c s" and ok: "client_ok c" and st: "c_state c = STATE_SEND_LIST_DATA"
  shows "kept p (c_fd c) s0 (send_list_data c s)"
proof -
  obtain b where b: "c_list_buf c = Some b" "length b = c_list_len c" "c_list_sent c \<le> c_list_len c"
    using ok st by (auto simp: client_ok_def state_ok_def)
  obtain r k where w: "sys_write (c_fd c) (take (c_list_len c - c_list_sent c) (drop (c_list_sent c) b)) (kern s) = (r, k)"
    by fastforce
  have h: "held p s0 c (s\<lparr>kern := k\<rparr>)" using held_kernel [OF h0 write_quiet [OF w]] .
  show ?thesis
  proof (cases r)
    case (Inl e)
    with w h ok b show ?thesis by (cases e) (auto intro!: kept_cleanup [OF h] simp: send_list_data_def)
  next
    case (Inr n)
    have n: "c_list_sent c + n \<le> c_list_len c"
      using sys_write_le(1) [OF w [unfolded Inr]] b by simp
    define c1 where "c1 = c\<lparr>c_list_sent := c_list_sent c + n\<rparr>"
    have h1: "held p s0 c1 (s\<lparr>kern := k\<rparr>)" by (rule held_client [OF h]) (simp_all add: c1_def)
    have "client_ok c1"
      using ok st n b by (auto simp: client_ok_def name_ok_def response_ok_def state_ok_def c1_def)
    with h1 w b Inr show ?thesis
      by (auto intro!: kept_cleanup [OF h1] simp: send_list_data_def Let_def c1_def)
  qed
qed

subsection \<open>Downloads\<close>

lemma word_advance:
  assumes "b \<le> (e :: size_t)" and "n \<le> unat (e - b)"
  shows "unat (b + of_nat n) = unat b + n" and "b + of_nat n \<le> e"
proof -
  have "unat (e - b) = unat e - unat b" using assms(1) by (rule unat_sub)
  moreover have "unat b \<le> unat e" using assms(1) by (simp add: word_le_nat_alt)
  ultimately have le: "unat b + n \<le> unat e" using assms(2) by linarith
  have "b + of_nat n = of_nat (unat b + n)" by simp
  then show u: "unat (b + of_nat n) = unat b + n" using unat_of_nat_le [OF le] by metis
  show "b + of_nat n \<le> e" using le by (simp add: word_le_nat_alt u)
qed

lemma chunk_advance:
  assumes "b < (e :: size_t)" and "n \<le> chunk_len (e - b)"
  shows "unat (b + of_nat n) = unat b + n" and "b + of_nat n \<le> e"
  using word_advance [of b e n] assms chunk_len_le(1) [of "e - b"] by (simp_all add: less_imp_le)

lemma get_size_keeps:
  assumes h0: "held p s0 c s" and ok: "client_ok c" and st: "c_state c = STATE_SEND_GET_SIZE"
  shows "kept p (c_fd c) s0 (send_get_size c s)"
proof -
  define c0 where "c0 = (if c_resp_len c = 0
     then c\<lparr>c_resp_buf := encode_size (c_file_size c), c_resp_len := sizeof_size_t, c_resp_sent := 0\<rparr> else c)"
  have c0: "c_fd c0 = c_fd c" "c_file_fd c0 = c_file_fd c" by (simp_all add: c0_def)
  have h0': "held p s0 c0 s" by (rule held_client [OF h0 c0])
  have ok0: "client_ok c0" and st0: "c_state c0 = STATE_SEND_GET_SIZE"
    using ok st
    by (auto simp: c0_def client_ok_def name_ok_def response_ok_def state_ok_def sizeof_size_t_def MAX_HEADER_LEN_def)
  then have rok: "response_ok c0" by (simp add: client_ok_def)
  obtain r k where w: "sys_write (c_fd c) (response_rest c0) (kern s) = (r, k)" by fastforce
  have h: "held p s0 c0 (s\<lparr>kern := k\<rparr>)"
    using held_kernel [OF h0'] write_quiet [OF w] by (simp add: c0)
  have unf: "send_get_size c s =
      (case (r, k) of
           (Inl EAGAIN, k) \<Rightarrow> (Some c0, s\<lparr>kern := k\<rparr>)
         | (Inl EINTR, k) \<Rightarrow> close_and_cleanup c0 (s\<lparr>kern := k\<rparr>)
         | (Inl EOTHER, k) \<Rightarrow> close_and_cleanup c0 (s\<lparr>kern := k\<rparr>)
         | (Inr n, k) \<Rightarrow>
             (let c' = c0\<lparr>c_resp_sent := c_resp_sent c0 + n\<rparr>
              in if c_resp_sent c' = c_resp_len c'
                 then (Some (c'\<lparr>c_state := STATE_SEND_GET_DATA, c_resp_len := 0, c_resp_sent := 0\<rparr>),
                       modify_event_loop (c_fd c0) FSS_EVENT_WRITE (s\<lparr>kern := k\<rparr>))
                 else (Some c', s\<lparr>kern := k\<rparr>)))"
    unfolding send_get_size_def c0_def [symmetric] Let_def c0 w ..
  show ?thesis
  proof (cases r)
    case (Inl e)
    with h ok0 c0 show ?thesis unfolding unf by (cases e) (auto intro!: kept_cleanup [OF h])
  next
    case (Inr n)
    have n: "c_resp_sent c0 + n \<le> c_resp_len c0"
      using sys_write_le(1) [OF w [unfolded Inr]] response_rest_length [OF rok] rok
      unfolding response_ok_def by linarith
    define c1 where "c1 = c0\<lparr>c_resp_sent := c_resp_sent c0 + n\<rparr>"
    define c2 where "c2 = c1\<lparr>c_state := STATE_SEND_GET_DATA, c_resp_len := 0, c_resp_sent := 0\<rparr>"
    have h1: "held p s0 c1 (s\<lparr>kern := k\<rparr>)" and h2: "held p s0 c2 (s\<lparr>kern := k\<rparr>)"
      by (rule held_client [OF h]; simp add: c1_def c2_def)+
    have m: "held p s0 c2 (modify_event_loop (c_fd c0) FSS_EVENT_WRITE (s\<lparr>kern := k\<rparr>))"
      using held_modify [OF h2] by (simp add: one_way_def c1_def c2_def)
    have "client_ok c1" "client_ok c2"
      using ok0 st0 n by (auto simp: client_ok_def name_ok_def response_ok_def state_ok_def c1_def c2_def)
    with h1 m c0 Inr show ?thesis unfolding unf Let_def
      by (simp add: c1_def c2_def)
  qed
qed

lemma get_data_loop_keeps:
  assumes "send_get_data_loop c k = (e, c', k')" and "c_bytes_transferred c \<le> c_file_size c"
  shows "\<exists>b. c' = c\<lparr>c_bytes_transferred := b\<rparr> \<and> b \<le> c_file_size c \<and> quiet (c_fd c) k k'"
  using assms
proof (induction c k rule: send_get_data_loop.induct)
  case (1 c k)
  note unf = send_get_data_loop.simps [of c k]
  show ?case
  proof (cases "c_bytes_transferred c < c_file_size c")
    case False
    with 1(2,3) unf show ?thesis by (intro exI [of _ "c_bytes_transferred c"]) auto
  next
    case True
    let ?want = "chunk_len (c_file_size c - c_bytes_transferred c)"
    obtain r k1 where rd: "sys_pread (c_file_fd c) ?want (unat (c_bytes_transferred c)) k = (r, k1)" by fastforce
    note q1 = pread_quiet [OF rd, of "c_fd c"]
    have stop: ?thesis if "(e, c', k') = (e', c, k2)" "quiet (c_fd c) k1 k2" for e' k2
      using that quiet_trans [OF q1] 1(3) by (intro exI [of _ "c_bytes_transferred c"]) auto
    show ?thesis
    proof (cases "\<exists>x xs. r = Inr (x # xs)")
      case False
      then have "(\<exists>er. r = Inl er) \<or> r = Inr []"
        by (cases r rule: read_cases) auto
      then have "send_get_data_loop c k = (LoopFail, c, k1)"
        by (elim disjE exE) (simp_all add: unf True rd)
      with 1(2) show ?thesis by (intro stop [of LoopFail k1]) simp_all
    next
      case data: True
      then obtain x xs where r: "r = Inr (x # xs)" by blast
      obtain r2 k2 where wr: "sys_write (c_fd c) (x # xs) k1 = (r2, k2)" by fastforce
      note q2 = write_quiet [OF wr]
      show ?thesis
      proof (cases r2)
        case (Inl er)
        with 1(2) have "(e, c', k') = (LoopWait, c, k2) \<or> (e, c', k') = (LoopFail, c, k2)"
          by (cases er) (simp_all add: unf True rd wr r)
        with stop q2 show ?thesis by blast
      next
        case (Inr n)
        have n: "n \<le> ?want"
          using sys_write_le(1) [OF wr [unfolded Inr]] pread_length [OF rd [unfolded r]] by simp
        define c1 where "c1 = c\<lparr>c_bytes_transferred := c_bytes_transferred c + of_nat n\<rparr>"
        have c1: "c_fd c1 = c_fd c" "c_file_size c1 = c_file_size c" by (simp_all add: c1_def)
        have le: "c_bytes_transferred c1 \<le> c_file_size c1"
          using chunk_advance(2) [OF True n] by (simp add: c1_def)
        note q = quiet_trans [OF q1 q2]
        show ?thesis
        proof (cases "n < length (x # xs)")
          case short: True
          with 1(2) have "(e, c', k') = (LoopWait, c1, k2)" by (simp add: unf True rd wr r Inr c1_def)
          with le q c1(2) show ?thesis
            by (intro exI [of _ "c_bytes_transferred c + of_nat n"]) (simp add: c1_def)
        next
          case whole: False
          with 1(2) have rec: "send_get_data_loop c1 k2 = (e, c', k')"
            by (simp add: unf True rd wr r Inr c1_def)
          have "\<exists>b. c' = c1\<lparr>c_bytes_transferred := b\<rparr> \<and> b \<le> c_file_size c1 \<and> quiet (c_fd c1) k2 k'"
            by (rule 1(1) [OF True rd [symmetric] r refl wr [symmetric] Inr c1_def whole rec le])
          then obtain b where b: "c' = c1\<lparr>c_bytes_transferred := b\<rparr>" "b \<le> c_file_size c1" "quiet (c_fd c1) k2 k'"
            by blast
          have "quiet (c_fd c) k k'" using quiet_trans [OF q] b(3) c1(1) by simp
          moreover have "c' = c\<lparr>c_bytes_transferred := b\<rparr>" using b(1) by (simp add: c1_def)
          ultimately show ?thesis using b(2) c1(2) by auto
        qed
      qed
    qed
  qed
qed


lemma get_data_keeps:
  assumes h0: "held p s0 c s" and ok: "client_ok c" and st: "c_state c = STATE_SEND_GET_DATA"
  shows "kept p (c_fd c) s0 (send_get_data c s)"
proof -
  obtain e c1 k where l: "send_get_data_loop c (kern s) = (e, c1, k)" by (metis prod_cases3)
  have "c_bytes_transferred c \<le> c_file_size c" using ok st by (simp add: client_ok_def state_ok_def)
  from get_data_loop_keeps [OF l this] obtain b where
    c1: "c1 = c\<lparr>c_bytes_transferred := b\<rparr>" and b: "b \<le> c_file_size c" and q: "quiet (c_fd c) (kern s) k"
    by blast
  have h: "held p s0 c1 (s\<lparr>kern := k\<rparr>)"
    by (rule held_client [OF held_kernel [OF h0 q]]) (simp_all add: c1)
  have "client_ok c1"
    using ok st b by (simp add: client_ok_def name_ok_def response_ok_def state_ok_def c1)
  with h show ?thesis
    by (cases e) (auto intro!: kept_cleanup [OF h] simp: send_get_data_def l c1)
qed

lemma close_file_held:
  assumes "held p s0 c s" and "c_file_fd c \<noteq> - 1" and "close_file c s = (c', s')"
  shows "held p s0 c' s'" and "c' = c\<lparr>c_file_fd := - 1\<rparr>"
  using held_close_file [OF assms(1,2)] assms(3) by (auto simp: close_file_def)

lemma start_get_keeps:
  assumes h0: "held p s0 c s" and n: "name_ok c" and v: "c_verb c = GET" and f: "c_file_fd c = - 1"
  shows "kept p (c_fd c) s0 (start_send_get c s)"
proof -
  obtain fd k where o: "sys_open_rdonly (filepath s (c_filename c)) (kern s) = (fd, k)" by fastforce
  consider "fd = - 1" "quiet (c_fd c) (kern s) k" | "opens fd (kern s) k" "fd \<noteq> - 1"
    using open_rdonly_cases [OF o] opens_def by blast
  then show ?thesis
  proof cases
    case 1
    have "held p s0 (c\<lparr>c_file_fd := - 1\<rparr>) (s\<lparr>kern := k\<rparr>)"
      by (rule held_client [OF held_kernel [OF h0 1(2)]]) (simp_all add: f)
    from error_keeps [OF this] 1 o n show ?thesis by (simp add: start_send_get_def name_ok_def)
  next
    case 2
    let ?c = "c\<lparr>c_file_fd := fd\<rparr>"
    note h1 = held_open [OF h0 2(1) f]
    obtain r k2 where st: "sys_fstat fd k = (r, k2)" by fastforce
    have h2: "held p s0 ?c (s\<lparr>kern := k2\<rparr>)"
      using held_kernel [OF h1, of k2] fstat_quiet [OF st] by simp
    show ?thesis
    proof (cases r)
      case None
      obtain c3 s3 where cl: "close_file ?c (s\<lparr>kern := k2\<rparr>) = (c3, s3)" by fastforce
      note c3 = close_file_held [OF h2 _ cl]
      with error_keeps [OF c3(1), of "c_fd c"] 2 o st None cl n show ?thesis
        by (simp add: start_send_get_def name_ok_def)
    next
      case (Some sz)
      let ?c3 = "?c\<lparr>c_file_size := of_nat sz, c_bytes_transferred := 0\<rparr>"
      have "held p s0 ?c3 (s\<lparr>kern := k2\<rparr>)" by (rule held_client [OF h2]) simp_all
      from ok_keeps [OF this, of "c_fd c" None] 2 o st Some n v show ?thesis
        by (simp add: start_send_get_def name_ok_def)
    qed
  qed
qed

subsection \<open>Uploads\<close>

lemma put_data_loop_keeps:
  assumes "recv_put_data_loop c k = (e, c', k')" and "c_bytes_transferred c \<le> c_expected_size c"
  shows "\<exists>b. c' = c\<lparr>c_bytes_transferred := b\<rparr> \<and> b \<le> c_expected_size c \<and> quiet (c_fd c) k k'"
  using assms
proof (induction c k rule: recv_put_data_loop.induct)
  case (1 c k)
  note unf = recv_put_data_loop.simps [of c k]
  have here: ?case if "(e, c', k') = (e', c, k2)" "quiet (c_fd c) k k2" for e' k2
    using that 1(4) by (intro exI [of _ "c_bytes_transferred c"]) simp
  show ?case
  proof (cases "c_bytes_transferred c < c_expected_size c")
    case False
    with 1(3) show ?thesis by (intro here [of LoopOver k]) (simp_all add: unf)
  next
    case True
    let ?want = "chunk_len (c_expected_size c - c_bytes_transferred c)"
    obtain r k1 where rd: "sys_read (c_fd c) ?want k = (r, k1)" by fastforce
    note q1 = read_quiet [OF rd]
    consider "r = Inl EINTR" | "r = Inl EAGAIN" | "r = Inl EOTHER \<or> r = Inr []" | x xs where "r = Inr (x # xs)"
      by (cases r rule: read_cases) auto
    then show ?thesis
    proof cases
      case 1
      with "1.prems"(1) have "recv_put_data_loop c k1 = (e, c', k')" by (simp add: unf True rd)
      from "1.IH"(1) [OF True rd [symmetric] 1 refl this "1.prems"(2)] quiet_trans [OF q1] show ?thesis by blast
    next
      case 2
      with "1.prems"(1) show ?thesis by (intro here [OF _ q1, of LoopWait]) (simp add: unf True rd)
    next
      case 3
      with "1.prems"(1) show ?thesis by (intro here [OF _ q1, of LoopFail]) (auto simp add: unf True rd)
    next
      case 4
      obtain r2 k2 where pw: "sys_pwrite (c_file_fd c) (x # xs) (unat (c_bytes_transferred c)) k1 = (r2, k2)"
        by fastforce
      note q = quiet_trans [OF q1 pwrite_quiet [OF pw]]
      show ?thesis
      proof (cases "r2 = Inr (length (x # xs))")
        case False
        with "1.prems"(1) show ?thesis by (intro here [OF _ q, of LoopFail]) (simp add: unf True rd 4 pw)
      next
        case whole: True
        have n: "length (x # xs) \<le> ?want"
          using kread.read_progress(2) [OF _ rd [unfolded 4]] True by simp
        let ?b = "c_bytes_transferred c + of_nat (length (x # xs))"
        let ?c1 = "c\<lparr>c_bytes_transferred := ?b\<rparr>"
        have rec: "recv_put_data_loop ?c1 k2 = (e, c', k')"
          using "1.prems"(1) by (simp add: unf True rd 4 pw whole del: of_nat_Suc)
        have le: "c_bytes_transferred ?c1 \<le> c_expected_size ?c1"
          using chunk_advance(2) [OF True n] by (simp del: of_nat_Suc)
        have "\<exists>b. c' = ?c1\<lparr>c_bytes_transferred := b\<rparr> \<and> b \<le> c_expected_size ?c1 \<and> quiet (c_fd ?c1) k2 k'"
          by (rule "1.IH"(2) [OF True rd [symmetric] 4 refl pw [symmetric] _ rec le]) (simp add: whole)
        then obtain b where b: "c' = ?c1\<lparr>c_bytes_transferred := b\<rparr>" "b \<le> c_expected_size ?c1" "quiet (c_fd ?c1) k2 k'"
          by blast
        have "quiet (c_fd c) k k'" using quiet_trans [OF q] b(3) by simp
        moreover have "c' = c\<lparr>c_bytes_transferred := b\<rparr>" using b(1) by simp
        ultimately show ?thesis using b(2) by (intro exI [of _ b]) simp
      qed
    qed
  qed
qed

lemma put_data_keeps:
  assumes h0: "held p s0 c s" and ok: "client_ok c" and st: "c_state c = STATE_RECV_PUT_DATA"
  shows "kept p (c_fd c) s0 (recv_put_data c s)"
proof -
  obtain e c1 k where l: "recv_put_data_loop c (kern s) = (e, c1, k)" by (metis prod_cases3)
  have n: "name_ok c" and f: "c_file_fd c \<noteq> - 1" and v: "c_verb c = PUT"
    and b0: "c_bytes_transferred c \<le> c_expected_size c"
    using ok st by (simp_all add: client_ok_def state_ok_def)
  from put_data_loop_keeps [OF l b0] obtain b where
    c1: "c1 = c\<lparr>c_bytes_transferred := b\<rparr>" and b: "b \<le> c_expected_size c" and q: "quiet (c_fd c) (kern s) k"
    by blast
  have h: "held p s0 c1 (s\<lparr>kern := k\<rparr>)"
    by (rule held_client [OF held_kernel [OF h0 q]]) (simp_all add: c1)
  obtain c2 s2 where cl: "close_file c1 (s\<lparr>kern := k\<rparr>) = (c2, s2)" by fastforce
  have f1: "c_file_fd c1 \<noteq> - 1" by (simp add: c1 f)
  note h2 = close_file_held(1) [OF h f1 cl] and c2 = close_file_held(2) [OF h f1 cl]
  have n2: "name_ok c2" and fd2: "c_fd c2 = c_fd c" "c_file_fd c2 = - 1" "c_verb c2 = PUT"
    using n v by (simp_all add: c2 c1 name_ok_def)
  note err = error_keeps [OF _ n2 fd2(2,1)]
  show ?thesis
  proof (cases "e = LoopFail")
    case True
    with l cl err [OF h2] show ?thesis by (simp add: recv_put_data_def)
  next
    case nf: False
    show ?thesis
    proof (cases "b = c_expected_size c")
      case False
      have "client_ok c1"
        using ok st b by (simp add: client_ok_def name_ok_def response_ok_def state_ok_def c1)
      with h l nf False c1 show ?thesis by (cases e) (simp_all add: recv_put_data_def)
    next
      case True
      obtain xr k3 where rd: "sys_read (c_fd c) 1 (kern s2) = (xr, k3)" by fastforce
      have h3: "held p s0 c2 (s2\<lparr>kern := k3\<rparr>)"
        using held_kernel [OF h2] read_quiet [OF rd] fd2(1) by simp
      note e3 = err [OF h3]
      let ?s3 = "s2\<lparr>kern := k3\<rparr>"
      let ?s4 = "add_file_to_list (c_filename c2) ?s3"
      have fok: "files_ok ?s3" using heldD(1) [OF h3] .
      have h4: "held p s0 c2 ?s4"
      proof -
        from add_file_frame obtain v al where a: "?s4 = ?s3\<lparr>server_files := v, kern := (kern ?s3)\<lparr>heap_ok := al\<rparr>\<rparr>"
          by blast
        have "files_ok ?s4"
          using add_file_present [OF fok] add_file_absent(1) [OF fok] fok by metis
        then have "files_ok (?s3\<lparr>server_files := v\<rparr>)" by (simp add: a files_ok_def)
        from held_kernel [OF held_files [OF h3 this] heap_ok_quiet, of al] show ?thesis unfolding a by simp
      qed
      have o4: "kept p (c_fd c) s0 (prepare_and_send_response c2 ?s4 ''OK'' None)"
        by (rule ok_keeps [OF h4 n2]) (simp_all add: fd2)
      show ?thesis
      proof (cases "\<exists>y ys. xr = Inr (y # ys)")
        case True
        with l nf c1 \<open>b = _\<close> cl rd fd2(1) e3 show ?thesis
          by (cases e) (auto simp: recv_put_data_def)
      next
        case False
        then have "(\<exists>er. xr = Inl er) \<or> xr = Inr []" by (cases xr rule: read_cases) auto
        with l nf c1 \<open>b = _\<close> cl rd fd2(1) o4 show ?thesis
          by (cases e) (auto simp: recv_put_data_def)
      qed
    qed
  qed
qed


lemma size_len_unat: "unat size_len = sizeof_size_t"
  by (simp add: size_len_def sizeof_size_t_def)

lemma put_size_loop_keeps:
  assumes "recv_put_size_loop c k = (e, c', k')" and "c_bytes_transferred c \<le> size_len"
  shows "\<exists>x b. c' = c\<lparr>c_expected_size := x, c_bytes_transferred := b\<rparr> \<and> b \<le> size_len
           \<and> quiet (c_fd c) k k' \<and> (e = LoopOver \<longrightarrow> b = size_len)"
  using assms
proof (induction c k rule: recv_put_size_loop.induct)
  case (1 c k)
  note unf = recv_put_size_loop.simps [of c k]
  have here: ?case if "(e, c', k') = (e', c, k2)" "quiet (c_fd c) k k2" "e' = LoopOver \<Longrightarrow> c_bytes_transferred c = size_len" for e' k2
    using that 1(4) by (intro exI [of _ "c_expected_size c"] exI [of _ "c_bytes_transferred c"]) simp
  show ?case
  proof (cases "c_bytes_transferred c < size_len")
    case False
    with 1(3,4) show ?thesis by (intro here [of LoopOver k]) (simp_all add: unf)
  next
    case True
    let ?want = "unat (size_len - c_bytes_transferred c)"
    obtain r k1 where rd: "sys_read (c_fd c) ?want k = (r, k1)" by fastforce
    note q1 = read_quiet [OF rd]
    consider "r = Inl EINTR" | "r = Inl EAGAIN" | "r = Inl EOTHER \<or> r = Inr []" | x xs where "r = Inr (x # xs)"
      by (cases r rule: read_cases) auto
    then show ?thesis
    proof cases
      case 1
      with "1.prems"(1) have "recv_put_size_loop c k1 = (e, c', k')" by (simp add: unf True rd)
      from "1.IH"(1) [OF True rd [symmetric] 1 refl this "1.prems"(2)] quiet_trans [OF q1] show ?thesis by blast
    next
      case 2
      with "1.prems"(1) show ?thesis by (intro here [OF _ q1, of LoopWait]) (simp_all add: unf True rd)
    next
      case 3
      with "1.prems"(1) show ?thesis by (intro here [OF _ q1, of LoopFail]) (auto simp add: unf True rd)
    next
      case 4
      have n: "length (x # xs) \<le> ?want"
        using kread.read_progress(2) [OF _ rd [unfolded 4]] True by (simp add: unat_gt_0)
      let ?x = "poke_size (c_expected_size c) (unat (c_bytes_transferred c)) (x # xs)"
      let ?b = "c_bytes_transferred c + of_nat (length (x # xs))"
      let ?c1 = "c\<lparr>c_expected_size := ?x, c_bytes_transferred := ?b\<rparr>"
      have rec: "recv_put_size_loop ?c1 k1 = (e, c', k')"
        using "1.prems"(1) by (simp add: unf True rd 4 del: of_nat_Suc)
      have le: "c_bytes_transferred ?c1 \<le> size_len"
        using word_advance(2) [OF "1.prems"(2) n] by (simp del: of_nat_Suc)
      have "\<exists>y b. c' = ?c1\<lparr>c_expected_size := y, c_bytes_transferred := b\<rparr> \<and> b \<le> size_len
               \<and> quiet (c_fd ?c1) k1 k' \<and> (e = LoopOver \<longrightarrow> b = size_len)"
        by (rule "1.IH"(2) [OF True rd [symmetric] 4 refl rec le])
      then obtain y b where b: "c' = ?c1\<lparr>c_expected_size := y, c_bytes_transferred := b\<rparr>" "b \<le> size_len"
        "quiet (c_fd ?c1) k1 k'" "e = LoopOver \<longrightarrow> b = size_len" by blast
      have "quiet (c_fd c) k k'" using quiet_trans [OF q1] b(3) by simp
      then show ?thesis using b(1,2,4) by (intro exI [of _ y] exI [of _ b]) simp
    qed
  qed
qed

lemma put_size_keeps:
  assumes h0: "held p s0 c s" and ok: "client_ok c" and st: "c_state c = STATE_RECV_PUT_SIZE"
  shows "kept p (c_fd c) s0 (recv_put_size c s)"
proof -
  obtain e c1 k where l: "recv_put_size_loop c (kern s) = (e, c1, k)" by (metis prod_cases3)
  have n: "name_ok c" and f: "c_file_fd c = - 1" and v: "c_verb c = PUT"
    and b0: "c_bytes_transferred c \<le> size_len"
    using ok st by (simp_all add: client_ok_def state_ok_def)
  from put_size_loop_keeps [OF l b0] obtain x b where
    c1: "c1 = c\<lparr>c_expected_size := x, c_bytes_transferred := b\<rparr>" and b: "b \<le> size_len"
    and q: "quiet (c_fd c) (kern s) k"
    by blast
  have h: "held p s0 c1 (s\<lparr>kern := k\<rparr>)"
    by (rule held_client [OF held_kernel [OF h0 q]]) (simp_all add: c1)
  show ?thesis
  proof (cases e)
    case LoopWait
    have "client_ok c1"
      using ok st b by (simp add: client_ok_def name_ok_def response_ok_def state_ok_def c1)
    with h l LoopWait show ?thesis by (simp add: recv_put_size_def c1)
  next
    case LoopFail
    with error_keeps [OF h, of "c_fd c"] n f l show ?thesis
      by (simp add: recv_put_size_def c1 name_ok_def)
  next
    case LoopOver
    let ?c2 = "c1\<lparr>c_bytes_transferred := 0\<rparr>"
    have h2: "held p s0 ?c2 (s\<lparr>kern := k\<rparr>)" by (rule held_client [OF h]) simp_all
    obtain fd k2 where o: "sys_open_create (filepath (s\<lparr>kern := k\<rparr>) (c_filename c)) k = (fd, k2)" by fastforce
    have o': "sys_open_create (filepath s (c_filename c)) k = (fd, k2)" using o by (simp add: filepath_def)
    consider "fd = - 1" "quiet (c_fd c) k k2" | "opens fd k k2" "fd \<noteq> - 1"
      using open_create_cases [OF o] opens_def by blast
    then show ?thesis
    proof cases
      case 1
      have "held p s0 (?c2\<lparr>c_file_fd := - 1\<rparr>) (s\<lparr>kern := k2\<rparr>)"
        using held_client [OF held_kernel [OF h2, of k2], of "?c2\<lparr>c_file_fd := - 1\<rparr>"] 1(2) f by (simp add: c1)
      from error_keeps [OF this, of "c_fd c"] 1 o' n l LoopOver show ?thesis
        by (simp add: recv_put_size_def c1 name_ok_def)
    next
      case 2
      let ?c3 = "?c2\<lparr>c_file_fd := fd, c_state := STATE_RECV_PUT_DATA\<rparr>"
      have f2: "c_file_fd ?c2 = - 1" by (simp add: c1 f)
      have "held p s0 (?c2\<lparr>c_file_fd := fd\<rparr>) (s\<lparr>kern := k2\<rparr>)"
        using held_open [OF h2 _ f2, of fd k2] 2(1) by simp
      then have h3: "held p s0 ?c3 (s\<lparr>kern := k2\<rparr>)" by (rule held_client) simp_all
      have ok3: "client_ok ?c3"
        using ok st 2(2) v by (simp add: client_ok_def name_ok_def response_ok_def state_ok_def c1)
      from put_data_keeps [OF h3 ok3] 2 o' l LoopOver show ?thesis
        by (simp add: recv_put_size_def c1)
    qed
  qed
qed

subsection \<open>Requests\<close>

lemma delete_keeps:
  assumes h0: "held p s0 c s" and n: "name_ok c" and f: "c_file_fd c = - 1" and v: "c_verb c = DELETE"
  shows "kept p (c_fd c) s0 (delete_request c s)"
proof (cases "find_file s (c_filename c)")
  case None
  with error_keeps [OF h0 n f refl] show ?thesis by (simp add: delete_request_def)
next
  case (Some i)
  obtain r k where u: "sys_unlink (filepath s (c_filename c)) (kern s) = (r, k)" by fastforce
  have h: "held p s0 c (s\<lparr>kern := k\<rparr>)" by (rule held_kernel [OF h0 unlink_quiet [OF u]])
  note fok = heldD(1) [OF h]
  let ?s1 = "remove_file_from_list (c_filename c) (s\<lparr>kern := k\<rparr>)"
  have "\<exists>v. ?s1 = s\<lparr>kern := k, server_files := v\<rparr>"
    by (cases s) (auto simp: remove_file_from_list_def split: option.splits)
  then obtain w where w: "?s1 = (s\<lparr>kern := k\<rparr>)\<lparr>server_files := w\<rparr>" by auto
  have "held p s0 c ?s1"
    using held_files [OF h, of w] remove_file_items(1) [OF fok, of "c_filename c"] by (simp add: w)
  from ok_keeps [OF this n _ refl] f v error_keeps [OF h n f refl] u Some show ?thesis
    by (simp add: delete_request_def split: bool.splits)
qed

lemma length_split_header:
  assumes "split_header buf i = (buf', v, n)"
  shows "length buf' = length buf"
  using assms by (auto simp: split_header_def Let_def split: option.splits)

lemma filename_ok:
  assumes "length (c_header_buf c) < MAX_HEADER_LEN" and "c_filename c' = strncpy 255 f" and "c_header_buf c' = c_header_buf c"
  shows "name_ok c'"
  using assms length_strncpy [of 255 f] strncpy_no_nul [of 255 f] by (simp add: name_ok_def)

lemma parse_keeps:
  assumes h0: "held p s0 c s" and ok: "client_ok c" and st: "c_state c = STATE_RECV_HEADER"
  shows "kept p (c_fd c) s0 (parse_header_and_transition c s)"
proof (cases "strchr (c_header_buf c) NL")
  case None
  with h0 ok show ?thesis by (simp add: parse_header_and_transition_def)
next
  case (Some i)
  obtain buf v nm where sp: "split_header (c_header_buf c) i = (buf, v, nm)" by (metis prod_cases3)
  define c1 where "c1 = (\<lambda>w. c\<lparr>c_header_buf := buf, c_verb := w\<rparr>)"
  define c2 where "c2 = (\<lambda>w f. c\<lparr>c_header_buf := buf, c_verb := w, c_filename := strncpy 255 f\<rparr>)"
  have f: "c_file_fd c = - 1" and n: "name_ok c" using ok st by (simp_all add: client_ok_def state_ok_def)
  have h1: "held p s0 (c1 w) s" and h2: "held p s0 (c2 w g) s" for w g
    by (rule held_client [OF h0]; simp add: c1_def c2_def)+
  have len: "length buf < MAX_HEADER_LEN"
    using length_split_header [OF sp] n by (simp add: name_ok_def)
  have n1: "name_ok (c1 w)" for w
    using n len by (simp add: name_ok_def c1_def)
  have n2: "name_ok (c2 w g)" for w g
    using len length_strncpy [of 255 g] strncpy_no_nul [of 255 g] by (simp add: name_ok_def c2_def)
  have bad: "kept p (c_fd c) s0 (prepare_and_send_response (c1 w) s ''ERROR'' (Some err_bad_request))" for w
    by (rule error_keeps [OF h1 n1]) (simp_all add: c1_def f)
  have c1c: "c\<lparr>c_header_buf := buf\<rparr> = c1 (c_verb c)" by (simp add: c1_def)
  have list: "kept p (c_fd c) s0 (prepare_and_send_response (c1 LIST) s ''OK'' None)"
    by (rule ok_keeps [OF h1 n1]) (simp_all add: c1_def f)
  have del: "kept p (c_fd c) s0 (delete_request (c2 DELETE g) s)" for g
    using delete_keeps [OF h2 n2, of DELETE g] by (simp add: c2_def f)
  have get: "kept p (c_fd c) s0 (start_send_get (c2 GET g) s)" for g
    using start_get_keeps [OF h2 n2, of GET g] by (simp add: c2_def f)
  have put: "kept p (c_fd c) s0 (Some (c2 PUT g\<lparr>c_bytes_transferred := 0, c_state := STATE_RECV_PUT_SIZE\<rparr>),
                modify_event_loop (c_fd c) FSS_EVENT_READ s)" for g
  proof -
    let ?c = "c2 PUT g\<lparr>c_bytes_transferred := 0, c_state := STATE_RECV_PUT_SIZE\<rparr>"
    have "held p s0 ?c s" by (rule held_client [OF h2 [of PUT g]]) simp_all
    from held_modify [OF this, of FSS_EVENT_READ] have "held p s0 ?c (modify_event_loop (c_fd c) FSS_EVENT_READ s)"
      by (simp add: one_way_def c2_def)
    moreover have "client_ok ?c"
      using n2 [of PUT g] ok f by (simp add: client_ok_def name_ok_def response_ok_def state_ok_def c2_def)
    ultimately show ?thesis by (simp add: c2_def)
  qed
  show ?thesis
    unfolding parse_header_and_transition_def Some
    using bad [of "c_verb c"] bad [of LIST] bad [of DELETE] bad [of GET] bad [of PUT] list del get put
    by (simp add: sp Let_def c1_def c2_def split: option.splits)
qed


lemma header_loop_keeps:
  assumes "recv_header_loop c k = (e, c', k')" and "length (c_header_buf c) < MAX_HEADER_LEN"
  shows "\<exists>b. c' = c\<lparr>c_header_buf := b\<rparr> \<and> length b < MAX_HEADER_LEN \<and> quiet (c_fd c) k k'"
  using assms
proof (induction c k rule: recv_header_loop.induct)
  case (1 c k)
  note unf = recv_header_loop.simps [of c k]
  have here: ?case if "(e, c', k') = (e', c, k2)" "quiet (c_fd c) k k2" for e' k2
    using that 1(4) by (intro exI [of _ "c_header_buf c"]) simp
  show ?case
  proof (cases "length (c_header_buf c) < MAX_HEADER_LEN - 1")
    case False
    with 1(3) show ?thesis by (intro here [of HeaderWait k]) (simp_all add: unf)
  next
    case True
    obtain r k1 where rd: "sys_read (c_fd c) 1 k = (r, k1)" by fastforce
    note q1 = read_quiet [OF rd]
    consider "r = Inl EINTR" | "r = Inl EAGAIN" | "r = Inl EOTHER \<or> r = Inr []" | x xs where "r = Inr (x # xs)"
      by (cases r rule: read_cases) auto
    then show ?thesis
    proof cases
      case 1
      with "1.prems"(1) have "recv_header_loop c k1 = (e, c', k')" by (simp add: unf True [simplified] rd [simplified])
      from "1.IH"(1) [OF True rd [symmetric] 1 refl this "1.prems"(2)] quiet_trans [OF q1] show ?thesis by blast
    next
      case 2
      with "1.prems"(1) show ?thesis by (intro here [OF _ q1, of HeaderWait]) (simp add: unf True [simplified] rd [simplified])
    next
      case 3
      with "1.prems"(1) show ?thesis by (intro here [OF _ q1, of HeaderClose]) (auto simp add: unf True [simplified] rd [simplified])
    next
      case 4
      let ?c1 = "c\<lparr>c_header_buf := c_header_buf c @ [x]\<rparr>"
      have le: "length (c_header_buf ?c1) < MAX_HEADER_LEN" using True by simp
      show ?thesis
      proof (cases "x = NL")
        case nl: True
        with "1.prems"(1) have "(e, c', k') = (HeaderLine, ?c1, k1)" by (simp add: unf True [simplified] rd [simplified] 4)
        with q1 le show ?thesis by (intro exI [of _ "c_header_buf c @ [x]"]) simp
      next
        case other: False
        with "1.prems"(1) have rec: "recv_header_loop ?c1 k1 = (e, c', k')" by (simp add: unf True [simplified] rd [simplified] 4)
        have "\<exists>b. c' = ?c1\<lparr>c_header_buf := b\<rparr> \<and> length b < MAX_HEADER_LEN \<and> quiet (c_fd ?c1) k1 k'"
          by (rule "1.IH"(2) [OF True rd [symmetric] 4 refl refl other rec le])
        then obtain b where b: "c' = ?c1\<lparr>c_header_buf := b\<rparr>" "length b < MAX_HEADER_LEN" "quiet (c_fd ?c1) k1 k'"
          by blast
        have "quiet (c_fd c) k k'" using quiet_trans [OF q1] b(3) by simp
        then show ?thesis using b(1,2) by (intro exI [of _ b]) simp
      qed
    qed
  qed
qed

lemma read_event_keeps:
  assumes h0: "held p s0 c s" and ok: "client_ok c"
  shows "kept p (c_fd c) s0 (handle_read_event c s)"
proof (cases "c_state c = STATE_RECV_HEADER")
  case False
  with h0 ok put_size_keeps [OF h0 ok] put_data_keeps [OF h0 ok] show ?thesis
    by (simp add: handle_read_event_def)
next
  case st: True
  obtain e c1 k where l: "recv_header_loop c (kern s) = (e, c1, k)" by (metis prod_cases3)
  have n: "name_ok c" and f: "c_file_fd c = - 1" using ok st by (simp_all add: client_ok_def state_ok_def)
  then have "length (c_header_buf c) < MAX_HEADER_LEN" by (simp add: name_ok_def)
  from header_loop_keeps [OF l this] obtain b where
    c1: "c1 = c\<lparr>c_header_buf := b\<rparr>" and b: "length b < MAX_HEADER_LEN" and q: "quiet (c_fd c) (kern s) k"
    by blast
  have h: "held p s0 c1 (s\<lparr>kern := k\<rparr>)"
    by (rule held_client [OF held_kernel [OF h0 q]]) (simp_all add: c1)
  have n1: "name_ok c1" using n b by (simp add: c1 name_ok_def)
  have ok1: "client_ok c1"
    using ok n1 st f by (simp add: client_ok_def response_ok_def state_ok_def c1)
  show ?thesis
  proof (cases e)
    case HeaderLine
    with parse_keeps [OF h ok1] st l show ?thesis by (simp add: handle_read_event_def c1)
  next
    case HeaderWait
    with error_keeps [OF h n1, of "c_fd c" "Some err_bad_request"] h ok1 st l f show ?thesis
      by (simp add: handle_read_event_def c1)
  next
    case HeaderClose
    with st l kept_cleanup [OF h refl refl, of "c_fd c"] show ?thesis by (simp add: handle_read_event_def c1)
  qed
qed

lemma write_event_keeps:
  assumes h0: "held p s0 c s" and ok: "client_ok c"
  shows "kept p (c_fd c) s0 (handle_write_event c s)"
  using h0 ok write_keeps [OF h0 ok] list_data_keeps [OF h0 ok] get_size_keeps [OF h0 ok] get_data_keeps [OF h0 ok]
  by (simp add: handle_write_event_def)

subsection \<open>The three handlers that the event loop calls meet the contract\<close>

interpretation on_read: conn_handler handle_read_event client_ok
  by unfold_locales (rule read_event_keeps)

interpretation on_write: conn_handler handle_write_event client_ok
  by unfold_locales (rule write_event_keeps)

interpretation on_error: conn_handler close_and_cleanup "\<lambda>c. True"
  by unfold_locales (rule kept_cleanup, simp_all)

lemma held_start:
  assumes "server_ok s" and "dict_lookup (fd_to_client s) fd = Some p"
  obtains c where "heap s p = Some c" and "c_fd c = fd" and "held p s c s" and "client_ok c"
proof -
  from assms obtain f where "holds (heap s) p = Some (fd, f)"
    by (simp add: server_ok_def link_ok_def mapped_def) blast
  then obtain c where c: "heap s p = Some c" "c_fd c = fd" by (auto simp: holds_Some)
  moreover have "held p s c s"
    using assms c by (simp add: held_def server_ok_def frame_def fun_upd_idem)
  moreover have "client_ok c" using assms(1) c by (simp add: server_ok_def)
  ultimately show thesis using that by blast
qed

subsection \<open>Accepting\<close>

lemma accept_one_ok:
  assumes ok: "server_ok s" and acc: "sys_accept (kern s) = (Inr fd, k)"
  shows "server_ok (accept_one fd (s\<lparr>kern := k\<rparr>))"
    and "\<forall>q d. heap s q = Some d \<longrightarrow> heap (accept_one fd (s\<lparr>kern := k\<rparr>)) q = Some d"
proof -
  from acc obtain n rest where b: "backlog (kern s) = AConn n # rest" and fd: "fd = fresh_fd (fds (kern s))"
    and k: "k = (kern s)\<lparr>fds := (fd, OSock n) # fds (kern s), backlog := rest\<rparr>"
    by (auto simp: sys_accept_def split: list.splits acc_ev.splits)
  have new: "map_of (fds (kern s)) fd = None" using fresh_fd_unmapped fd by simp
  have L: "files_ok s" "queue_ok (event_loop_fd s) (listen_fd s) (kern s)" "owns (kern s) (holds (heap s))"
    "mapped (fd_to_client s) (holds (heap s)) (kern s)" "\<forall>p. next_addr s \<le> p \<longrightarrow> heap s p = None"
    using ok by (simp_all add: server_ok_def link_ok_def)
  let ?p = "next_addr s"
  obtain r k2 where add: "event_loop_add (event_loop_fd s) fd FSS_EVENT_READ k = (r, k2)" by fastforce
  have unk: "\<not> ep_known (kern s) fd" using L(2) new by (auto simp: queue_ok_def sock_open_def)
  then have unk': "\<not> ep_known k fd" by (simp add: ep_known_def k)
  have fdk: "map_of (fds k) g = (if g = fd then Some (OSock n) else map_of (fds (kern s)) g)" for g
    by (simp add: k)
  have ne: "event_loop_fd s \<noteq> fd" "listen_fd s \<noteq> fd" using L(2) new by (auto simp: queue_ok_def ep_alive_def)
  have al: "ep_alive (event_loop_fd s) k" using L(2) fdk ne by (simp add: queue_ok_def ep_alive_def)
  have wk: "ep_watched k = ep_watched (kern s)" "ep_known k = ep_known (kern s)"
    by (simp_all add: k ep_watched_def ep_known_def fun_eq_iff)
  have one: "one_way FSS_EVENT_READ" by (simp add: one_way_def)
  have sk: "epoll.single k" using L(2) wk by (simp add: queue_ok_def epoll.single_def)
  have s2: "epoll.single k2" using epoll.single_add [OF al sk unk' one] add by simp
  have f2: "fds k2 = fds k \<and> conns k2 = conns k"
    and kn2: "ep_known k2 g \<longleftrightarrow> g = fd \<or> ep_known (kern s) g" for g
  proof -
    have e: "k2 = snd (event_loop_add (event_loop_fd s) fd FSS_EVENT_READ k)" using add by simp
    show "fds k2 = fds k \<and> conns k2 = conns k"
      by (simp add: e event_loop_add_def epoll_ctl_def Let_def)
    show "ep_known k2 g \<longleftrightarrow> g = fd \<or> ep_known (kern s) g"
      using al unk' by (auto simp: e event_loop_add_def epoll_ctl_def Let_def ep_known_def ep_alive_def k)
  qed
  obtain al2 d where ds: "dictionary_set (heap_ok k2) (fd_to_client s) (Some fd) ?p = (al2, d)" by fastforce
  have d: "d = snd (dict_upd (heap_ok k2) (fd_to_client s) fd ?p)" using ds by (simp add: dict_upd_def)
  define s' where "s' = accept_one fd (s\<lparr>kern := k\<rparr>)"
  have s': "s' = s\<lparr>heap := (heap s)(?p \<mapsto> client_create fd), next_addr := ?p + 1, fd_to_client := d,
              kern := k2\<lparr>heap_ok := al2\<rparr>\<rparr>"
    using add ds by (simp add: s'_def accept_one_def add_fd_to_event_loop_def Let_def)
  have q: "quiet fd k2 (k2\<lparr>heap_ok := al2\<rparr>)" by (rule heap_ok_quiet)
  have so: "sock_open k2 g \<longleftrightarrow> g = fd \<or> sock_open (kern s) g"
    and fo: "file_open k2 g \<longleftrightarrow> file_open (kern s) g" for g
    using f2 fdk new by (auto simp: sock_open_def file_open_def)
  have "queue_ok (event_loop_fd s) (listen_fd s) k2"
    using L(2) s2 f2 fdk kn2 ne so by (auto simp: queue_ok_def ep_alive_def)
  moreover have "owns k2 ((holds (heap s))(?p \<mapsto> (fd, - 1)))"
  proof (rule ownsI)
    fix q g f assume "((holds (heap s))(?p \<mapsto> (fd, - 1))) q = Some (g, f)"
    then show "sock_open k2 g \<and> (f \<noteq> - 1 \<longrightarrow> file_open k2 f)"
      using ownsD(1,2) [OF L(3)] by (auto simp: so fo split: if_splits)
  next
    fix q q' g f g' f'
    assume a: "((holds (heap s))(?p \<mapsto> (fd, - 1))) q = Some (g, f)"
      "((holds (heap s))(?p \<mapsto> (fd, - 1))) q' = Some (g', f')" "q \<noteq> q'"
    have old: "g \<noteq> fd \<and> f \<noteq> fd" if "holds (heap s) q = Some (g, f)" "f \<noteq> - 1" for q g f
      using ownsD(1,2) [OF L(3) that(1)] new that(2) by (auto simp: sock_open_def file_open_def)
    have old': "g \<noteq> fd" if "holds (heap s) q = Some (g, f)" for q g f
      using ownsD(1) [OF L(3) that] new by (auto simp: sock_open_def)
    show "g \<noteq> g' \<and> (f \<noteq> - 1 \<longrightarrow> f \<noteq> f')"
      using a old' ownsD(3,4) [OF L(3)] by (cases "q = ?p"; cases "q' = ?p") auto
  qed
  moreover have "mapped d ((holds (heap s))(?p \<mapsto> (fd, - 1))) k2"
    unfolding mapped_def
  proof (intro conjI allI impI)
    have dok: "dict_ok (fd_to_client s)" using L(4) by (simp add: mapped_def)
    show "dict_ok d" using dict.upd_good [OF dok] by (simp add: d)
    fix g q assume "dict_lookup d g = Some q"
    then have c: "g = fd \<and> q = ?p \<or> dict_lookup (fd_to_client s) g = Some q"
      using dict.upd_cases [OF dok] by (simp add: d)
    show "ep_known k2 g" using c L(4) by (auto simp: kn2 mapped_def)
    have "holds (heap s) ?p = None" using L(5) by (simp add: holds_def)
    with c L(4) show "\<exists>f. ((holds (heap s))(?p \<mapsto> (fd, - 1))) q = Some (g, f)"
      by (auto simp: mapped_def) (metis option.distinct(1))
  qed
  ultimately have "link_ok s'"
    using L(1,5) quiet_link [OF q] by (simp add: link_ok_def s' holds_upd client_create_def files_ok_def)
  moreover have "client_ok (client_create fd)"
    by (simp add: client_create_def client_ok_def name_ok_def response_ok_def state_ok_def MAX_HEADER_LEN_def)
  ultimately show "server_ok (accept_one fd (s\<lparr>kern := k\<rparr>))"
    using ok by (simp add: server_ok_def s'_def [symmetric]) (simp add: s')
  show "\<forall>q d. heap s q = Some d \<longrightarrow> heap (accept_one fd (s\<lparr>kern := k\<rparr>)) q = Some d"
    using L(5) by (auto simp: s'_def [symmetric] s')
qed

lemma server_ok_kernel:
  assumes "server_ok s" and "quiet fd (kern s) k"
  shows "server_ok (s\<lparr>kern := k\<rparr>)"
  using assms quiet_link [OF assms(2)] by (simp add: server_ok_def link_ok_def files_ok_def)


lemma sys_accept_quiet:
  assumes "sys_accept k = (Inl e, k')"
  shows "quiet fd k (k'\<lparr>backlog := backlog k\<rparr>)" and "fds k' = fds k" and "interest k' = interest k"
  using assms by (auto simp: sys_accept_def quiet_def split: list.splits acc_ev.splits)

lemma server_ok_backlog:
  assumes "server_ok s" and "fds k = fds (kern s)" and "interest k = interest (kern s)"
  shows "server_ok (s\<lparr>kern := k\<rparr>)"
proof -
  have "ep_watched k = ep_watched (kern s)" "ep_known k = ep_known (kern s)"
    "sock_open k = sock_open (kern s)" "file_open k = file_open (kern s)"
    using assms(2,3) by (simp_all add: ep_watched_def ep_known_def sock_open_def file_open_def fun_eq_iff)
  then show ?thesis
    using assms owns_cong [of k "kern s"] mapped_cong [of k "kern s"]
    by (simp add: server_ok_def link_ok_def files_ok_def queue_ok_def ep_alive_def epoll.single_def)
qed

lemma accept_ok:
  assumes "server_ok s"
  shows "server_ok (accept_connections s) \<and> (\<forall>q d. heap s q = Some d \<longrightarrow> heap (accept_connections s) q = Some d)"
  using assms
proof (induction s rule: accept_connections.induct)
  case (1 s)
  note unf = accept_connections.simps [of s]
  obtain r k where acc: "sys_accept (kern s) = (r, k)" by fastforce
  show ?case
  proof (cases r)
    case (Inl e)
    have ok: "server_ok (s\<lparr>kern := k\<rparr>)"
      using sys_accept_quiet(2,3) acc Inl by (intro server_ok_backlog [OF 1(3)]) blast+
    show ?thesis
    proof (cases "e = EINTR")
      case True
      from 1(1) [OF acc [symmetric] Inl True ok] show ?thesis by (simp add: unf acc Inl True)
    next
      case False
      with ok show ?thesis by (cases e) (simp_all add: unf acc Inl)
    qed
  next
    case (Inr fd)
    note one = accept_one_ok [OF 1(3) acc [unfolded Inr]]
    from 1(2) [OF acc [symmetric] Inr one(1)] one(2) show ?thesis by (simp add: unf acc Inr)
  qed
qed

subsection \<open>Events\<close>

text \<open>
  With the invariant, an event that does not carry both the read and the write bit is
  handled without touching freed memory.
\<close>

lemma handle_event_ok:
  assumes ok: "server_ok s" and ev: "\<not> (has_bit m FSS_EVENT_READ \<and> has_bit m FSS_EVENT_WRITE)"
  shows "\<exists>s'. handle_event (fd, m) s = Some s' \<and> server_ok s'"
proof (cases "fd = listen_fd s")
  case True
  with accept_ok [OF ok] show ?thesis by (simp add: handle_event_def)
next
  case nl: False
  show ?thesis
  proof (cases "dict_lookup (fd_to_client s) fd")
    case None
    with nl ok show ?thesis by (simp add: handle_event_def dict_lookup_def)
  next
    case (Some p)
    from held_start [OF ok Some] obtain c where c: "heap s p = Some c" "c_fd c = fd" "held p s c s" "client_ok c"
      by blast
    have d: "dictionary_get (fd_to_client s) (Some fd) = Some p" using Some by (simp add: dict_lookup_def)
    have same: "put_back p (Some c, s) = s" using c(1) by (simp add: put_back_def fun_upd_idem)
    show ?thesis
      using ev on_error.put_back_ok [OF c(3) _ ok] on_read.put_back_ok [OF c(3,4) ok] on_write.put_back_ok [OF c(3,4) ok]
        ok same
      by (auto simp: handle_event_def nl d c(1) split: prod.splits)
  qed
qed

lemma handle_events_ok:
  assumes "server_ok s" and "\<forall>(fd, m) \<in> set es. \<not> (has_bit m FSS_EVENT_READ \<and> has_bit m FSS_EVENT_WRITE)"
  shows "\<exists>s'. handle_events es s = Some s' \<and> server_ok s'"
  using assms
proof (induction es arbitrary: s)
  case Nil
  then show ?case by simp
next
  case (Cons e es)
  obtain fd m where e: "e = (fd, m)" by fastforce
  from handle_event_ok [OF Cons.prems(1), of m fd] Cons.prems(2) e
  obtain s1 where "handle_event e s = Some s1" "server_ok s1" by auto
  with Cons.IH [of s1] Cons.prems(2) show ?case by auto
qed

subsection \<open>The server as a transition system\<close>

text \<open>
  One step: the environment does something (data arrives, the peer closes, a connection is
  waiting, the disk or the allocator will fail), a signal is delivered, or \<open>event_loop_wait\<close>
  returns a batch of events that \<open>epoll_wait\<close> may report in that state and the loop handles
  the batch.
\<close>

inductive server_step :: "server \<Rightarrow> server \<Rightarrow> bool" where
  Environment:
    "fds k = fds (kern s) \<Longrightarrow> interest k = interest (kern s) \<Longrightarrow> server_step s (s\<lparr>kern := k\<rparr>)"
| Signal:
    "server_step s (signal_handler sig s)"
| Batch:
    "running s \<Longrightarrow> \<forall>raw \<in> set raws. epoll_reports (kern s) raw \<Longrightarrow>
     event_loop_wait (Inr raws) = Inr es \<Longrightarrow> handle_events es s = Some s' \<Longrightarrow> server_step s s'"

inductive_cases server_stepE: "server_step s s'"

inductive reachable :: "server \<Rightarrow> server \<Rightarrow> bool" for s0 where
  Start: "reachable s0 s0"
| Step: "reachable s0 s \<Longrightarrow> server_step s s' \<Longrightarrow> reachable s0 s'"

lemma signal_ok: "server_ok (signal_handler sig s) = server_ok s"
  by (simp add: signal_handler_def server_ok_def link_ok_def files_ok_def)

lemma batch_one_way:
  assumes "server_ok s" and "\<forall>raw \<in> set raws. epoll_reports (kern s) raw"
    and "event_loop_wait (Inr raws) = Inr es"
  shows "\<forall>(fd, m) \<in> set es. \<not> (has_bit m FSS_EVENT_READ \<and> has_bit m FSS_EVENT_WRITE)"
proof -
  have "epoll.single (kern s)" using assms(1) by (simp add: server_ok_def link_ok_def queue_ok_def)
  note nb = epoll.not_both [OF this]
  have es: "es = map from_epoll_event raws" using assms(3) by (simp add: event_loop_wait_def)
  have "\<not> (has_bit (snd e) FSS_EVENT_READ \<and> has_bit (snd e) FSS_EVENT_WRITE)" if "e \<in> set es" for e
  proof -
    from that es obtain raw where "raw \<in> set raws" "e = from_epoll_event raw" by auto
    with nb [of raw "fst e" "snd e"] assms(2) show ?thesis by simp
  qed
  then show ?thesis by (simp add: case_prod_unfold)
qed

lemma step_ok: "server_step s s' \<Longrightarrow> server_ok s \<Longrightarrow> server_ok s'"
proof (induction rule: server_step.induct)
  case (Environment k s)
  then show ?case by (intro server_ok_backlog)
next
  case (Signal s sig)
  then show ?case by (simp add: signal_ok)
next
  case (Batch s raws es s')
  with handle_events_ok [OF Batch.prems batch_one_way [OF Batch.prems Batch.hyps(2,3)]] show ?case by simp
qed

lemma reachable_ok: "reachable s0 s \<Longrightarrow> server_ok s0 \<Longrightarrow> server_ok s"
  by (induction rule: reachable.induct) (auto intro: step_ok)

end
