(* ===== verification/Fss_Server_Machine.thy ===== *)
theory Fss_Server_Machine
  imports Fss_Server_Safety
begin

section \<open>The state machine of a connection\<close>

text \<open>
  The section ``Connection State Machine'' of \<open>docs/design.md\<close> as a relation on the verb and
  the state of a connection, and the proof that the handlers follow it: between two events a
  connection moves along the arrows of the diagrams or is closed. \<open>STATE_DONE\<close> is never the
  state of a connection between two events.
\<close>

inductive arrow :: "verb \<times> conn_state \<Rightarrow> verb \<times> conn_state \<Rightarrow> bool" where
  UploadRequest: "arrow (v, STATE_RECV_HEADER) (PUT, STATE_RECV_PUT_SIZE)"
| UploadSize: "arrow (PUT, STATE_RECV_PUT_SIZE) (PUT, STATE_RECV_PUT_DATA)"
| UploadDone: "arrow (PUT, STATE_RECV_PUT_DATA) (PUT, STATE_SEND_OK)"
| Download: "arrow (v, STATE_RECV_HEADER) (GET, STATE_SEND_OK)"
| DownloadSize: "arrow (GET, STATE_SEND_OK) (GET, STATE_SEND_GET_SIZE)"
| DownloadData: "arrow (GET, STATE_SEND_GET_SIZE) (GET, STATE_SEND_GET_DATA)"
| ListRequest: "arrow (v, STATE_RECV_HEADER) (LIST, STATE_SEND_OK)"
| ListData: "arrow (LIST, STATE_SEND_OK) (LIST, STATE_SEND_LIST_DATA)"
| Deletion: "arrow (v, STATE_RECV_HEADER) (DELETE, STATE_SEND_OK)"
| RequestError: "arrow (v, STATE_RECV_HEADER) (v', STATE_SEND_ERROR)"
| SizeError: "arrow (PUT, STATE_RECV_PUT_SIZE) (PUT, STATE_SEND_ERROR)"
| DataError: "arrow (PUT, STATE_RECV_PUT_DATA) (PUT, STATE_SEND_ERROR)"
| ListError: "arrow (LIST, STATE_SEND_OK) (LIST, STATE_SEND_ERROR)"

inductive_simps arrow_simps: "arrow (v, st) (v', st')"

inductive_cases arrowE: "arrow a b"

abbreviation at :: "client \<Rightarrow> verb \<times> conn_state" where
  "at c \<equiv> (c_verb c, c_state c)"

abbreviation arrows :: "verb \<times> conn_state \<Rightarrow> verb \<times> conn_state \<Rightarrow> bool" where
  "arrows \<equiv> arrow\<^sup>*\<^sup>*"

lemma arrow_forward: "arrow a b \<Longrightarrow> snd a < snd b"
  by (induction rule: arrow.induct) (simp_all add: less_conn_state_def)

lemma arrows_forward: "arrows a b \<Longrightarrow> snd a \<le> snd b"
  by (induction rule: rtranclp_induct) (auto dest: arrow_forward)

text \<open>Where a handler leaves a connection that came to it at \<open>a\<close>.\<close>

definition moves :: "verb \<times> conn_state \<Rightarrow> handled \<Rightarrow> bool" where
  "moves a h = (case fst h of None \<Rightarrow> True | Some c \<Rightarrow> arrows a (at c))"

lemma moves_simps [simp]:
  "moves a (None, s)" "moves a (Some c, s) \<longleftrightarrow> arrows a (at c)"
  by (simp_all add: moves_def)

lemma moves_closed [simp]: "moves a (close_and_cleanup c s)"
  by (simp add: moves_def close_and_cleanup_def Let_def)

lemma arrows_then:
  assumes "arrow a b" and "moves b h"
  shows "moves a h"
  using assms by (auto simp: moves_def split: option.splits intro: converse_rtranclp_into_rtranclp)

lemmas arrow_then = arrows_then [OF arrow.intros(1)] arrows_then [OF arrow.intros(2)]
  arrows_then [OF arrow.intros(3)] arrows_then [OF arrow.intros(4)] arrows_then [OF arrow.intros(7)]
  arrows_then [OF arrow.intros(9)] arrows_then [OF arrow.intros(10)] arrows_then [OF arrow.intros(11)]
  arrows_then [OF arrow.intros(12)] arrows_then [OF arrow.intros(13)]

text \<open>A turn of the writers starts at a response state.\<close>

lemma response_moves:
  "c_state c = STATE_SEND_OK \<or> c_state c = STATE_SEND_ERROR \<Longrightarrow>
     moves (at c) (execute_simple_response_write c s)"
  "c_state c' = STATE_SEND_OK \<Longrightarrow> c_verb c' = LIST \<Longrightarrow> moves (at c') (start_send_list c' s')"
  "moves (c_verb c'', if st = ''OK'' then STATE_SEND_OK else STATE_SEND_ERROR)
     (prepare_and_send_response c'' s'' st msg)"
proof (induction c s and c' s' and c'' s'' st msg
       rule: execute_simple_response_write_start_send_list_prepare_and_send_response.induct)
  case (1 c s)
  note unf = execute_simple_response_write.simps [of c s]
  obtain r k where w: "sys_write (c_fd c) (response_rest c) (kern s) = (r, k)" by fastforce
  show ?case
  proof (cases r)
    case (Inl e)
    then show ?thesis by (cases e) (simp_all add: unf w)
  next
    case (Inr n)
    show ?thesis
    proof (cases "c_resp_sent c + n = c_resp_len c")
      case False
      then show ?thesis by (simp add: unf w Inr)
    next
      case fin: True
      let ?c = "c\<lparr>c_resp_sent := c_resp_sent c + n\<rparr>"
      have "moves (at ?c) (start_send_list ?c (s\<lparr>kern := k\<rparr>))"
        if "c_state c = STATE_SEND_OK" "c_verb c = LIST"
        by (rule 1(1) [OF w [symmetric] Inr refl refl fin]) (simp_all add: that)
      then show ?thesis using 1(2) arrow.intros(5)
        by (auto simp: unf w Inr fin Let_def)
    qed
  qed
next
  case (2 c s)
  note unf = start_send_list.simps [of c s]
  obtain r s1 where b: "build_list_buffer s = (r, s1)" by fastforce
  show ?case
  proof (cases r)
    case None
    have "moves (c_verb c, STATE_SEND_ERROR)
       (prepare_and_send_response (c\<lparr>c_list_buf := None\<rparr>) s1 ''ERROR'' (Some err_bad_request))"
      using 2(1) [OF b [symmetric] None] by simp
    with 2(2,3) show ?thesis by (simp add: unf b None arrow_then(10))
  next
    case (Some bl)
    then show ?thesis using 2(2,3) arrow.intros(8) by (cases bl) (auto simp: unf b)
  qed
next
  case (3 c s st msg)
  then show ?case by (simp add: prepare_and_send_response.simps)
qed

lemma error_moves:
  "c_verb c = v \<Longrightarrow> moves (v, STATE_SEND_ERROR) (prepare_and_send_response c s ''ERROR'' msg)"
  using response_moves(3) [of c "''ERROR''"] by simp

lemma ok_moves: "c_verb c = v \<Longrightarrow> moves (v, STATE_SEND_OK) (prepare_and_send_response c s ''OK'' msg)"
  using response_moves(3) [of c "''OK''"] by simp

lemma start_get_moves:
  assumes v: "c_verb c = GET"
  shows "moves (v, STATE_RECV_HEADER) (start_send_get c s)"
proof -
  obtain fd k where o: "sys_open_rdonly (filepath s (c_filename c)) (kern s) = (fd, k)" by fastforce
  obtain r k2 where st: "sys_fstat fd k = (r, k2)" by fastforce
  show ?thesis
    using arrow_then(4) [OF ok_moves] arrow_then(7) [OF error_moves]
    by (cases r) (simp_all add: start_send_get_def o st close_file_def Let_def v)
qed

lemma delete_moves:
  assumes v: "c_verb c = DELETE"
  shows "moves (v, STATE_RECV_HEADER) (delete_request c s)"
  using arrow_then(6) [OF ok_moves] arrow_then(7) [OF error_moves]
  by (auto simp: delete_request_def v split: option.splits prod.splits bool.splits)

lemma parse_moves: 
  assumes st: "c_state c = STATE_RECV_HEADER"
  shows "moves (at c) (parse_header_and_transition c s)"
proof (cases "strchr (c_header_buf c) NL")
  case None
  then show ?thesis by (simp add: parse_header_and_transition_def)
next
  case (Some i)
  obtain buf v nm where sp: "split_header (c_header_buf c) i = (buf, v, nm)" by (metis prod_cases3)
  have bad: "moves (at c) (prepare_and_send_response d s ''ERROR'' msg)" for d msg
    using arrow_then(7) [OF error_moves [OF refl]] st by simp
  have put: "arrows (at c) (PUT, STATE_RECV_PUT_SIZE)"
    using arrow.intros(1) st by auto
  note good = arrow_then(5) [OF ok_moves, of _ "c_verb c"] delete_moves start_get_moves
  show ?thesis
    unfolding parse_header_and_transition_def Some
    using bad put good st by (simp add: sp Let_def split: option.splits)
qed

lemma put_data_moves:
  assumes ok: "client_ok c" and st: "c_state c = STATE_RECV_PUT_DATA"
  shows "moves (at c) (recv_put_data c s)"
proof -
  obtain e c1 k where l: "recv_put_data_loop c (kern s) = (e, c1, k)" by (metis prod_cases3)
  have v: "c_verb c = PUT" and "c_bytes_transferred c \<le> c_expected_size c"
    using ok st by (simp_all add: client_ok_def state_ok_def)
  from put_data_loop_keeps [OF l this(2)] obtain b where c1: "c1 = c\<lparr>c_bytes_transferred := b\<rparr>" by blast
  have err: "moves (PUT, STATE_RECV_PUT_DATA) (prepare_and_send_response d s' ''ERROR'' msg)" if "c_verb d = PUT" for d s' msg
    by (rule arrow_then(9) [OF error_moves [OF that]])
  have suc: "moves (PUT, STATE_RECV_PUT_DATA) (prepare_and_send_response d s' ''OK'' msg)" if "c_verb d = PUT" for d s' msg
    by (rule arrow_then(3) [OF ok_moves [OF that]])
  obtain xr k3 where rd: "sys_read (c_fd c) 1 (sys_close (c_file_fd c) k) = (xr, k3)" by fastforce
  then show ?thesis
    using v st
    by (cases e; cases xr rule: read_cases)
       (auto simp: recv_put_data_def l c1 close_file_def Let_def err suc)
qed

lemma put_size_moves:
  assumes ok: "client_ok c" and st: "c_state c = STATE_RECV_PUT_SIZE"
  shows "moves (at c) (recv_put_size c s)"
proof -
  obtain e c1 k where l: "recv_put_size_loop c (kern s) = (e, c1, k)" by (metis prod_cases3)
  have v: "c_verb c = PUT" and b0: "c_bytes_transferred c \<le> size_len"
    using ok st by (simp_all add: client_ok_def state_ok_def)
  from put_size_loop_keeps [OF l b0] obtain x b where
    c1: "c1 = c\<lparr>c_expected_size := x, c_bytes_transferred := b\<rparr>" by blast
  obtain fd k2 where o: "sys_open_create (filepath s (c_filename c)) k = (fd, k2)" by fastforce
  have err: "moves (PUT, STATE_RECV_PUT_SIZE) (prepare_and_send_response d s' ''ERROR'' msg)" if "c_verb d = PUT" for d s' msg
    by (rule arrow_then(8) [OF error_moves [OF that]])
  let ?c = "c\<lparr>c_expected_size := x, c_bytes_transferred := 0, c_file_fd := fd, c_state := STATE_RECV_PUT_DATA\<rparr>"
  have dat: "moves (at c) (recv_put_data ?c (s\<lparr>kern := k2\<rparr>))" if "fd \<noteq> - 1"
  proof -
    have "client_ok ?c"
      using ok st v that by (simp add: client_ok_def name_ok_def response_ok_def state_ok_def)
    from put_data_moves [OF this] show ?thesis using arrow_then(2) st v by simp
  qed
  show ?thesis
    using v st dat by (cases e) (auto simp: recv_put_size_def l c1 o Let_def err)
qed

lemma read_event_moves:
  assumes ok: "client_ok c"
  shows "moves (at c) (handle_read_event c s)"
proof (cases "c_state c = STATE_RECV_HEADER")
  case False
  with ok put_size_moves put_data_moves show ?thesis by (auto simp: handle_read_event_def)
next
  case st: True
  obtain e c1 k where l: "recv_header_loop c (kern s) = (e, c1, k)" by (metis prod_cases3)
  have "length (c_header_buf c) < MAX_HEADER_LEN" using ok by (simp add: client_ok_def name_ok_def)
  from header_loop_keeps [OF l this] obtain b where c1: "c1 = c\<lparr>c_header_buf := b\<rparr>" by blast
  have bad: "moves (c_verb c, STATE_RECV_HEADER) (prepare_and_send_response d s' ''ERROR'' msg)" for d s' msg
    by (rule arrow_then(7) [OF error_moves [OF refl]])
  show ?thesis
    using parse_moves [of c1 "s\<lparr>kern := k\<rparr>"] st
    by (cases e) (auto simp: handle_read_event_def l c1 bad)
qed

lemma get_size_moves:
  assumes "c_state c = STATE_SEND_GET_SIZE" and "c_verb c = GET"
  shows "moves (at c) (send_get_size c s)"
proof -
  define c0 where "c0 = (if c_resp_len c = 0
     then c\<lparr>c_resp_buf := encode_size (c_file_size c), c_resp_len := sizeof_size_t, c_resp_sent := 0\<rparr> else c)"
  have c0: "c_state c0 = STATE_SEND_GET_SIZE" "c_verb c0 = GET" "c_fd c0 = c_fd c" using assms by (simp_all add: c0_def)
  obtain r k where w: "sys_write (c_fd c) (response_rest c0) (kern s) = (r, k)" by fastforce
  show ?thesis
  proof (cases r)
    case (Inl e)
    then show ?thesis unfolding send_get_size_def c0_def [symmetric] Let_def c0(3) w
      using assms c0 by (cases e) simp_all
  next
    case (Inr n)
    then show ?thesis unfolding send_get_size_def c0_def [symmetric] Let_def c0(3) w
      using assms c0 arrow.intros(6) by auto
  qed
qed

lemma get_data_moves:
  assumes ok: "client_ok c" and st: "c_state c = STATE_SEND_GET_DATA"
  shows "moves (at c) (send_get_data c s)"
proof -
  obtain e c1 k where l: "send_get_data_loop c (kern s) = (e, c1, k)" by (metis prod_cases3)
  have "c_bytes_transferred c \<le> c_file_size c" using ok st by (simp add: client_ok_def state_ok_def)
  from get_data_loop_keeps [OF l this] obtain b where c1: "c1 = c\<lparr>c_bytes_transferred := b\<rparr>" by blast
  show ?thesis by (cases e) (auto simp: send_get_data_def l c1)
qed

lemma list_data_moves:
  assumes st: "c_state c = STATE_SEND_LIST_DATA"
  shows "moves (at c) (send_list_data c s)"
proof -
  obtain r k where "sys_write (c_fd c) (take (c_list_len c - c_list_sent c)
      (drop (c_list_sent c) (case c_list_buf c of None \<Rightarrow> [] | Some b \<Rightarrow> b))) (kern s) = (r, k)" by fastforce
  then show ?thesis
    by (cases r; cases "projl r") (auto simp: send_list_data_def Let_def)
qed

lemma write_event_moves:
  assumes ok: "client_ok c"
  shows "moves (at c) (handle_write_event c s)"
  using response_moves(1) list_data_moves get_data_moves [OF ok] get_size_moves ok
  by (auto simp: handle_write_event_def client_ok_def state_ok_def)


subsection \<open>One event\<close>

text \<open>An event for a connection runs one of the handlers, or none.\<close>

lemma handle_event_cases:
  assumes ok: "server_ok s" and ev: "\<not> (has_bit m FSS_EVENT_READ \<and> has_bit m FSS_EVENT_WRITE)"
    and nl: "fd \<noteq> listen_fd s" and d: "dict_lookup (fd_to_client s) fd = Some p"
    and e: "handle_event (fd, m) s = Some s'"
  obtains c h where "heap s p = Some c" and "c_fd c = fd" and "held p s c s" and "client_ok c"
    and "s' = put_back p h" and "kept p fd s h" and "moves (at c) h"
proof -
  from held_start [OF ok d] obtain c where c: "heap s p = Some c" "c_fd c = fd" "held p s c s" "client_ok c"
    by blast
  have "put_back p (Some c, s) = s" using c(1) by (simp add: put_back_def fun_upd_idem)
  then have "s' = put_back p (close_and_cleanup c s) \<or> s' = put_back p (handle_read_event c s)
        \<or> s' = put_back p (handle_write_event c s) \<or> s' = put_back p (Some c, s)"
    using e ev nl d
    by (auto simp: handle_event_def dict_lookup_def c(1) split: prod.splits if_splits)
  moreover have "kept p fd s (close_and_cleanup c s)" "kept p fd s (handle_read_event c s)"
    "kept p fd s (handle_write_event c s)" "kept p fd s (Some c, s)"
    using on_error.keeps [OF c(3)] on_read.keeps [OF c(3,4)] on_write.keeps [OF c(3,4)] c by auto
  moreover have "moves (at c) (close_and_cleanup c s)" "moves (at c) (handle_read_event c s)"
    "moves (at c) (handle_write_event c s)" "moves (at c) (Some c, s)"
    using read_event_moves write_event_moves c(4) by auto
  ultimately show thesis using that [OF c] by blast
qed

lemma event_moves:
  assumes "server_ok s" and "\<not> (has_bit m FSS_EVENT_READ \<and> has_bit m FSS_EVENT_WRITE)"
    and "fd \<noteq> listen_fd s" and "dict_lookup (fd_to_client s) fd = Some p" and "heap s p = Some c"
    and "handle_event (fd, m) s = Some s'"
  shows "heap s' p = None \<and> dict_lookup (fd_to_client s') fd = None \<and> map_of (fds (kern s')) fd = None
       \<or> (\<exists>c'. heap s' p = Some c' \<and> dict_lookup (fd_to_client s') fd = Some p \<and> client_ok c' \<and> arrows (at c) (at c'))"
proof -
  from handle_event_cases [OF assms(1-4,6)] obtain c0 h where
    h: "heap s p = Some c0" "s' = put_back p h" "kept p fd s h" "moves (at c0) h" by metis
  obtain r s1 where r: "h = (r, s1)" by fastforce
  with h assms(5) show ?thesis
    by (cases r) (auto simp: put_back_def gone_def held_def)
qed

lemma event_frame:
  assumes "server_ok s" and "\<not> (has_bit m FSS_EVENT_READ \<and> has_bit m FSS_EVENT_WRITE)"
    and "fd \<noteq> listen_fd s" and "dict_lookup (fd_to_client s) fd = Some p"
    and "handle_event (fd, m) s = Some s'" 
    and "q \<noteq> p" and "heap s q = Some d"
  shows "heap s' q = Some d"
    and "dict_lookup (fd_to_client s') (c_fd d) = dict_lookup (fd_to_client s) (c_fd d)"
    and "ep_watched (kern s') (c_fd d) = ep_watched (kern s) (c_fd d)"
    and "map_of (fds (kern s')) (c_fd d) = map_of (fds (kern s)) (c_fd d)"
    and "c_file_fd d \<noteq> - 1 \<Longrightarrow> map_of (fds (kern s')) (c_file_fd d) = map_of (fds (kern s)) (c_file_fd d)"
    and "map_of (fds (kern s)) fd \<noteq> Some (OSock n) \<Longrightarrow> conns (kern s') n = conns (kern s) n"
proof -
  from handle_event_cases [OF assms(1-5)] obtain c h where
    h: "heap s p = Some c" "c_fd c = fd" "held p s c s" "s' = put_back p h" "kept p fd s h" by metis
  obtain r s1 where r: "h = (r, s1)" by fastforce
  with h(2,5) have f: "frame p fd s s1" by (cases r) (auto simp: gone_def held_def)
  have ne: "c_fd d \<noteq> fd" using held_others(1) [OF h(3) assms(6,7)] h(2) by simp
  note fr = f [unfolded frame_def] and s' = h(4) [unfolded r put_back_def prod.case]
  show "heap s' q = Some d" using fr assms(6,7) by (simp add: s')
  show "dict_lookup (fd_to_client s') (c_fd d) = dict_lookup (fd_to_client s) (c_fd d)"
    and "ep_watched (kern s') (c_fd d) = ep_watched (kern s) (c_fd d)" using fr ne by (simp_all add: s')
  show "map_of (fds (kern s')) (c_fd d) = map_of (fds (kern s)) (c_fd d)"
    and "c_file_fd d \<noteq> - 1 \<Longrightarrow> map_of (fds (kern s')) (c_file_fd d) = map_of (fds (kern s)) (c_file_fd d)"
    using fr assms(6,7) by (auto simp: s')
  show "map_of (fds (kern s)) fd \<noteq> Some (OSock n) \<Longrightarrow> conns (kern s') n = conns (kern s) n"
    using fr by (simp add: s')
qed

subsection \<open>The set-up establishes the invariant\<close>

lemma dictionary_create_empty:
  assumes "int_to_shallow_dictionary_create al = (Some d, al')"
  shows "dict_ok (Some d) \<and> dict_lookup (Some d) = Map.empty"
proof -
  from assms have "d = \<lparr>d_entries = replicate INITIAL_CAPACITY None, d_size = 0, d_capacity = INITIAL_CAPACITY\<rparr>"
    by (auto simp: int_to_shallow_dictionary_create_def dictionary_create_def Let_def split: prod.splits if_splits)
  then have "dict_ok (Some d)" and "dict_entries d = []"
    by (auto simp: dict_ok_def dict_entries_def INITIAL_CAPACITY_def)
  then show ?thesis by (auto simp: dict_lookup_map_of fun_eq_iff)
qed

lemma vector_create_empty:
  assumes "vector_create b al = (Some v, al')"
  shows "vec_ok (Some v) \<and> vec_items (Some v) = []"
  using assms
  by (auto simp: vector_create_def vec_ok_def vec_items_def INITIAL_CAPACITY_def Let_def split: prod.splits if_splits)

lemma bind_socket_listen:
  assumes "create_and_bind_socket b k = (lfd, k')" and "\<not> lfd < 0"
  shows "map_of (fds k') lfd = Some OListen"
proof -
  have "map_of (fds k1) r = Some OListen" if "bind_loop cs k = (r, k1)" and "r \<noteq> - 1" for cs r k1
    using that by (induction cs k rule: bind_loop.induct) (auto split: if_splits)
  with assms show ?thesis
    by (auto simp: create_and_bind_socket_def split: option.splits prod.splits if_splits)
qed

lemma setup_ok:
  assumes "server_setup m (initial_globals k) = (0, s)"
  shows "server_ok s \<and> running s \<and> files_of s = [] \<and> temp_dir s = mkdtemp_result m \<and> temp_dir s \<noteq> None"
proof -
  obtain v :: "string vector option" and al1 where v: "vector_create False (heap_ok k) = (v, al1)" by fastforce
  obtain d :: "nat dictionary option" and al2 where d: "int_to_shallow_dictionary_create al1 = (d, al2)" by fastforce
  let ?k1 = "k\<lparr>heap_ok := al2\<rparr>"
  obtain lfd k2 where b: "create_and_bind_socket (bind_result m) ?k1 = (lfd, k2)" by fastforce
  obtain efd k3 where c: "event_loop_create (epoll_create_ok m) k2 = (efd, k3)" by fastforce
  obtain r k4 where a: "event_loop_add efd lfd FSS_EVENT_READ k3 = (r, k4)" by fastforce
  from assms v d b c a obtain dir where dir: "mkdtemp_result m = Some dir" and v': "v \<noteq> None" and d': "d \<noteq> None"
    and l: "\<not> lfd < 0" and e: "\<not> efd < 0"
    and s: "s = \<lparr>running = True, temp_dir = Some dir, server_files = v, fd_to_client = d, event_loop_fd = efd,
          listen_fd = lfd, heap = Map.empty, next_addr = 0, console = print_temp_directory dir, kern = k4\<rparr>"
    by (auto simp: server_setup_def initial_globals_def build_temp_directory_def add_fd_to_event_loop_def
        Let_def split: option.splits if_splits)
  note lst = bind_socket_listen [OF b l]
  have efd: "efd = fresh_fd (fds k2)" and k3: "k3 = k2\<lparr>fds := (efd, OLoop) # fds k2, interest := []\<rparr>"
    using c e by (auto simp: event_loop_create_def split: if_splits)
  have ne: "lfd \<noteq> efd" using lst fresh_fd_unmapped [of "fds k2"] efd by auto
  have k4: "k4 = k3\<lparr>interest := [(lfd, to_epoll_events FSS_EVENT_READ)]\<rparr>"
    using a k3 by (auto simp: event_loop_add_def epoll_ctl_def Let_def)
  have al: "ep_alive efd k3" and unk: "\<not> ep_known k3 lfd" and sg: "epoll.single k3" and one: "one_way FSS_EVENT_READ"
    by (simp_all add: k3 ep_alive_def ep_known_def epoll.single_def ep_watched_def one_way_def)
  have "epoll.single k4" using epoll.single_add [OF al sg unk one] a by simp
  moreover have "ep_alive efd k4" using al by (simp add: k4 ep_alive_def)
  moreover have "map_of (fds k4) lfd = Some OListen" using lst ne by (simp add: k4 k3)
  moreover have "ep_known k4 g \<Longrightarrow> g = lfd" for g by (simp add: k4 ep_known_def split: if_splits)
  ultimately have "queue_ok efd lfd k4" by (auto simp: queue_ok_def)
  with v d v' d' show ?thesis
    using vector_create_empty [of False "heap_ok k"] dictionary_create_empty [of al1]
    by (auto simp: s dir server_ok_def link_ok_def files_ok_def owns_def mapped_def holds_def)
qed

end
