(* ===== verification/Fss_Demo.thy ===== *)
theory Fss_Demo
  imports Fss_Server_Machine
begin

section \<open>A concrete server\<close>

text \<open>
  The server right after its set-up, and the same server after it has accepted two
  connections whose reads and writes go as two given scripts say. The theorems with
  hypotheses are instantiated on it.
\<close>

definition demo_script :: main_script where
  "demo_script = \<lparr>mkdtemp_result = Some ''dir'',
     bind_result = \<lparr>candidates = Some [(True, True)], listen_ok = True, getfl = 2, setfl = (\<lambda>flags. 0)\<rparr>,
     epoll_create_ok = True, waits = [], final_listing = None\<rparr>"

definition demo_kernel :: "(string \<times> nat) list \<Rightarrow> byte list \<Rightarrow> rd_ev list \<Rightarrow> wr_ev list \<Rightarrow> kernel" where
  "demo_kernel ds bs r t = \<lparr>fds = [], conns = (\<lambda>n. \<lparr>rx = r, tx = t, sent = []\<rparr>), backlog = [AConn 0, AConn 1],
     dents = ds, inodes = (\<lambda>i. Regular bs), next_ino = 1, resolve = Some, disk = [],
     heap_ok = [], interest = []\<rparr>"

definition demo_start :: "(string \<times> nat) list \<Rightarrow> byte list \<Rightarrow> rd_ev list \<Rightarrow> wr_ev list \<Rightarrow> server" where
  "demo_start ds bs r t = snd (server_setup demo_script (initial_globals (demo_kernel ds bs r t)))"

definition demo_server :: "(string \<times> nat) list \<Rightarrow> byte list \<Rightarrow> rd_ev list \<Rightarrow> wr_ev list \<Rightarrow> server" where
  "demo_server ds bs r t = accept_connections (demo_start ds bs r t)"

lemma demo_setup: "server_setup demo_script (initial_globals (demo_kernel ds bs r t)) = (0, demo_start ds bs r t)"
proof -
  have "fst (server_setup demo_script (initial_globals (demo_kernel ds bs r t))) = 0"
    by code_simp
  then show ?thesis by (simp add: demo_start_def prod_eq_iff)
qed

lemma demo_start_ok: "server_ok (demo_start ds bs r t)"
  using setup_ok [OF demo_setup] by blast

lemma demo_ok: "server_ok (demo_server ds bs r t)"
  unfolding demo_server_def using accept_ok [OF demo_start_ok] by blast

lemma demo_facts [simp]:
  "listen_fd (demo_server ds bs r t) = 0"
  "heap (demo_server ds bs r t) 0 = Some (client_create 2)"
  "heap (demo_server ds bs r t) 1 = Some (client_create 3)"
  "map_of (fds (kern (demo_server ds bs r t))) 2 = Some (OSock 0)"
  "map_of (fds (kern (demo_server ds bs r t))) 3 = Some (OSock 1)"
  "disk (kern (demo_server ds bs r t)) = []" "heap_ok (kern (demo_server ds bs r t)) = []"
  "running (demo_server ds bs r t)" 
  "conns (kern (demo_server ds bs r t)) n = \<lparr>rx = r, tx = t, sent = []\<rparr>"
  "resolve (kern (demo_server ds bs r t)) x = Some x"
  "dents (kern (demo_server ds bs r t)) = ds"
  "inodes (kern (demo_server ds bs r t)) i = Regular bs"
  "temp_dir (demo_server ds bs r t) = Some ''dir''"
  "files_of (demo_server ds bs r t) = []"
  by code_simp+

lemma demo_reachable: "reachable (demo_start ds bs r t) (demo_server ds bs r t)"
proof (rule Step [OF Start Batch])
  show "running (demo_start ds bs r t)" by code_simp
  show "\<forall>raw \<in> set [(0, EPOLLIN)]. epoll_reports (kern (demo_start ds bs r t)) raw" by code_simp
  show "event_loop_wait (Inr [(0, EPOLLIN)]) = Inr [(0, FSS_EVENT_READ)]" by code_simp
  have "listen_fd (demo_start ds bs r t) = 0" by code_simp
  then show "handle_events [(0, FSS_EVENT_READ)] (demo_start ds bs r t) = Some (demo_server ds bs r t)"
    by (simp add: handle_event_def demo_server_def)
qed

lemma demo_map [simp]: "dict_lookup (fd_to_client (demo_server ds bs r t)) 2 = Some 0"
  unfolding dict_lookup_def by code_simp

end
