(* ===== verification/Fss_Client_App.thy ===== *)
theory Fss_Client_App
  imports Fss_Common Fss_Format
begin

section \<open>The command-line client (\<open>src/client.c\<close>)\<close>

text \<open>
  The argument parser, the four request handlers and \<open>main\<close>. The world of one run: the
  connected socket, what has been written to the standard output, and the local files. The
  descriptors that \<open>write_all_to_socket\<close> is applied to beside the socket, the local file and
  the standard output, are byte sinks with a write script of their own. The result \<open>None\<close> is
  a read past the end of an array. Diagnostics on the standard error stream are not modelled.
\<close>

record world =
  w_sock :: sock
  w_shut :: bool
  w_out :: "byte list"
  w_out_tx :: "wr_ev list"
  w_files :: "string \<Rightarrow> byte list option"
  w_file_tx :: "wr_ev list"
  w_create_ok :: bool
  w_alloc :: "bool list"

definition print_out :: "string \<Rightarrow> world \<Rightarrow> world" where
  "print_out msg w = w\<lparr>w_out := w_out w @ msg\<rparr>"

subsection \<open>Arguments\<close>

text \<open>\<open>strtok\<close> with the delimiter \<open>:\<close>, giving the token and where the next call resumes.\<close>

definition strtok :: "string \<Rightarrow> string option \<times> string" where
  "strtok s =
     (let s = dropWhile (\<lambda>c. c = CHR '':'') s in
      if s = [] then (None, [])
      else (Some (takeWhile (\<lambda>c. c \<noteq> CHR '':'') s), drop 1 (dropWhile (\<lambda>c. c \<noteq> CHR '':'') s)))"

definition toupper :: "char \<Rightarrow> char" where
  "toupper c =
     (let n = (of_char c :: nat) in
      if 97 \<le> n \<and> n \<le> 122 then char_of (n - 32) else c)"

text \<open>The array \<open>{host, port, method, remote, local, NULL}\<close>; \<open>argc\<close> is the length of \<open>argv\<close>.\<close>

definition parse_args :: "string list \<Rightarrow> string option list option" where
  "parse_args argv =
     (if length argv < 3 then None
      else let (host, later) = strtok (argv ! 1);
               (port, _) = strtok later in
      if port = None then None
      else Some [host, port, Some (map toupper (argv ! 2)),
                 (if length argv > 3 then Some (argv ! 3) else None),
                 (if length argv > 4 then Some (argv ! 4) else None), None])"

text \<open>The verb, or the text printed before \<open>exit(1)\<close>.\<close>

definition check_args :: "string option list option \<Rightarrow> string + verb" where
  "check_args args =
     (case args of
        None \<Rightarrow> Inl print_client_usage
      | Some a \<Rightarrow>
          (let command = a ! 2 in
           if command = Some ''LIST'' then Inr LIST
           else if command = Some ''GET'' then
             (if a ! 3 \<noteq> None \<and> a ! 4 \<noteq> None then Inr GET else Inl print_client_help)
           else if command = Some ''DELETE'' then
             (if a ! 3 \<noteq> None then Inr DELETE else Inl print_client_help)
           else if command = Some ''PUT'' then
             (if a ! 3 = None \<or> a ! 4 = None then Inl print_client_help else Inr PUT)
           else Inl print_client_help))"

subsection \<open>Requests\<close>

text \<open>\<open>snprintf\<close> into an array of 1024 bytes, and sending as many bytes as it returned.\<close>

definition send_request :: "string \<Rightarrow> world \<Rightarrow> world option" where
  "send_request line w =
     (let (text, req_len) = snprintf 1024 line in
      case write_all_to_socket (w_sock w) (text @ [NUL]) req_len of
        None \<Rightarrow> None
      | Some (_, sock) \<Rightarrow> Some (w\<lparr>w_sock := sock\<rparr>))"

definition shutdown_write :: "world \<Rightarrow> world" where
  "shutdown_write w = w\<lparr>w_shut := True\<rparr>"

definition request_line :: "string \<Rightarrow> string \<Rightarrow> string" where
  "request_line verb remote = verb @ '' '' @ remote @ [NL]"

definition status_ok :: "byte list \<Rightarrow> bool" where
  "status_ok buf \<longleftrightarrow> cstr buf = ''OK'' @ [NL]"

definition status_error :: "byte list \<Rightarrow> bool" where
  "status_error buf \<longleftrightarrow> cstr buf = ''ERROR'' @ [NL]"

text \<open>The branch for \<open>ERROR\<close>, the same in the four handlers.\<close>

definition report_error :: "world \<Rightarrow> world" where
  "report_error w =
     (let (err_len, buf, sock) = read_line_from_socket (w_sock w) 1024;
          w = w\<lparr>w_sock := sock\<rparr> in
      if err_len > 0
      then (let buf = (if last buf = NL then butlast buf else buf)
            in print_out (print_error_message (cstr buf)) w)
      else print_out print_invalid_response w)"

text \<open>What \<open>handle_put\<close> and \<open>handle_delete\<close> do with the response.\<close>

definition simple_response :: "world \<Rightarrow> world" where
  "simple_response w =
     (let (len, status, sock) = read_line_from_socket (w_sock w) 1024;
          w = w\<lparr>w_sock := sock\<rparr> in
      if len \<le> 0 then print_out print_connection_closed w
      else if status_ok status then print_out print_success w
      else if status_error status then report_error w
      else print_out print_invalid_response w)"

definition handle_delete :: "string \<Rightarrow> world \<Rightarrow> world option" where
  "handle_delete remote w =
     map_option (\<lambda>w. simple_response (shutdown_write w)) (send_request (request_line ''DELETE'' remote) w)"

subsection \<open>GET\<close>

text \<open>\<open>if (count - done < sizeof(buffer))\<close>: how much the next turn asks for.\<close>

definition piece_len :: "size_t \<Rightarrow> nat" where
  "piece_len left = (if left < 4096 then unat left else 4096)"

lemma piece_len_pos [simp]: "0 < piece_len left \<longleftrightarrow> left \<noteq> 0"
  by (auto simp: piece_len_def unat_gt_0)

lemma piece_len_le: "piece_len left \<le> unat left"
  by (auto simp: piece_len_def word_less_nat_alt not_less)

lemma read_all_loop_length:
  assumes "read_all_loop s buffer count = (r, out, s')" and "length buffer \<le> count"
  shows "length out \<le> count \<and> (r = - 1 \<or> r = int (length out))"
  using assms
proof (induction s buffer count rule: read_all_loop.induct)
  case (1 s buffer count)
  note unf = read_all_loop.simps [of s buffer count]
  show ?case
  proof (cases "length buffer < count")
    case False
    with "1.prems" show ?thesis by (auto simp: unf)
  next
    case True
    obtain r1 s1 where rd: "sock_read s (count - length buffer) = (r1, s1)" by fastforce
    show ?thesis
    proof (cases r1)
      case (Inl e)
      with "1.IH"(1) [OF True rd [symmetric]] "1.prems" True rd show ?thesis
        by (cases e) (auto simp: unf)
    next
      case (Inr bs)
      with "1.IH"(2) [OF True rd [symmetric]] "1.prems" True rd
        sock.read_progress(2) [OF _ rd [unfolded Inr]] show ?thesis
        by (cases bs) (auto simp: unf)
    qed
  qed
qed

lemma piece_decreases:
  assumes "read_all_from_socket s (piece_len (e - b)) = (r, out, s')" and "0 < r" and "b < e"
  shows "unat (e - (b + word_of_int r)) < unat (e - b)"
proof -
  have r: "r = int (length out)" "length out \<le> piece_len (e - b)"
    using read_all_loop_length [of s "[]" "piece_len (e - b)" r out s'] assms(1,2)
    by (auto simp: read_all_from_socket_def)
  have le: "length out \<le> unat (e - b)" using r(2) piece_len_le order_trans by blast
  note u = unat_of_nat_le [OF le]
  have "of_nat (length out) \<le> e - b" using le by (simp add: word_le_nat_alt u)
  then have "unat (e - b - of_nat (length out)) = unat (e - b) - length out" by (simp add: unat_sub u)
  moreover have eq: "e - (b + word_of_int r) = e - b - of_nat (length out)"
    using r(1) by (simp add: diff_diff_eq)
  moreover have "0 < unat (e - b)" using assms(3) by (simp add: unat_gt_0)
  moreover have "0 < length out" using assms(2) r(1) by simp
  ultimately show ?thesis using le unfolding eq by linarith
qed

text \<open>
  The transfer loop, with the sink that is the local file; the flag says that the loop ran
  to its end. The result of writing to the file is ignored.
\<close>

function receive_file_loop :: "size_t \<Rightarrow> size_t \<Rightarrow> sock \<Rightarrow> sock \<Rightarrow> bool \<times> sock \<times> sock" where
  "receive_file_loop file_size total_bytes_received sock file =
     (if total_bytes_received < file_size
      then (case read_all_from_socket sock (piece_len (file_size - total_bytes_received)) of
              (bytes_received, file_buffer, sock') \<Rightarrow>
                (if bytes_received \<le> 0 then (False, sock', file)
                 else receive_file_loop file_size (total_bytes_received + word_of_int bytes_received) sock'
                        (snd (write_all_loop file file_buffer 0))))
      else (True, sock, file))"
  by pat_completeness auto
termination
  by (relation "measure (\<lambda>(n, m, s, f). unat (n - m))")
     (auto dest!: sym [of _ "read_all_from_socket _ _"] dest: piece_decreases simp: not_le)

declare receive_file_loop.simps [simp del]

definition receive_file :: "string \<Rightarrow> size_t \<Rightarrow> world \<Rightarrow> world" where
  "receive_file local file_size w =
     (if \<not> w_create_ok w then w
      else case receive_file_loop file_size 0 (w_sock w) \<lparr>rx = [], tx = w_file_tx w, sent = []\<rparr> of
        (complete, sock, file) \<Rightarrow>
          (let w = w\<lparr>w_sock := sock, w_files := (w_files w)(local \<mapsto> sent file), w_file_tx := tx file\<rparr> in
           if \<not> complete then print_out print_too_little_data w
           else case sock_read (w_sock w) 1 of
             (extra_read, sock') \<Rightarrow>
               (let w = w\<lparr>w_sock := sock'\<rparr>
                in case extra_read of
                     Inr (b # bs) \<Rightarrow> print_out print_received_too_much_data w
                   | _ \<Rightarrow> w)))"

definition handle_get_response :: "string \<Rightarrow> world \<Rightarrow> world" where
  "handle_get_response local w =
     (let (len, status, sock) = read_line_from_socket (w_sock w) 1024;
          w = w\<lparr>w_sock := sock\<rparr> in
      if len \<le> 0 then print_out print_connection_closed w
      else if status_error status then report_error w
      else if status_ok status then
        (let (size_read, bytes, sock) = read_all_from_socket (w_sock w) sizeof_size_t;
             w = w\<lparr>w_sock := sock\<rparr> in
         if size_read \<noteq> int sizeof_size_t then print_out print_too_little_data w
         else receive_file local (decode_size bytes) w)
      else print_out print_invalid_response w)"

definition handle_get :: "string \<Rightarrow> string \<Rightarrow> world \<Rightarrow> world option" where
  "handle_get remote local w =
     map_option (\<lambda>w. handle_get_response local (shutdown_write w)) (send_request (request_line ''GET'' remote) w)"

subsection \<open>PUT\<close>

text \<open>\<open>fread\<close> of at most 4096 bytes until nothing is left, each piece written to the socket.\<close>

function send_file_loop :: "byte list \<Rightarrow> sock \<Rightarrow> sock" where
  "send_file_loop contents sock =
     (if contents \<noteq> []
      then send_file_loop (drop 4096 contents) (snd (write_all_loop sock (take 4096 contents) 0))
      else sock)"
  by pat_completeness auto
termination
  by (relation "measure (\<lambda>(contents, sock). length contents)") auto

declare send_file_loop.simps [simp del]

definition handle_put :: "string \<Rightarrow> string \<Rightarrow> world \<Rightarrow> world option" where
  "handle_put remote local w =
     (case w_files w local of
        None \<Rightarrow> Some w
      | Some contents \<Rightarrow>
          (let file_size = get_file_size (Some (length contents)) in
           case send_request (request_line ''PUT'' remote) w of
             None \<Rightarrow> None
           | Some w \<Rightarrow>
               (let (_, sock) = write_all_loop (w_sock w) (encode_size file_size) 0;
                    sock = send_file_loop contents sock
                in Some (simple_response (shutdown_write (w\<lparr>w_sock := sock\<rparr>))))))"

subsection \<open>LIST\<close>

definition receive_list :: "size_t \<Rightarrow> world \<Rightarrow> world" where
  "receive_list list_size w =
     (if list_size = 0 then w
      else let (ok, al) = next_alloc (w_alloc w);
               w = w\<lparr>w_alloc := al\<rparr> in
      if \<not> ok then w
      else let (list_read, list_buffer, sock) = read_all_from_socket (w_sock w) (unat list_size);
               w = w\<lparr>w_sock := sock\<rparr> in
      if list_read < 0 \<or> word_of_int list_read \<noteq> list_size then print_out print_too_little_data w
      else let (_, stdout) = write_all_loop \<lparr>rx = [], tx = w_out_tx w, sent = []\<rparr> list_buffer 0;
               w = w\<lparr>w_out := w_out w @ sent stdout, w_out_tx := tx stdout\<rparr>;
               (extra_read, sock) = sock_read (w_sock w) 1;
               w = w\<lparr>w_sock := sock\<rparr>
      in case extra_read of
           Inr (b # bs) \<Rightarrow> print_out print_received_too_much_data w
         | _ \<Rightarrow> w)"

definition handle_list :: "world \<Rightarrow> world" where
  "handle_list w =
     (let w = w\<lparr>w_sock := snd (write_all_loop (w_sock w) (''LIST'' @ [NL]) 0)\<rparr>;
          w = shutdown_write w;
          (len, status, sock) = read_line_from_socket (w_sock w) 1024;
          w = w\<lparr>w_sock := sock\<rparr> in
      if len \<le> 0 then print_out print_connection_closed w
      else if status_error status then report_error w
      else if status_ok status then
        (let (size_read, bytes, sock) = read_all_from_socket (w_sock w) sizeof_size_t;
             w = w\<lparr>w_sock := sock\<rparr> in
         if size_read \<noteq> int sizeof_size_t then print_out print_too_little_data w
         else receive_list (decode_size bytes) w)
      else print_out print_invalid_response w)"

subsection \<open>main\<close>

text \<open>Whether \<open>getaddrinfo\<close>, \<open>socket\<close> and \<open>connect\<close> succeed.\<close>

definition connect_to_server :: "bool \<Rightarrow> bool \<Rightarrow> bool \<Rightarrow> bool" where
  "connect_to_server getaddrinfo_ok socket_ok connect_ok =
     (if \<not> getaddrinfo_ok then False else if \<not> socket_ok then False else if \<not> connect_ok then False else True)"

datatype client_end = ClientExit int world | ClientCrash

definition client_main :: "string list \<Rightarrow> bool \<Rightarrow> bool \<Rightarrow> bool \<Rightarrow> world \<Rightarrow> client_end" where
  "client_main argv getaddrinfo_ok socket_ok connect_ok w =
     (let args = parse_args argv in
      case check_args args of
        Inl msg \<Rightarrow> ClientExit 1 (print_out msg w)
      | Inr command \<Rightarrow>
          (let remote_file = the (the args ! 3); local_file = the (the args ! 4) in
           if \<not> connect_to_server getaddrinfo_ok socket_ok connect_ok then ClientExit 1 w
           else (case (case command of
                    GET \<Rightarrow> handle_get remote_file local_file w
                  | PUT \<Rightarrow> handle_put remote_file local_file w
                  | DELETE \<Rightarrow> handle_delete remote_file w
                  | LIST \<Rightarrow> Some (handle_list w)
                  | V_UNKNOWN \<Rightarrow> Some w) of
                  None \<Rightarrow> ClientCrash
                | Some w \<Rightarrow> ClientExit 0 w)))"

end
