(* ===== verification/Fss_Server_Run.thy ===== *)
theory Fss_Server_Run
  imports Fss_Demo Fss_Client_App
begin

section \<open>What the loops do with the bytes of a connection\<close>

text \<open>
  The functional behaviour of the three receiving loops and of the request parser, for every
  way in which the bytes of a connection can be cut into pieces, interrupted, and delayed.
\<close>

subsection \<open>Reading the own connection\<close>

definition set_rx :: "nat \<Rightarrow> rd_ev list \<Rightarrow> kernel \<Rightarrow> kernel" where
  "set_rx n es k = k\<lparr>conns := (conns k)(n := (conns k n)\<lparr>rx := es\<rparr>)\<rparr>"

abbreviation rx_of :: "nat \<Rightarrow> kernel \<Rightarrow> rd_ev list" where
  "rx_of n k \<equiv> rx (conns k n)"

abbreviation tx_of :: "nat \<Rightarrow> kernel \<Rightarrow> wr_ev list" where
  "tx_of n k \<equiv> tx (conns k n)"

abbreviation sent_of :: "nat \<Rightarrow> kernel \<Rightarrow> byte list" where
  "sent_of n k \<equiv> sent (conns k n)"

lemma set_rx_simps [simp]:
  "fds (set_rx n es k) = fds k" "inodes (set_rx n es k) = inodes k" "dents (set_rx n es k) = dents k"
  "disk (set_rx n es k) = disk k" "heap_ok (set_rx n es k) = heap_ok k" "resolve (set_rx n es k) = resolve k"
  "next_ino (set_rx n es k) = next_ino k" "interest (set_rx n es k) = interest k"
  "rx_of n (set_rx n es k) = es" "tx_of n (set_rx n es k) = tx_of n k" "sent_of n (set_rx n es k) = sent_of n k"
  "set_rx n es (set_rx n es' k) = set_rx n es k" "set_rx n (rx_of n k) k = k"
  by (simp_all add: set_rx_def fun_upd_idem)

definition closes :: "rd_ev list \<Rightarrow> bool" where
  "closes es \<longleftrightarrow> REof \<in> set es \<or> RErr \<in> set es"

lemma recv_bytes_facts:
  assumes "0 < m" and "recv_bytes (Inl EAGAIN) es0 m = (r, es)"
  shows "closes es = closes es0"
    and "r = Inl EOTHER \<or> r = Inr [] \<Longrightarrow> arriving es0 = [] \<and> arriving es = [] \<and> closes es0
           \<and> rx_weight es \<le> rx_weight es0"
    and "r = Inl EAGAIN \<Longrightarrow> arriving es = arriving es0 \<and> (rx_weight es < rx_weight es0 \<or> es0 = [] \<and> es = [])"
  using assms by (auto simp: recv_bytes_def closes_def split: list.splits rd_ev.splits if_splits)

text \<open>One read: it takes bytes, waits, is interrupted, or finds the end.\<close>

lemma read_own:
  assumes "map_of (fds k) fd = Some (OSock n)" and "0 < m" and "sys_read fd m k = (r, k')"
  obtains es where "k' = set_rx n es k" and "closes es = closes (rx_of n k)"
    and "r = Inl EINTR \<Longrightarrow> arriving es = arriving (rx_of n k) \<and> rx_weight es < rx_weight (rx_of n k)"
    and "r = Inl EAGAIN \<Longrightarrow> arriving es = arriving (rx_of n k) \<and>
           (rx_weight es < rx_weight (rx_of n k) \<or> rx_of n k = [] \<and> es = [])"
    and "r = Inl EOTHER \<or> r = Inr [] \<Longrightarrow> arriving (rx_of n k) = [] \<and> arriving es = [] \<and> closes (rx_of n k)
           \<and> rx_weight es \<le> rx_weight (rx_of n k)"
    and "\<And>x xs. r = Inr (x # xs) \<Longrightarrow> arriving (rx_of n k) = x # xs @ arriving es \<and> length (x # xs) \<le> m
           \<and> rx_weight es < rx_weight (rx_of n k)"
proof -
  obtain es where rb: "recv_bytes (Inl EAGAIN) (rx_of n k) m = (r, es)" and k': "k' = set_rx n es k"
    using assms by (auto simp: sys_read_def set_rx_def split: prod.splits)
  note cl = recv_bytes_facts(1) [OF assms(2) rb] and oth = recv_bytes_facts(2) [OF assms(2) rb]
    and ag = recv_bytes_facts(3) [OF assms(2) rb]
  have dat: "arriving (rx_of n k) = x # xs @ arriving es \<and> length (x # xs) \<le> m
           \<and> rx_weight es < rx_weight (rx_of n k)" if "r = Inr (x # xs)" for x xs
    using nonblocking.read_data [OF assms(2) rb [unfolded that]] by simp
  have itr: "r = Inl EINTR \<Longrightarrow> arriving es = arriving (rx_of n k) \<and> rx_weight es < rx_weight (rx_of n k)"
    using nonblocking.read_fail nonblocking.read_intr rb by blast
  show thesis using that [OF k' cl itr ag oth dat] by blast
qed

subsection \<open>The request line\<close>

lemma header_loop_run:
  assumes "map_of (fds k) (c_fd c) = Some (OSock n)"
    and "arriving (rx_of n k) = line @ NL # later" and "NL \<notin> set line"
    and "length (c_header_buf c) + length line + 1 < MAX_HEADER_LEN"
  shows "\<exists>es. rx_weight es < rx_weight (rx_of n k) \<and> closes es = closes (rx_of n k) \<and>
      (recv_header_loop c k = (HeaderLine, c\<lparr>c_header_buf := c_header_buf c @ line @ [NL]\<rparr>, set_rx n es k)
         \<and> arriving es = later
       \<or> (\<exists>a b. line = a @ b \<and> arriving es = b @ NL # later \<and>
            recv_header_loop c k = (HeaderWait, c\<lparr>c_header_buf := c_header_buf c @ a\<rparr>, set_rx n es k)))"
  using assms
proof (induction c k arbitrary: line rule: recv_header_loop.induct)
  case (1 c k)
  have room: "length (c_header_buf c) < MAX_HEADER_LEN - 1" using "1.prems"(4) by simp
  note unf = recv_header_loop.simps [of c k, unfolded if_P [OF room]]
  obtain r k1 where rd: "sys_read (c_fd c) 1 k = (r, k1)" by fastforce
  note unf = unf [unfolded rd prod.case]
  obtain es1 where
    k1: "k1 = set_rx n es1 k" and cl: "closes es1 = closes (rx_of n k)"
    and itr: "r = Inl EINTR \<Longrightarrow> arriving es1 = arriving (rx_of n k) \<and> rx_weight es1 < rx_weight (rx_of n k)"
    and ag: "r = Inl EAGAIN \<Longrightarrow> arriving es1 = arriving (rx_of n k) \<and>
           (rx_weight es1 < rx_weight (rx_of n k) \<or> rx_of n k = [] \<and> es1 = [])"
    and oth: "r = Inl EOTHER \<or> r = Inr [] \<Longrightarrow> arriving (rx_of n k) = [] \<and> arriving es1 = [] \<and> closes (rx_of n k)
           \<and> rx_weight es1 \<le> rx_weight (rx_of n k)"
    and dat: "\<And>x xs. r = Inr (x # xs) \<Longrightarrow> arriving (rx_of n k) = x # xs @ arriving es1 \<and> length (x # xs) \<le> 1
           \<and> rx_weight es1 < rx_weight (rx_of n k)"
    by (rule read_own [OF "1.prems"(1) zero_less_one rd]) (rule that; assumption)
  have ne: "arriving (rx_of n k) \<noteq> []" using "1.prems"(2) by simp
  show ?case
  proof (cases r rule: read_cases)
    case 1
    have rx1: "rx_of n k1 = es1" and st: "set_rx n es k1 = set_rx n es k" for es using k1 by simp_all
    have ar: "arriving es1 = line @ NL # later" and fd: "map_of (fds k1) (c_fd c) = Some (OSock n)"
      using itr [OF 1] "1.prems"(1,2) k1 by simp_all
    have eq: "recv_header_loop c k = recv_header_loop c k1" by (simp add: unf 1)
    from "1.IH"(1) [OF room rd [symmetric] 1 refl fd _ "1.prems"(3,4), unfolded rx1 st, OF ar]
    obtain es where "rx_weight es < rx_weight es1" "closes es = closes es1" and
      run: "recv_header_loop c k1 = (HeaderLine, c\<lparr>c_header_buf := c_header_buf c @ line @ [NL]\<rparr>, set_rx n es k)
         \<and> arriving es = later
       \<or> (\<exists>a b. line = a @ b \<and> arriving es = b @ NL # later \<and>
            recv_header_loop c k1 = (HeaderWait, c\<lparr>c_header_buf := c_header_buf c @ a\<rparr>, set_rx n es k))"
      by blast
    moreover have "rx_weight es1 < rx_weight (rx_of n k)" using itr [OF 1] by simp
    ultimately show ?thesis unfolding eq using cl by (intro exI [of _ es] conjI run) simp_all
  next
    case 2
    with ag ne have "rx_weight es1 < rx_weight (rx_of n k)" "arriving es1 = line @ NL # later"
      using "1.prems"(2) by auto
    then show ?thesis using cl k1
      by (intro exI [of _ es1] conjI disjI2 exI [of _ "[]"] exI [of _ line]) (auto simp: unf 2)
  next
    case 3
    with oth ne show ?thesis by simp
  next
    case 4
    with oth ne show ?thesis by simp
  next
    case (5 x xs)
    note d = dat [OF 5]
    then have xs: "xs = []" and ar: "arriving (rx_of n k) = x # arriving es1" by simp_all
    show ?thesis
    proof (cases "x = NL")
      case True
      with ar "1.prems"(2,3) have "line = []" "later = arriving es1" by (cases line; auto)+
      then show ?thesis using True 5 cl k1 d by (intro exI [of _ es1]) (simp add: unf)
    next
      case False
      with ar "1.prems"(2) obtain l where l: "line = x # l" "arriving es1 = l @ NL # later"
        by (cases line) auto
      let ?c = "c\<lparr>c_header_buf := c_header_buf c @ [x]\<rparr>"
      have rx1: "rx_of n k1 = es1" and st: "set_rx n es k1 = set_rx n es k" for es using k1 by simp_all
      have cc: "?c\<lparr>c_header_buf := c_header_buf ?c @ z\<rparr> = c\<lparr>c_header_buf := c_header_buf c @ x # z\<rparr>" for z by simp
      have fd: "map_of (fds k1) (c_fd ?c) = Some (OSock n)" using "1.prems"(1) k1 by simp
      have nl: "NL \<notin> set l" and room': "length (c_header_buf ?c) + length l + 1 < MAX_HEADER_LEN"
        using "1.prems"(3,4) l(1) by simp_all
      have eq: "recv_header_loop c k = recv_header_loop ?c k1" using False by (simp add: unf 5)
      from "1.IH"(2) [OF room rd [symmetric] 5 refl refl False fd _ nl room', unfolded rx1 st cc, OF l(2)]
      obtain es where w: "rx_weight es < rx_weight es1" and ce: "closes es = closes es1" and
        run: "recv_header_loop ?c k1 = (HeaderLine, c\<lparr>c_header_buf := c_header_buf c @ x # l @ [NL]\<rparr>, set_rx n es k)
           \<and> arriving es = later
         \<or> (\<exists>a b. l = a @ b \<and> arriving es = b @ NL # later \<and>
              recv_header_loop ?c k1 = (HeaderWait, c\<lparr>c_header_buf := c_header_buf c @ x # a\<rparr>, set_rx n es k))"
        by blast
      have "recv_header_loop ?c k1 = (HeaderLine, c\<lparr>c_header_buf := c_header_buf c @ line @ [NL]\<rparr>, set_rx n es k)
           \<and> arriving es = later
         \<or> (\<exists>a b. line = a @ b \<and> arriving es = b @ NL # later \<and>
              recv_header_loop ?c k1 = (HeaderWait, c\<lparr>c_header_buf := c_header_buf c @ a\<rparr>, set_rx n es k))"
        using run
      proof (elim disjE exE conjE)
        fix a b assume "l = a @ b" "arriving es = b @ NL # later"
          "recv_header_loop ?c k1 = (HeaderWait, c\<lparr>c_header_buf := c_header_buf c @ x # a\<rparr>, set_rx n es k)"
        then show ?thesis using l(1) by (intro disjI2 exI [of _ "x # a"] exI [of _ b]) simp
      qed (simp add: l(1))
      then show ?thesis unfolding eq using d cl w ce by (intro exI [of _ es] conjI) simp_all
    qed
  qed
qed


text \<open>The verb and the file name are what stands before and behind the first blank.\<close>

definition verb_of :: "string \<Rightarrow> string" where
  "verb_of line = takeWhile (\<lambda>c. c \<noteq> CHR '' '') line"

definition name_of :: "string \<Rightarrow> string option" where
  "name_of line = (if CHR '' '' \<in> set line then Some (drop 1 (dropWhile (\<lambda>c. c \<noteq> CHR '' '') line)) else None)"

lemma verb_name_of:
  assumes "CHR '' '' \<notin> set v"
  shows "verb_of (v @ CHR '' '' # f) = v" and "name_of (v @ CHR '' '' # f) = Some f"
    and "verb_of v = v" and "name_of v = None"
proof -
  have "takeWhile (\<lambda>c. c \<noteq> CHR '' '') (v @ CHR '' '' # f) = v"
    and d: "dropWhile (\<lambda>c. c \<noteq> CHR '' '') (v @ CHR '' '' # f) = CHR '' '' # f"
    and "takeWhile (\<lambda>c. c \<noteq> CHR '' '') v = v"
    using assms by (induction v) auto
  then show "verb_of (v @ CHR '' '' # f) = v" and "verb_of v = v"
    by (simp_all only: verb_of_def)
  show "name_of (v @ CHR '' '' # f) = Some f" using d by (simp add: name_of_def)
  show "name_of v = None" using assms by (simp add: name_of_def)
qed

lemma split_header_blank:
  assumes "CHR '' '' \<notin> set v" and "NUL \<notin> set v" and "NUL \<notin> set f"
  shows "snd (split_header (v @ CHR '' '' # f @ [NL]) (length (v @ CHR '' '' # f))) = (v, Some f)"
proof -
  define sp where "sp = CHR '' ''"
  have u1: "(v @ sp # f @ [NL])[length (v @ sp # f) := NUL] = v @ sp # f @ [NUL]"
    by (metis append_Cons append_assoc list_update_length)
  have st: "strchr (v @ sp # f @ [NUL]) sp = Some (length v)"
    using strchr_first [of sp v] assms(1,2) by (simp add: sp_def)
  have u2: "(v @ sp # f @ [NUL])[length v := NUL] = v @ NUL # f @ [NUL]"
    by (rule list_update_length)
  have c1: "cstr (v @ NUL # f @ [NUL]) = v" using cstr_stop [OF assms(2)] .
  have c2: "cstr (drop (length v + 1) (v @ NUL # f @ [NUL])) = f"
    using cstr_stop [OF assms(3), of "[]"] by simp
  show ?thesis
    unfolding split_header_def Let_def sp_def [symmetric] u1 st option.case u2 c1 c2 by simp
qed

lemma split_header_plain:
  assumes "CHR '' '' \<notin> set v" and "NUL \<notin> set v"
  shows "snd (split_header (v @ [NL]) (length v)) = (v, None)"
proof -
  have u1: "(v @ [NL])[length v := NUL] = v @ [NUL]" by (rule list_update_length)
  have st: "strchr (v @ [NUL]) CHR '' '' = None" by (rule strchr_absent_nul [OF assms]) simp
  have c1: "cstr (v @ [NUL]) = v" using cstr_stop [OF assms(2)] .
  show ?thesis unfolding split_header_def Let_def u1 st option.case c1 by simp
qed

lemma split_header_line:
  assumes "NUL \<notin> set line" and "NL \<notin> set line"
  shows "strchr (line @ [NL]) NL = Some (length line)"
    and "snd (split_header (line @ [NL]) (length line)) = (verb_of line, name_of line)"
proof -
  show "strchr (line @ [NL]) NL = Some (length line)" using strchr_first [OF assms(2,1)] .
  show "snd (split_header (line @ [NL]) (length line)) = (verb_of line, name_of line)"
  proof (cases "CHR '' '' \<in> set line")
    case False
    then show ?thesis using split_header_plain [OF False assms(1)] verb_name_of(3,4) by simp
  next
    case True
    then obtain v f where l: "line = v @ CHR '' '' # f" and v: "CHR '' '' \<notin> set v"
      by (meson split_list_first)
    with assms(1) have "NUL \<notin> set v" "NUL \<notin> set f" by auto
    from split_header_blank [OF v this] show ?thesis
      unfolding l verb_name_of(1,2) [OF v] by simp
  qed
qed

subsection \<open>The size\<close>

lemma poke_size_take:
  assumes "j + length bs \<le> sizeof_size_t"
  shows "take (j + length bs) (encode_size (poke_size w j bs)) = take j (encode_size w) @ bs"
proof -
  have "length (take j (encode_size w) @ bs) = j + length bs" using assms by simp
  then show ?thesis unfolding encode_poke_size [OF assms]
    by (metis append_assoc append_eq_conv_conj)
qed

lemma put_size_loop_run:
  assumes "map_of (fds k) (c_fd c) = Some (OSock n)" and "c_bytes_transferred c \<le> size_len"
    and "take (unat (c_bytes_transferred c)) (encode_size (c_expected_size c)) @ arriving (rx_of n k)
           = encode_size w @ later"
  shows "\<exists>es x b e. recv_put_size_loop c k = (e, c\<lparr>c_expected_size := x, c_bytes_transferred := b\<rparr>, set_rx n es k)
      \<and> closes es = closes (rx_of n k) \<and> rx_weight es \<le> rx_weight (rx_of n k)
      \<and> (e = LoopOver \<and> x = w \<and> b = size_len \<and> arriving es = later
         \<or> e = LoopWait \<and> b < size_len \<and> rx_weight es < rx_weight (rx_of n k)
           \<and> take (unat b) (encode_size x) @ arriving es = encode_size w @ later)"
  using assms
proof (induction c k rule: recv_put_size_loop.induct)
  case (1 c k)
  let ?b = "c_bytes_transferred c" and ?x = "c_expected_size c"
  show ?case
  proof (cases "?b < size_len")
    case False
    with "1.prems"(2) have b: "?b = size_len" by simp
    then have "take (unat ?b) (encode_size ?x) = encode_size ?x" by (simp add: size_len_unat)
    with "1.prems"(3) have "encode_size ?x = encode_size w" "arriving (rx_of n k) = later"
      by (simp_all add: append_eq_append_conv)
    then have "?x = w" by (metis decode_encode_size)
    then show ?thesis using b \<open>arriving _ = later\<close>
      by (intro exI [of _ "rx_of n k"] exI [of _ w] exI [of _ size_len] exI [of _ LoopOver])
         (auto simp: recv_put_size_loop.simps [of c k])
  next
    case True
    note unf = recv_put_size_loop.simps [of c k, unfolded if_P [OF True]]
    let ?want = "unat (size_len - ?b)"
    have pos: "0 < ?want" using True by (simp add: unat_gt_0)
    have j: "unat ?b < sizeof_size_t" using True by (simp add: word_less_nat_alt size_len_unat)
    obtain r k1 where rd: "sys_read (c_fd c) ?want k = (r, k1)" by fastforce
    note unf = unf [unfolded rd prod.case]
    obtain es1 where
      k1: "k1 = set_rx n es1 k" and cl: "closes es1 = closes (rx_of n k)"
      and itr: "r = Inl EINTR \<Longrightarrow> arriving es1 = arriving (rx_of n k) \<and> rx_weight es1 < rx_weight (rx_of n k)"
      and ag: "r = Inl EAGAIN \<Longrightarrow> arriving es1 = arriving (rx_of n k) \<and>
             (rx_weight es1 < rx_weight (rx_of n k) \<or> rx_of n k = [] \<and> es1 = [])"
      and oth: "r = Inl EOTHER \<or> r = Inr [] \<Longrightarrow> arriving (rx_of n k) = [] \<and> arriving es1 = [] \<and> closes (rx_of n k)
           \<and> rx_weight es1 \<le> rx_weight (rx_of n k)"
      and dat: "\<And>x xs. r = Inr (x # xs) \<Longrightarrow> arriving (rx_of n k) = x # xs @ arriving es1 \<and> length (x # xs) \<le> ?want
             \<and> rx_weight es1 < rx_weight (rx_of n k)"
      by (rule read_own [OF "1.prems"(1) pos rd]) (rule that; assumption)
    have ne: "arriving (rx_of n k) \<noteq> []"
    proof
      assume "arriving (rx_of n k) = []"
      then have "length (take (unat ?b) (encode_size ?x)) = length (encode_size w @ later)"
        using "1.prems"(3) by simp
      with j show False by simp
    qed
    show ?thesis
    proof (cases r rule: read_cases)
      case 1
      from "1.IH"(1) [OF True rd [symmetric] 1 refl] "1.prems" itr [OF 1] k1
      obtain es x b e where w: "rx_weight es \<le> rx_weight es1" and cl1: "closes es = closes es1" and
        run: "recv_put_size_loop c k1 = (e, c\<lparr>c_expected_size := x, c_bytes_transferred := b\<rparr>, set_rx n es k1)"
        and fin: "e = LoopOver \<and> x = w \<and> b = size_len \<and> arriving es = later
         \<or> e = LoopWait \<and> b < size_len \<and> rx_weight es < rx_weight es1
           \<and> take (unat b) (encode_size x) @ arriving es = encode_size w @ later"
        by auto
      have "recv_put_size_loop c k = (e, c\<lparr>c_expected_size := x, c_bytes_transferred := b\<rparr>, set_rx n es k)"
        using run by (simp add: unf 1 k1)
      moreover have "rx_weight es1 < rx_weight (rx_of n k)" using itr [OF 1] by simp
      ultimately show ?thesis using w cl cl1 fin
        by (intro exI [of _ es] exI [of _ x] exI [of _ b] exI [of _ e]) linarith
    next
      case 2
      with ag ne have "rx_weight es1 < rx_weight (rx_of n k)" "arriving es1 = arriving (rx_of n k)" by auto
      then show ?thesis using cl k1 True "1.prems"(3)
        by (intro exI [of _ es1] exI [of _ ?x] exI [of _ ?b] exI [of _ LoopWait]) (simp add: unf 2)
    next
      case 3
      with oth ne show ?thesis by simp
    next
      case 4
      with oth ne show ?thesis by simp
    next
      case (5 y ys)
      define bs where "bs = y # ys"
      note d = dat [OF 5]
      have ar: "arriving (rx_of n k) = bs @ arriving es1" and le: "length bs \<le> ?want" using d by (simp_all add: bs_def)
      let ?x1 = "poke_size ?x (unat ?b) bs" and ?b1 = "?b + of_nat (length bs)"
      let ?c1 = "c\<lparr>c_expected_size := ?x1, c_bytes_transferred := ?b1\<rparr>"
      note adv = word_advance [OF "1.prems"(2) le]
      have "unat ?b + length bs \<le> sizeof_size_t"
        using adv(2) by (simp add: word_le_nat_alt adv(1) size_len_unat)
      from poke_size_take [OF this, of ?x] "1.prems"(3) ar
      have cont: "take (unat (c_bytes_transferred ?c1)) (encode_size (c_expected_size ?c1)) @ arriving (rx_of n k1)
              = encode_size w @ later"
        by (simp add: adv(1) k1)
      have f1: "map_of (fds k1) (c_fd ?c1) = Some (OSock n)" using "1.prems"(1) k1 by simp
      have b1: "c_bytes_transferred ?c1 \<le> size_len" using adv(2) by simp
      from "1.IH"(2) [OF True rd [symmetric] 5 refl, folded bs_def, OF f1 b1 cont]
      obtain es x b e where w: "rx_weight es \<le> rx_weight es1" and cl1: "closes es = closes es1" and
        run: "recv_put_size_loop ?c1 k1 = (e, ?c1\<lparr>c_expected_size := x, c_bytes_transferred := b\<rparr>, set_rx n es k1)"
        and fin: "e = LoopOver \<and> x = w \<and> b = size_len \<and> arriving es = later
         \<or> e = LoopWait \<and> b < size_len \<and> rx_weight es < rx_weight es1
           \<and> take (unat b) (encode_size x) @ arriving es = encode_size w @ later"
        by (auto simp: k1)
      have "recv_put_size_loop c k = (e, c\<lparr>c_expected_size := x, c_bytes_transferred := b\<rparr>, set_rx n es k)"
        using run by (simp add: unf 5 bs_def k1 del: of_nat_Suc)
      moreover have "rx_weight es1 < rx_weight (rx_of n k)" using d by simp
      ultimately show ?thesis using w cl cl1 fin
        by (intro exI [of _ es] exI [of _ x] exI [of _ b] exI [of _ e]) linarith
    qed
  qed
qed


subsection \<open>The data of an upload\<close>

text \<open>
  Whatever has arrived, up to the announced size, is appended to the file; the loop is over
  exactly when the announced size is reached, waits when nothing more has arrived, and
  fails only when the peer has closed.
\<close>

definition set_file :: "nat \<Rightarrow> byte list \<Rightarrow> kernel \<Rightarrow> kernel" where
  "set_file i bs k = k\<lparr>inodes := (inodes k)(i := Regular bs)\<rparr>"

lemma set_file_simps [simp]:
  "fds (set_file i bs k) = fds k" "conns (set_file i bs k) = conns k" "dents (set_file i bs k) = dents k"
  "disk (set_file i bs k) = disk k" "heap_ok (set_file i bs k) = heap_ok k" "resolve (set_file i bs k) = resolve k"
  "next_ino (set_file i bs k) = next_ino k" "interest (set_file i bs k) = interest k"
  "inodes (set_file i bs k) = (inodes k)(i := Regular bs)" "set_file i bs (set_file i bs' k) = set_file i bs k"
  "set_rx n es (set_file i bs k) = set_file i bs (set_rx n es k)"
  by (simp_all add: set_file_def set_rx_def)

lemma set_file_same: "inodes k i = Regular bs \<Longrightarrow> set_file i bs k = k"
  by (simp add: set_file_def fun_upd_idem)

lemma pwrite_append:
  assumes "map_of (fds k) f = Some (OFile i)" and "inodes k i = Regular pre" and "disk k = []"
  shows "sys_pwrite f bs (length pre) k = (Inr (length bs), set_file i (pre @ bs) k)"
  using assms by (simp add: sys_pwrite_def next_disk_def splice_def set_file_def)

lemma put_data_loop_run:
  assumes "map_of (fds k) (c_fd c) = Some (OSock n)" and "map_of (fds k) (c_file_fd c) = Some (OFile i)"
    and "inodes k i = Regular pre" and "disk k = []"
    and "unat (c_bytes_transferred c) = length pre" and "c_bytes_transferred c \<le> c_expected_size c"
  shows "\<exists>es e m. recv_put_data_loop c k
          = (e, c\<lparr>c_bytes_transferred := of_nat (length pre + m)\<rparr>,
             set_file i (pre @ take m (arriving (rx_of n k))) (set_rx n es k))
      \<and> closes es = closes (rx_of n k) \<and> rx_weight es \<le> rx_weight (rx_of n k)
      \<and> m \<le> length (arriving (rx_of n k)) \<and> length pre + m \<le> unat (c_expected_size c)
      \<and> arriving es = drop m (arriving (rx_of n k))
      \<and> (e = LoopOver \<longleftrightarrow> length pre + m = unat (c_expected_size c))
      \<and> (e = LoopFail \<longrightarrow> arriving es = [] \<and> closes (rx_of n k))
      \<and> (e = LoopWait \<longrightarrow> rx_weight es < rx_weight (rx_of n k) \<or> arriving es = [] \<and> \<not> closes es)"
  using assms
proof (induction c k arbitrary: pre rule: recv_put_data_loop.induct)
  case (1 c k)
  let ?b = "c_bytes_transferred c" and ?e = "c_expected_size c"
  have b: "?b = of_nat (length pre)" by (simp flip: "1.prems"(5))
  have here: ?case if "recv_put_data_loop c k = (e, c, set_rx n es k)"
      "closes es = closes (rx_of n k)" "rx_weight es \<le> rx_weight (rx_of n k)"
      "arriving es = arriving (rx_of n k)" "e = LoopOver \<longleftrightarrow> length pre = unat ?e"
      "e = LoopFail \<Longrightarrow> arriving es = [] \<and> closes (rx_of n k)"
      "e = LoopWait \<Longrightarrow> rx_weight es < rx_weight (rx_of n k) \<or> arriving es = [] \<and> \<not> closes es" for e es
    using that "1.prems"(5,6) set_file_same [OF "1.prems"(3)] b [symmetric]
    by (intro exI [of _ es] exI [of _ e] exI [of _ 0]) (simp add: set_file_same "1.prems"(3) word_le_nat_alt)
  show ?case
  proof (cases "?b < ?e")
    case False
    with "1.prems"(6) have "?b = ?e" by simp
    then show ?thesis using "1.prems"(5)
      by (intro here [of LoopOver "rx_of n k"]) (simp_all add: recv_put_data_loop.simps [of c k])
  next
    case True
    note unf = recv_put_data_loop.simps [of c k, unfolded if_P [OF True]]
    let ?want = "chunk_len (?e - ?b)"
    have pos: "0 < ?want" using True by auto
    have lt: "length pre < unat ?e" using True "1.prems"(5) by (simp add: word_less_nat_alt)
    obtain r k1 where rd: "sys_read (c_fd c) ?want k = (r, k1)" by fastforce
    note unf = unf [unfolded rd prod.case]
    obtain es1 where
      k1: "k1 = set_rx n es1 k" and cl: "closes es1 = closes (rx_of n k)"
      and itr: "r = Inl EINTR \<Longrightarrow> arriving es1 = arriving (rx_of n k) \<and> rx_weight es1 < rx_weight (rx_of n k)"
      and ag: "r = Inl EAGAIN \<Longrightarrow> arriving es1 = arriving (rx_of n k) \<and>
             (rx_weight es1 < rx_weight (rx_of n k) \<or> rx_of n k = [] \<and> es1 = [])"
      and oth: "r = Inl EOTHER \<or> r = Inr [] \<Longrightarrow> arriving (rx_of n k) = [] \<and> arriving es1 = [] \<and> closes (rx_of n k)
           \<and> rx_weight es1 \<le> rx_weight (rx_of n k)"
      and dat: "\<And>x xs. r = Inr (x # xs) \<Longrightarrow> arriving (rx_of n k) = x # xs @ arriving es1 \<and> length (x # xs) \<le> ?want
             \<and> rx_weight es1 < rx_weight (rx_of n k)"
      by (rule read_own [OF "1.prems"(1) pos rd]) (rule that; assumption)
    consider "r = Inl EINTR" | "r = Inl EAGAIN" | "r = Inl EOTHER \<or> r = Inr []" | x xs where "r = Inr (x # xs)"
      by (cases r rule: read_cases) auto
    then show ?thesis
    proof cases
      case 1
      have p: "map_of (fds k1) (c_fd c) = Some (OSock n)" "map_of (fds k1) (c_file_fd c) = Some (OFile i)"
        "inodes k1 i = Regular pre" "disk k1 = []" using "1.prems" k1 by simp_all
      note ih = "1.IH"(1) [OF True rd [symmetric] 1 refl p "1.prems"(5,6)]
      have eq: "recv_put_data_loop c k = recv_put_data_loop c k1" by (simp add: unf 1)
      have rx1: "rx_of n k1 = es1" and st: "set_rx n es k1 = set_rx n es k" for es using k1 by simp_all
      have w: "rx_weight es1 < rx_weight (rx_of n k)" and ar: "arriving (rx_of n k) = arriving es1"
        using itr [OF 1] by simp_all
      from ih obtain es e m where
        run: "recv_put_data_loop c k1 = (e, c\<lparr>c_bytes_transferred := of_nat (length pre + m)\<rparr>,
             set_file i (pre @ take m (arriving es1)) (set_rx n es k))"
        and o: "closes es = closes es1" "rx_weight es \<le> rx_weight es1" "m \<le> length (arriving es1)"
          "length pre + m \<le> unat ?e" "arriving es = drop m (arriving es1)"
          "e = LoopOver \<longleftrightarrow> length pre + m = unat ?e" "e = LoopFail \<longrightarrow> arriving es = [] \<and> closes es1"
          "e = LoopWait \<longrightarrow> rx_weight es < rx_weight es1 \<or> arriving es = [] \<and> \<not> closes es"
        unfolding rx1 st by blast
      show ?thesis
        using o cl w run
        by (intro exI [of _ es] exI [of _ e] exI [of _ m] conjI) (simp_all add: eq ar)
    next
      case 2
      have "rx_weight es1 < rx_weight (rx_of n k) \<or> rx_of n k = [] \<and> es1 = []" "arriving es1 = arriving (rx_of n k)"
        using ag [OF 2] by auto
      then show ?thesis using lt cl k1
        by (intro here [of LoopWait es1]) (auto simp: unf 2 closes_def)
    next
      case 3
      then show ?thesis using oth [OF 3] lt cl k1 by (intro here [of LoopFail es1]) (auto simp: unf)
    next
      case (4 y ys)
      define bs where "bs = y # ys"
      note d = dat [OF 4]
      have ar: "arriving (rx_of n k) = bs @ arriving es1" and le: "length bs \<le> ?want" using d by (simp_all add: bs_def)
      let ?c1 = "c\<lparr>c_bytes_transferred := ?b + of_nat (length bs)\<rparr>"
      let ?k2 = "set_file i (pre @ bs) k1"
      note adv = chunk_advance [OF True le]
      have pw: "sys_pwrite (c_file_fd c) bs (unat ?b) k1 = (Inr (length bs), ?k2)"
        using pwrite_append [of k1 "c_file_fd c" i pre bs] "1.prems" k1 by simp
      have eq: "recv_put_data_loop c k = recv_put_data_loop ?c1 ?k2"
        using pw by (simp add: unf 4 bs_def del: of_nat_Suc)
      have p: "map_of (fds ?k2) (c_fd ?c1) = Some (OSock n)" "map_of (fds ?k2) (c_file_fd ?c1) = Some (OFile i)"
        "inodes ?k2 i = Regular (pre @ bs)" "disk ?k2 = []"
        "unat (c_bytes_transferred ?c1) = length (pre @ bs)" "c_bytes_transferred ?c1 \<le> c_expected_size ?c1"
        using "1.prems" k1 adv by simp_all
      have nw: "\<not> Inr (length bs) \<noteq> (Inr (length bs) :: errno + nat)" by simp
      note ih = "1.IH"(2) [OF True rd [symmetric] 4 refl, folded bs_def, OF pw [symmetric] nw p]
      have rx2: "rx_of n ?k2 = es1" using k1 by simp
      have ce: "c_expected_size ?c1 = ?e" by simp
      from ih [unfolded rx2 ce] obtain es e m where
        run: "recv_put_data_loop ?c1 ?k2 = (e, ?c1\<lparr>c_bytes_transferred := of_nat (length (pre @ bs) + m)\<rparr>,
             set_file i ((pre @ bs) @ take m (arriving es1)) (set_rx n es ?k2))"
        and o: "closes es = closes es1" "rx_weight es \<le> rx_weight es1" "m \<le> length (arriving es1)"
          "length (pre @ bs) + m \<le> unat ?e" "arriving es = drop m (arriving es1)"
          "e = LoopOver \<longleftrightarrow> length (pre @ bs) + m = unat ?e"
          "e = LoopFail \<longrightarrow> arriving es = [] \<and> closes es1"
          "e = LoopWait \<longrightarrow> rx_weight es < rx_weight es1 \<or> arriving es = [] \<and> \<not> closes es"
        by blast
      have run': "recv_put_data_loop c k
          = (e, c\<lparr>c_bytes_transferred := of_nat (length pre + (length bs + m))\<rparr>,
             set_file i (pre @ take (length bs + m) (arriving (rx_of n k))) (set_rx n es k))"
        unfolding eq run by (simp add: k1 ar add.assoc)
      show ?thesis
        using o cl d
        by (intro exI [of _ es] exI [of _ e] exI [of _ "length bs + m"] conjI run') (auto simp: ar)
    qed
  qed
qed

end
