(* ===== verification/Fss_Server_Send.thy ===== *)
theory Fss_Server_Send
  imports Fss_Server_Run
begin

section \<open>Sending\<close>

text \<open>
  A reply is delivered completely and in order by any sequence of write events that is long
  enough, whatever part of it each \<open>write\<close> takes and however often the socket is full. One
  invariant covers the five sending states: what has been sent, followed by what the state
  still owes, is the whole reply.
\<close>

subsection \<open>Writing to the own connection\<close>

definition set_tx :: "nat \<Rightarrow> wr_ev list \<Rightarrow> byte list \<Rightarrow> kernel \<Rightarrow> kernel" where
  "set_tx n ts out k = k\<lparr>conns := (conns k)(n := (conns k n)\<lparr>tx := ts, sent := out\<rparr>)\<rparr>"

lemma set_tx_simps [simp]:
  "fds (set_tx n ts out k) = fds k" "inodes (set_tx n ts out k) = inodes k" "dents (set_tx n ts out k) = dents k"
  "disk (set_tx n ts out k) = disk k" "heap_ok (set_tx n ts out k) = heap_ok k" "resolve (set_tx n ts out k) = resolve k"
  "interest (set_tx n ts out k) = interest k" "next_ino (set_tx n ts out k) = next_ino k"
  "rx_of n (set_tx n ts out k) = rx_of n k" "tx_of n (set_tx n ts out k) = ts" "sent_of n (set_tx n ts out k) = out"
  by (simp_all add: set_tx_def)

text \<open>The socket may be full now and then, but the connection does not break.\<close>

definition tx_fair :: "wr_ev list \<Rightarrow> bool" where
  "tx_fair ts \<longleftrightarrow> WErr \<notin> set ts \<and> WIntr \<notin> set ts"

lemma write_own:
  assumes "map_of (fds k) fd = Some (OSock n)" and "bs \<noteq> []" and "tx_fair (tx_of n k)"
    and "sys_write fd bs k = (r, k')"
  obtains (some) m ts where "r = Inr m" and "0 < m" and "m \<le> length bs" and "tx_fair ts"
      and "k' = set_tx n ts (sent_of n k @ take m bs) k"
      and "length ts + length (drop m bs) < length (tx_of n k) + length bs"
      and "length ts < length (tx_of n k) \<or> m = length bs" and "length ts \<le> length (tx_of n k)"
  | (full) ts where "r = Inl EAGAIN" and "tx_fair ts" and "k' = set_tx n ts (sent_of n k) k"
      and "length ts < length (tx_of n k)"
proof (cases "tx_of n k")
  case Nil
  show thesis
  proof (rule some)
    show "r = Inr (length bs)" "0 < length bs" "length bs \<le> length bs" "tx_fair []"
      "k' = set_tx n [] (sent_of n k @ take (length bs) bs) k"
      "length ([] :: wr_ev list) + length (drop (length bs) bs) < length (tx_of n k) + length bs"
      "length ([] :: wr_ev list) < length (tx_of n k) \<or> length bs = length bs"
      "length ([] :: wr_ev list) \<le> length (tx_of n k)"
      using assms Nil by (auto simp: sys_write_def send_bytes_def tx_fair_def set_tx_def)
  qed
next
  case (Cons e ts)
  have f: "tx_fair ts" using assms(3) Cons by (simp add: tx_fair_def)
  show thesis
  proof (cases e)
    case (Room j)
    show thesis
    proof (rule some)
      show "r = Inr (min (Suc j) (length bs))" "0 < min (Suc j) (length bs)" "min (Suc j) (length bs) \<le> length bs"
        "tx_fair ts" "k' = set_tx n ts (sent_of n k @ take (min (Suc j) (length bs)) bs) k"
        "length ts + length (drop (min (Suc j) (length bs)) bs) < length (tx_of n k) + length bs"
        "length ts < length (tx_of n k) \<or> min (Suc j) (length bs) = length bs" "length ts \<le> length (tx_of n k)"
        using assms Cons Room f by (auto simp: sys_write_def send_bytes_def set_tx_def)
    qed
  next
    case WAgain
    show thesis
    proof (rule full)
      show "r = Inl EAGAIN" "tx_fair ts" "k' = set_tx n ts (sent_of n k) k" "length ts < length (tx_of n k)"
        using assms Cons WAgain f by (auto simp: sys_write_def send_bytes_def set_tx_def)
    qed
  qed (use assms(3) Cons in \<open>simp_all add: tx_fair_def\<close>)
qed

subsection \<open>What a reply leaves alone\<close>

definition same_files :: "server \<Rightarrow> server \<Rightarrow> bool" where
  "same_files s s' \<longleftrightarrow> server_files s' = server_files s \<and> temp_dir s' = temp_dir s \<and> listen_fd s' = listen_fd s
     \<and> dents (kern s') = dents (kern s) \<and> inodes (kern s') = inodes (kern s) \<and> resolve (kern s') = resolve (kern s)
     \<and> disk (kern s') = disk (kern s) \<and> next_ino (kern s') = next_ino (kern s)"

lemma same_files_refl [simp]: "same_files s s"
  by (simp add: same_files_def)

lemma same_files_trans: "same_files s s' \<Longrightarrow> same_files s' s'' \<Longrightarrow> same_files s s''"
  by (simp add: same_files_def)

lemma same_files_kernel:
  "same_files s (s\<lparr>kern := set_tx n ts out (kern s)\<rparr>)" "same_files s (s\<lparr>kern := set_rx n es (kern s)\<rparr>)"
  by (simp_all add: same_files_def)

lemma same_files_put_back: "same_files s s' \<Longrightarrow> same_files s (put_back p (r, s'))"
  by (simp add: same_files_def put_back_def)

lemma modify_frame:
  "server_files (modify_event_loop fd ev s) = server_files s" "temp_dir (modify_event_loop fd ev s) = temp_dir s"
  "listen_fd (modify_event_loop fd ev s) = listen_fd s"
  "fds (kern (modify_event_loop fd ev s)) = fds (kern s)" "conns (kern (modify_event_loop fd ev s)) = conns (kern s)"
  "dents (kern (modify_event_loop fd ev s)) = dents (kern s)" "inodes (kern (modify_event_loop fd ev s)) = inodes (kern s)"
  "resolve (kern (modify_event_loop fd ev s)) = resolve (kern s)" "disk (kern (modify_event_loop fd ev s)) = disk (kern s)"
  "heap_ok (kern (modify_event_loop fd ev s)) = heap_ok (kern s)"
  "next_ino (kern (modify_event_loop fd ev s)) = next_ino (kern s)"
proof -
  obtain r k where "event_loop_modify (event_loop_fd s) fd ev (kern s) = (r, k)" by fastforce
  note m = this modify_kernel [OF this]
  show "server_files (modify_event_loop fd ev s) = server_files s" "temp_dir (modify_event_loop fd ev s) = temp_dir s"
    "listen_fd (modify_event_loop fd ev s) = listen_fd s"
    "fds (kern (modify_event_loop fd ev s)) = fds (kern s)" "conns (kern (modify_event_loop fd ev s)) = conns (kern s)"
    "dents (kern (modify_event_loop fd ev s)) = dents (kern s)" "inodes (kern (modify_event_loop fd ev s)) = inodes (kern s)"
    "resolve (kern (modify_event_loop fd ev s)) = resolve (kern s)" "disk (kern (modify_event_loop fd ev s)) = disk (kern s)"
    "heap_ok (kern (modify_event_loop fd ev s)) = heap_ok (kern s)"
    "next_ino (kern (modify_event_loop fd ev s)) = next_ino (kern s)"
    using m by (simp_all add: modify_event_loop_def)
qed

declare modify_frame [simp]

lemma same_files_modify: "same_files s (modify_event_loop fd ev s)"
  by (simp add: same_files_def)

text \<open>Closing a finished connection, or one that is no upload, deletes nothing.\<close>

lemma cleanup_done:
  assumes "c_state c = STATE_DONE \<or> c_verb c \<noteq> PUT"
  obtains s' where "close_and_cleanup c s = (None, s')" and "same_files s s'" and "conns (kern s') = conns (kern s)"
proof -
  obtain r k where rm: "event_loop_remove (event_loop_fd s) (c_fd c) (kern s) = (r, k)" by fastforce
  note k = remove_kernel(1) [OF rm]
  have cl: "dents (sys_close f x) = dents x" "inodes (sys_close f x) = inodes x" "disk (sys_close f x) = disk x"
    "next_ino (sys_close f x) = next_ino x" for f x
    by (simp_all add: sys_close_def)
  show thesis
    by (rule that [of "snd (close_and_cleanup c s)"])
       (use assms k in \<open>auto simp: close_and_cleanup_def rm Let_def same_files_def client_destroy_def cl\<close>)
qed


subsection \<open>What a connection still owes\<close>

text \<open>The object serves the inode \<open>i\<close>, whose contents are \<open>contents\<close>.\<close>

definition serving :: "nat \<Rightarrow> byte list \<Rightarrow> client \<Rightarrow> server \<Rightarrow> bool" where
  "serving i contents c s \<longleftrightarrow>
     map_of (fds (kern s)) (c_file_fd c) = Some (OFile i) \<and> inodes (kern s) i = Regular contents
     \<and> disk (kern s) = [] \<and> unat (c_file_size c) = length contents"

definition to_send :: "byte list \<Rightarrow> client \<Rightarrow> server \<Rightarrow> byte list" where
  "to_send contents c s =
     (case c_state c of
        STATE_SEND_ERROR \<Rightarrow> response_rest c
      | STATE_SEND_OK \<Rightarrow>
          response_rest c @ (if c_verb c = GET then encode_size (c_file_size c) @ contents
                             else if c_verb c = LIST then list_reply (files_of s) else [])
      | STATE_SEND_GET_SIZE \<Rightarrow>
          (if c_resp_len c = 0 then encode_size (c_file_size c) else response_rest c) @ contents
      | STATE_SEND_GET_DATA \<Rightarrow> drop (unat (c_bytes_transferred c)) contents
      | STATE_SEND_LIST_DATA \<Rightarrow> drop (c_list_sent c) (the (c_list_buf c))
      | _ \<Rightarrow> [])"

definition send_ready :: "nat \<Rightarrow> byte list \<Rightarrow> client \<Rightarrow> server \<Rightarrow> bool" where
  "send_ready i contents c s \<longleftrightarrow>
     (case c_state c of
        STATE_SEND_ERROR \<Rightarrow> response_rest c \<noteq> []
      | STATE_SEND_OK \<Rightarrow>
          response_rest c \<noteq> [] \<and> (c_verb c = GET \<longrightarrow> serving i contents c s \<and> c_bytes_transferred c = 0)
          \<and> (c_verb c = LIST \<longrightarrow> files_ok s \<and> False \<notin> set (heap_ok (kern s)))
      | STATE_SEND_GET_SIZE \<Rightarrow>
          serving i contents c s \<and> c_bytes_transferred c = 0 \<and> (c_resp_len c = 0 \<or> response_rest c \<noteq> [])
      | STATE_SEND_GET_DATA \<Rightarrow> serving i contents c s \<and> c_bytes_transferred c \<le> c_file_size c
      | STATE_SEND_LIST_DATA \<Rightarrow>
          map_option length (c_list_buf c) = Some (c_list_len c) \<and> c_list_sent c < c_list_len c
      | _ \<Rightarrow> False)"

definition sending :: "nat \<Rightarrow> byte list \<Rightarrow> nat \<Rightarrow> byte list \<Rightarrow> client \<Rightarrow> server \<Rightarrow> bool" where
  "sending n out i contents c s \<longleftrightarrow>
     map_of (fds (kern s)) (c_fd c) = Some (OSock n) \<and> tx_fair (tx_of n (kern s)) \<and> response_ok c
     \<and> sent_of n (kern s) @ to_send contents c s = out \<and> send_ready i contents c s"

definition to_go :: "nat \<Rightarrow> byte list \<Rightarrow> client \<Rightarrow> server \<Rightarrow> nat" where
  "to_go n contents c s = length (tx_of n (kern s)) + length (to_send contents c s)"

text \<open>
  The outcome of a turn that began in \<open>s0\<close>: the connection is closed and the reply is out, or
  less remains to be done than \<open>j\<close>.
\<close>

definition delivers :: "nat \<Rightarrow> byte list \<Rightarrow> nat \<Rightarrow> byte list \<Rightarrow> nat \<Rightarrow> server \<Rightarrow> handled \<Rightarrow> bool" where
  "delivers n out i contents j s0 h = (case h of (r, s) \<Rightarrow> same_files s0 s \<and>
     (case r of None \<Rightarrow> sent_of n (kern s) = out
      | Some c \<Rightarrow> sending n out i contents c s \<and> to_go n contents c s < j))"

lemma delivers_simps [simp]:
  "delivers n out i contents j s0 (None, s) \<longleftrightarrow> same_files s0 s \<and> sent_of n (kern s) = out"
  "delivers n out i contents j s0 (Some c, s) \<longleftrightarrow>
     same_files s0 s \<and> sending n out i contents c s \<and> to_go n contents c s < j"
  by (simp_all add: delivers_def)

lemma delivers_trans: "delivers n out i contents j s h \<Longrightarrow> same_files s0 s \<Longrightarrow> delivers n out i contents j s0 h"
  by (auto simp: delivers_def intro: same_files_trans split: prod.splits option.splits)

lemma delivers_mono: "delivers n out i contents j s0 h \<Longrightarrow> j \<le> j' \<Longrightarrow> delivers n out i contents j' s0 h"
  by (auto simp: delivers_def split: prod.splits option.splits)

lemma sendingD:
  assumes "sending n out i contents c s"
  shows "map_of (fds (kern s)) (c_fd c) = Some (OSock n)" and "tx_fair (tx_of n (kern s))"
    and "response_ok c" and "sent_of n (kern s) @ to_send contents c s = out" and "send_ready i contents c s"
  using assms by (simp_all add: sending_def)

text \<open>What the predicates look at.\<close>

lemma sending_cong:
  assumes "fds (kern s') = fds (kern s)" and "conns (kern s') = conns (kern s)"
    and "inodes (kern s') = inodes (kern s)" and "disk (kern s') = disk (kern s)"
    and "server_files s' = server_files s" and "heap_ok (kern s') = heap_ok (kern s)"
  shows "sending n out i contents c s' = sending n out i contents c s"
    and "to_go n contents c s' = to_go n contents c s"
  using assms
  by (simp_all add: sending_def to_go_def to_send_def send_ready_def serving_def files_ok_def cong: conn_state.case_cong)

lemma sending_modify [simp]:
  "sending n out i contents c (modify_event_loop fd ev s) = sending n out i contents c s"
  "to_go n contents c (modify_event_loop fd ev s) = to_go n contents c s"
  by (rule sending_cong; simp)+

lemma sending_heap [simp]:
  "sending n out i contents c (s\<lparr>heap := h\<rparr>) = sending n out i contents c s"
  "to_go n contents c (s\<lparr>heap := h\<rparr>) = to_go n contents c s"
  by (rule sending_cong; simp)+

subsection \<open>The status line\<close>

lemma rest_advance:
  assumes "response_ok c" and "m \<le> length (response_rest c)"
  shows "response_rest (c\<lparr>c_resp_sent := c_resp_sent c + m\<rparr>) = drop m (response_rest c)"
    and "response_ok (c\<lparr>c_resp_sent := c_resp_sent c + m\<rparr>)"
    and "c_resp_sent c + m = c_resp_len c \<longleftrightarrow> drop m (response_rest c) = []"
proof -
  note len = response_rest_length [OF assms(1)]
  show "response_rest (c\<lparr>c_resp_sent := c_resp_sent c + m\<rparr>) = drop m (response_rest c)"
    by (simp add: response_rest_def drop_take add.commute)
  show "response_ok (c\<lparr>c_resp_sent := c_resp_sent c + m\<rparr>)"
    using assms len by (auto simp: response_ok_def)
  show "c_resp_sent c + m = c_resp_len c \<longleftrightarrow> drop m (response_rest c) = []"
    using assms len by (auto simp: response_ok_def)
qed



text \<open>A write that takes part of what is owed, or nothing.\<close>

lemma sending_full:
  assumes "sending n out i contents c s" and "tx_fair ts" and "k = set_tx n ts (sent_of n (kern s)) (kern s)"
    and "length ts < length (tx_of n (kern s))"
  shows "delivers n out i contents (to_go n contents c s) s (Some c, s\<lparr>kern := k\<rparr>)"
proof -
  have "to_send contents c (s\<lparr>kern := k\<rparr>) = to_send contents c s"
    "send_ready i contents c (s\<lparr>kern := k\<rparr>) = send_ready i contents c s"
    unfolding to_send_def send_ready_def serving_def files_ok_def assms(3) by (cases "c_state c"; simp)+
  then show ?thesis using assms by (simp add: same_files_def sending_def to_go_def)
qed

lemma sending_some:
  assumes "sending n out i contents c s" and "tx_fair ts"
    and "k = set_tx n ts (sent_of n (kern s) @ take m (to_send contents c s)) (kern s)"
    and "0 < m" and "m \<le> length (to_send contents c s)" and "length ts \<le> length (tx_of n (kern s))"
    and "to_send contents c' (s\<lparr>kern := k\<rparr>) = drop m (to_send contents c s)"
    and "send_ready i contents c' (s\<lparr>kern := k\<rparr>)" and "response_ok c'" and "c_fd c' = c_fd c"
  shows "sending n out i contents c' (s\<lparr>kern := k\<rparr>)"
    and "to_go n contents c' (s\<lparr>kern := k\<rparr>) < to_go n contents c s"
    and "same_files s (s\<lparr>kern := k\<rparr>)"
  using assms by (simp_all add: same_files_def sending_def to_go_def)

lemma start_list:
  assumes "files_ok s" and "False \<notin> set (heap_ok (kern s))"
  obtains s' where "start_send_list c s =
        (Some (c\<lparr>c_list_buf := Some (list_reply (files_of s)), c_list_len := length (list_reply (files_of s)),
                 c_list_sent := 0, c_state := STATE_SEND_LIST_DATA\<rparr>), s')"
    and "same_files s s'" and "fds (kern s') = fds (kern s)" and "conns (kern s') = conns (kern s)"
proof -
  obtain r s1 where b: "build_list_buffer s = (r, s1)" by fastforce
  from build_list_buffer_spec [OF assms(1) b] assms(2)
  obtain al where r: "r = Some (list_reply (files_of s), length (list_reply (files_of s)))"
    and s1: "s1 = s\<lparr>kern := (kern s)\<lparr>heap_ok := al\<rparr>\<rparr>" by auto
  show thesis
    by (rule that [of "modify_event_loop (c_fd c) FSS_EVENT_WRITE s1"])
       (simp_all add: start_send_list.simps b r s1 same_files_def)
qed

lemma list_reply_ne: "list_reply names \<noteq> []"
proof
  assume "list_reply names = []"
  from this [THEN arg_cong, of length] show False by (simp add: list_reply_def sizeof_size_t_def)
qed

lemma write_status:
  assumes sd: "sending n out i contents c s" and st: "c_state c = STATE_SEND_OK \<or> c_state c = STATE_SEND_ERROR"
  shows "delivers n out i contents (to_go n contents c s) s (execute_simple_response_write c s)"
proof -
  note unf = execute_simple_response_write.simps [of c s]
  note d = sendingD [OF sd]
  have ne: "response_rest c \<noteq> []" using d(5) st by (auto simp: send_ready_def)
  obtain r k where w: "sys_write (c_fd c) (response_rest c) (kern s) = (r, k)" by fastforce
  from d(1) ne d(2) w show ?thesis
  proof (cases rule: write_own)
    case (full ts)
    from sending_full [OF sd full(2-4)] full(1) show ?thesis by (simp add: unf w)
  next
    case (some m ts)
    let ?c = "c\<lparr>c_resp_sent := c_resp_sent c + m\<rparr>" and ?s = "s\<lparr>kern := k\<rparr>"
    note adv = rest_advance [OF d(3) some(3)]
    have sf: "same_files s ?s" using same_files_kernel(1) some(5) by simp
    have ts: "to_send contents c s = response_rest c @ (if c_state c = STATE_SEND_OK then
        (if c_verb c = GET then encode_size (c_file_size c) @ contents
         else if c_verb c = LIST then list_reply (files_of s) else []) else [])"
      using st by (auto simp: to_send_def)
    have tk: "take m (to_send contents c s) = take m (response_rest c)" "m \<le> length (to_send contents c s)"
      using some(3) ts by simp_all
    note adv' = sending_some [OF sd some(4) some(5) [folded tk(1)] some(2) tk(2) some(8)]
    show ?thesis
    proof (cases "c_resp_sent c + m = c_resp_len c")
      case False
      then have ne': "drop m (response_rest c) \<noteq> []" using adv(3) by blast
      have "execute_simple_response_write c s = (Some ?c, modify_event_loop (c_fd c) FSS_EVENT_WRITE ?s)"
        using False by (simp add: unf w some(1) Let_def)
      moreover have "to_send contents ?c ?s = drop m (to_send contents c s)"
        using st adv(1) some(3) by (auto simp: to_send_def)
      moreover have "send_ready i contents ?c ?s"
        using st d(5) ne' adv(1) some(5) by (auto simp: send_ready_def serving_def files_ok_def)
      ultimately show ?thesis
        using adv' [of ?c] adv(2) same_files_trans [OF sf same_files_modify] by simp
    next
      case True
      then have out: "drop m (response_rest c) = []" using adv(3) by blast
      then have m: "m = length (response_rest c)" using some(3) by simp
      have sn: "sent_of n k = sent_of n (kern s) @ response_rest c" using some(5) m by simp
      consider (last) "c_state c = STATE_SEND_ERROR \<or> c_verb c \<noteq> GET \<and> c_verb c \<noteq> LIST"
        | (get) "c_state c = STATE_SEND_OK" "c_verb c = GET" | (list) "c_state c = STATE_SEND_OK" "c_verb c = LIST"
        using st by blast
      then show ?thesis
      proof cases
        case last
        obtain s' where s': "close_and_cleanup (?c\<lparr>c_state := STATE_DONE\<rparr>) ?s = (None, s')" "same_files ?s s'"
          "conns (kern s') = conns (kern ?s)"
          by (rule cleanup_done [of "?c\<lparr>c_state := STATE_DONE\<rparr>" ?s]) auto
        have "execute_simple_response_write c s = (None, s')"
          using st last s'(1) True by (auto simp: unf w some(1) Let_def)
        moreover have "sent_of n (kern s') = out"
          using s'(3) sn d(4) last ts by auto
        ultimately show ?thesis using same_files_trans [OF sf s'(2)] by simp
      next
        case get
        let ?g = "?c\<lparr>c_resp_len := 0, c_resp_sent := 0, c_state := STATE_SEND_GET_SIZE\<rparr>"
        have e: "execute_simple_response_write c s = (Some ?g, modify_event_loop (c_fd c) FSS_EVENT_WRITE ?s)"
          using get True by (simp add: unf w some(1) Let_def)
        have "to_send contents ?g ?s = drop m (to_send contents c s)"
          using get m by (simp add: to_send_def)
        moreover have "send_ready i contents ?g ?s" "response_ok ?g"
          using get d(3,5) some(5) by (simp_all add: send_ready_def serving_def response_ok_def)
        ultimately show ?thesis
          using adv' [of ?g] same_files_trans [OF sf same_files_modify] by (simp add: e)
      next
        case list
        have r: "files_ok ?s" "False \<notin> set (heap_ok (kern ?s))"
          using list d(5) some(5) by (auto simp: send_ready_def files_ok_def)
        let ?l = "?c\<lparr>c_list_buf := Some (list_reply (files_of ?s)), c_list_len := length (list_reply (files_of ?s)),
                 c_list_sent := 0, c_state := STATE_SEND_LIST_DATA\<rparr>"
        obtain s' where s': "start_send_list ?c ?s = (Some ?l, s')"
          "same_files ?s s'" "fds (kern s') = fds (kern ?s)" "conns (kern s') = conns (kern ?s)"
          by (rule start_list [OF r])
        have "execute_simple_response_write c s = start_send_list ?c ?s"
          using list True by (simp add: unf w some(1) Let_def)
        then have e: "execute_simple_response_write c s = (Some ?l, s')" unfolding s'(1) .
        have "to_send contents ?l ?s = drop m (to_send contents c s)"
          using list m by (simp add: to_send_def)
        moreover have "send_ready i contents ?l ?s" "response_ok ?l"
          using d(3) list_reply_ne adv(2) by (simp_all add: send_ready_def response_ok_def)
        ultimately have "sending n out i contents ?l ?s" "to_go n contents ?l ?s < to_go n contents c s"
          using adv' [of ?l] by simp_all
        moreover have "to_send contents ?l s' = to_send contents ?l ?s" "send_ready i contents ?l s' = send_ready i contents ?l ?s"
          by (simp_all add: to_send_def send_ready_def)
        ultimately show ?thesis
          using same_files_trans [OF sf s'(2)] s'(3,4) by (simp add: e sending_def to_go_def)
      qed
    qed
  qed
qed

subsection \<open>The list\<close>

lemma write_list:
  assumes sd: "sending n out i contents c s" and st: "c_state c = STATE_SEND_LIST_DATA"
  shows "delivers n out i contents (to_go n contents c s) s (send_list_data c s)"
proof -
  note d = sendingD [OF sd]
  obtain b where b: "c_list_buf c = Some b" "c_list_len c = length b" "c_list_sent c < length b"
    using d(5) st by (auto simp: send_ready_def)
  let ?rest = "drop (c_list_sent c) b"
  have ts: "to_send contents c s = ?rest" using st b(1) by (simp add: to_send_def)
  have ne: "?rest \<noteq> []" using b(3) by simp
  have tk: "take (c_list_len c - c_list_sent c) ?rest = ?rest" using b(2) by simp
  obtain r k where w: "sys_write (c_fd c) ?rest (kern s) = (r, k)" by fastforce
  note unf = send_list_data_def [of c s, unfolded b(1) option.case tk w prod.case]
  from d(1) ne d(2) w show ?thesis
  proof (cases rule: write_own)
    case (full ts)
    from sending_full [OF sd full(2-4)] full(1) show ?thesis by (simp add: unf)
  next
    case (some m txs)
    let ?c = "c\<lparr>c_list_sent := c_list_sent c + m\<rparr>" and ?s = "s\<lparr>kern := k\<rparr>"
    have sf: "same_files s ?s" using same_files_kernel(1) some(5) by simp
    show ?thesis
    proof (cases "c_list_sent c + m = c_list_len c")
      case True
      then have m: "m = length ?rest" using b by simp
      obtain s' where s': "close_and_cleanup (?c\<lparr>c_state := STATE_DONE\<rparr>) ?s = (None, s')" "same_files ?s s'"
        "conns (kern s') = conns (kern ?s)"
        by (rule cleanup_done [of "?c\<lparr>c_state := STATE_DONE\<rparr>" ?s]) auto
      have "sent_of n (kern s') = out" using s'(3) some(5) d(4) m ts by simp
      then show ?thesis using same_files_trans [OF sf s'(2)] True s'(1) by (simp add: unf some(1))
    next
      case False
      have "to_send contents ?c ?s = drop m (to_send contents c s)"
        using st b(1) ts by (simp add: to_send_def add.commute)
      moreover have "send_ready i contents ?c ?s" "response_ok ?c"
        using d(3) st b False some(3) by (simp_all add: send_ready_def response_ok_def)
      ultimately show ?thesis
        using sending_some [OF sd some(4) some(5) [folded ts] some(2) some(3) [folded ts] some(8), of ?c] False
        by (simp add: unf some(1))
    qed
  qed
qed


subsection \<open>The size and the contents of a file\<close>

lemma encode_size_ne: "encode_size w \<noteq> []"
proof
  assume "encode_size w = []"
  from this [THEN arg_cong, of length] show False by (simp add: sizeof_size_t_def)
qed

lemma write_get_size:
  assumes sd: "sending n out i contents c s" and st: "c_state c = STATE_SEND_GET_SIZE"
  shows "delivers n out i contents (to_go n contents c s) s (send_get_size c s)"
proof -
  define c0 where "c0 = (if c_resp_len c = 0
     then c\<lparr>c_resp_buf := encode_size (c_file_size c), c_resp_len := sizeof_size_t, c_resp_sent := 0\<rparr> else c)"
  note d = sendingD [OF sd]
  have c0: "c_fd c0 = c_fd c" "c_state c0 = STATE_SEND_GET_SIZE" "c_file_size c0 = c_file_size c"
      "c_file_fd c0 = c_file_fd c" "c_bytes_transferred c0 = c_bytes_transferred c" "c_resp_len c0 \<noteq> 0"
    using st by (simp_all add: c0_def sizeof_size_t_def)
  have ts: "to_send contents c0 s = to_send contents c s" "to_send contents c0 s = response_rest c0 @ contents"
    by (simp_all add: to_send_def st c0_def response_rest_def sizeof_size_t_def)
  have ne: "response_rest c0 \<noteq> []" and sv: "serving i contents c0 s" "c_bytes_transferred c0 = 0"
    using d(5) st encode_size_ne by (auto simp: send_ready_def serving_def c0_def response_rest_def sizeof_size_t_def)
  have rok: "response_ok c0" using d(3) by (auto simp: c0_def response_ok_def sizeof_size_t_def MAX_HEADER_LEN_def)
  have sd0: "sending n out i contents c0 s" and go0: "to_go n contents c0 s = to_go n contents c s"
    using d ts(1) c0 rok ne sv by (simp_all add: sending_def send_ready_def to_go_def)
  have own: "map_of (fds (kern s)) (c_fd c0) = Some (OSock n)" using d(1) c0(1) by simp
  obtain r k where w: "sys_write (c_fd c0) (response_rest c0) (kern s) = (r, k)" by fastforce
  note unf = send_get_size_def [of c s, folded c0_def, unfolded Let_def w prod.case c0(1)]
  from own ne d(2) w show ?thesis
  proof (cases rule: write_own)
    case (full txs)
    from sending_full [OF sd0 full(2-4)] full(1) show ?thesis by (simp add: unf w c0(1) [symmetric] go0)
  next
    case (some m txs)
    let ?c = "c0\<lparr>c_resp_sent := c_resp_sent c0 + m\<rparr>" and ?s = "s\<lparr>kern := k\<rparr>"
    let ?d = "?c\<lparr>c_state := STATE_SEND_GET_DATA, c_resp_len := 0, c_resp_sent := 0\<rparr>"
    note adv = rest_advance [OF rok some(3)]
    have tk: "take m (to_send contents c0 s) = take m (response_rest c0)" "m \<le> length (to_send contents c0 s)"
      using some(3) ts(2) by simp_all
    note adv' = sending_some [OF sd0 some(4) some(5) [folded tk(1)] some(2) tk(2) some(8)]
    have sv': "serving i contents x ?s" if "c_file_fd x = c_file_fd c0" "c_file_size x = c_file_size c0" for x
      using sv(1) some(5) that by (simp add: serving_def)
    show ?thesis
    proof (cases "c_resp_sent c0 + m = c_resp_len c0")
      case True
      then have m: "m = length (response_rest c0)" using adv(3) some(3) by simp
      have e: "send_get_size c s = (Some ?d, modify_event_loop (c_fd c) FSS_EVENT_WRITE ?s)"
        using True by (simp add: unf w some(1) c0(1) [symmetric])
      have "to_send contents ?d ?s = drop m (to_send contents c0 s)"
        using sv(2) m ts(2) by (simp add: to_send_def)
      moreover have "send_ready i contents ?d ?s" "response_ok ?d"
        using sv' [of ?d] sv(2) rok by (simp_all add: send_ready_def response_ok_def)
      ultimately show ?thesis
        using adv' [of ?d] same_files_trans [OF _ same_files_modify] by (simp add: e go0)
    next
      case False
      then have ne': "drop m (response_rest c0) \<noteq> []" using adv(3) by blast
      have e: "send_get_size c s = (Some ?c, ?s)"
        using False by (simp add: unf w some(1) c0(1) [symmetric])
      have "to_send contents ?c ?s = drop m (to_send contents c0 s)"
        using adv(1) c0(2,6) some(3) by (simp add: to_send_def)
      moreover have "send_ready i contents ?c ?s" using sv' [of ?c] sv(2) ne' adv(1) c0(2) by (simp add: send_ready_def)
      ultimately show ?thesis using adv' [of ?c] adv(2) by (simp add: e go0)
    qed
  qed
qed

text \<open>
  The transfer loop: it sends a further piece of the contents, and stops before the end only
  when an event of the write script is used up.
\<close>

lemma pread_all:
  assumes "map_of (fds k) f = Some (OFile i)" and "inodes k i = Regular contents" and "disk k = []"
  shows "sys_pread f m off k = (Inr (take m (drop off contents)), k)"
  using assms by (simp add: sys_pread_def next_disk_def)

lemma get_data_loop_run:
  assumes "map_of (fds k) (c_fd c) = Some (OSock n)" and "tx_fair (tx_of n k)"
    and "map_of (fds k) (c_file_fd c) = Some (OFile i)" and "inodes k i = Regular contents" and "disk k = []"
    and "unat (c_file_size c) = length contents" and "c_bytes_transferred c \<le> c_file_size c"
  shows "\<exists>ts e b. send_get_data_loop c k
          = (e, c\<lparr>c_bytes_transferred := b\<rparr>,
             set_tx n ts (sent_of n k @ take (unat b - unat (c_bytes_transferred c)) (drop (unat (c_bytes_transferred c)) contents)) k)
      \<and> c_bytes_transferred c \<le> b \<and> b \<le> c_file_size c \<and> tx_fair ts \<and> length ts \<le> length (tx_of n k)
      \<and> (e = LoopOver \<and> b = c_file_size c \<or> e = LoopWait \<and> length ts < length (tx_of n k))"
  using assms
proof (induction c k rule: send_get_data_loop.induct)
  case (1 c k)
  let ?b = "c_bytes_transferred c" and ?e = "c_file_size c"
  show ?case
  proof (cases "?b < ?e")
    case False
    with "1.prems"(7) have "?b = ?e" by simp
    moreover have "set_tx n (tx_of n k) (sent_of n k) k = k" by (simp add: set_tx_def fun_upd_idem)
    ultimately show ?thesis using "1.prems"(2)
      by (intro exI [of _ "tx_of n k"] exI [of _ LoopOver] exI [of _ ?b])
         (simp add: send_get_data_loop.simps [of c k])
  next
    case True
    let ?want = "chunk_len (?e - ?b)"
    define bs where "bs = take ?want (drop (unat ?b) contents)"
    have rd: "sys_pread (c_file_fd c) ?want (unat ?b) k = (Inr bs, k)"
      unfolding bs_def by (rule pread_all [OF "1.prems"(3-5)])
    have lt: "unat ?b < length contents" using True "1.prems"(6) by (simp add: word_less_nat_alt)
    have "0 < ?want" using True by auto
    then have ne: "bs \<noteq> []" using lt by (simp add: bs_def)
    then obtain y ys where y: "bs = y # ys" by (cases bs) auto
    obtain r k1 where w: "sys_write (c_fd c) bs k = (r, k1)" by fastforce
    note unf = send_get_data_loop.simps [of c k, unfolded if_P [OF True] rd prod.case sum.case y list.case,
        folded y, unfolded w prod.case]
    from "1.prems"(1) ne "1.prems"(2) w show ?thesis
    proof (cases rule: write_own)
      case (full ts)
      then show ?thesis using "1.prems"(7)
        by (intro exI [of _ ts] exI [of _ LoopWait] exI [of _ ?b]) (simp add: unf)
    next
      case (some m ts)
      let ?c = "c\<lparr>c_bytes_transferred := ?b + of_nat m\<rparr>"
      have "m \<le> ?want" using some(3) by (simp add: bs_def)
      note adv = chunk_advance [OF True this]
      have le: "?b \<le> ?b + of_nat m" by (simp add: word_le_nat_alt adv(1))
      have tk: "take m bs = take m (drop (unat ?b) contents)" using \<open>m \<le> ?want\<close> by (simp add: bs_def min_def)
      show ?thesis
      proof (cases "m < length bs")
        case True
        then show ?thesis using some adv le tk
          by (intro exI [of _ ts] exI [of _ LoopWait] exI [of _ "?b + of_nat m"]) (simp add: unf Let_def)
      next
        case False
        then have eq: "send_get_data_loop c k = send_get_data_loop ?c k1"
          by (simp add: unf some(1) Let_def)
        have p: "map_of (fds k1) (c_fd ?c) = Some (OSock n)" "tx_fair (tx_of n k1)"
          "map_of (fds k1) (c_file_fd ?c) = Some (OFile i)" "inodes k1 i = Regular contents" "disk k1 = []"
          "unat (c_file_size ?c) = length contents" "c_bytes_transferred ?c \<le> c_file_size ?c"
          using "1.prems" some(4,5) adv(2) by simp_all
        from "1.IH" [OF True rd [symmetric] refl y w [unfolded y, symmetric] some(1) refl False [unfolded y] p]
        obtain ts' e b where
          run: "send_get_data_loop ?c k1 = (e, ?c\<lparr>c_bytes_transferred := b\<rparr>, set_tx n ts'
             (sent_of n k1 @ take (unat b - unat (c_bytes_transferred ?c)) (drop (unat (c_bytes_transferred ?c)) contents)) k1)"
          and o: "c_bytes_transferred ?c \<le> b" "b \<le> c_file_size ?c" "tx_fair ts'" "length ts' \<le> length (tx_of n k1)"
            "e = LoopOver \<and> b = c_file_size ?c \<or> e = LoopWait \<and> length ts' < length (tx_of n k1)"
          by blast
        have ub: "unat ?b + m \<le> unat b" using o(1) adv(1) by (simp add: word_le_nat_alt)
        have cat: "take m (drop (unat ?b) contents) @ take (unat b - (unat ?b + m)) (drop (unat ?b + m) contents)
             = take (unat b - unat ?b) (drop (unat ?b) contents)"
          using ub take_add [of m "unat b - (unat ?b + m)" "drop (unat ?b) contents"] by (simp add: add.commute)
        have st: "set_tx n a x (set_tx n a' x' k) = set_tx n a x k" for a x a' x' by (simp add: set_tx_def)
        have bb: "?b \<le> b" using le o(1) by simp
        show ?thesis
          using o some(5,8) bb run
          by (intro exI [of _ ts'] exI [of _ e] exI [of _ b]) (auto simp: eq adv(1) tk cat st)
      qed
    qed
  qed
qed

lemma write_get_data:
  assumes sd: "sending n out i contents c s" and st: "c_state c = STATE_SEND_GET_DATA"
  shows "delivers n out i contents (to_go n contents c s) s (send_get_data c s)"
proof -
  note d = sendingD [OF sd]
  let ?b = "c_bytes_transferred c"
  have sv: "serving i contents c s" "?b \<le> c_file_size c" using d(5) st by (simp_all add: send_ready_def)
  have ts: "to_send contents c s = drop (unat ?b) contents" using st by (simp add: to_send_def)
  from get_data_loop_run [OF d(1,2), of i contents] sv obtain txs e b where
    run: "send_get_data_loop c (kern s) = (e, c\<lparr>c_bytes_transferred := b\<rparr>,
             set_tx n txs (sent_of n (kern s) @ take (unat b - unat ?b) (drop (unat ?b) contents)) (kern s))"
    and o: "?b \<le> b" "b \<le> c_file_size c" "tx_fair txs" "length txs \<le> length (tx_of n (kern s))"
      "e = LoopOver \<and> b = c_file_size c \<or> e = LoopWait \<and> length txs < length (tx_of n (kern s))"
    by (auto simp: serving_def)
  let ?k = "set_tx n txs (sent_of n (kern s) @ take (unat b - unat ?b) (drop (unat ?b) contents)) (kern s)"
  let ?s = "s\<lparr>kern := ?k\<rparr>"
  note unf = send_get_data_def [of c s, unfolded run prod.case]
  have sf: "same_files s ?s" by (rule same_files_kernel)
  from o(5) show ?thesis
  proof
    assume e: "e = LoopOver \<and> b = c_file_size c"
    let ?c = "c\<lparr>c_bytes_transferred := b\<rparr>"
    obtain s' where s': "close_and_cleanup (?c\<lparr>c_state := STATE_DONE\<rparr>) ?s = (None, s')" "same_files ?s s'"
      "conns (kern s') = conns (kern ?s)"
      by (rule cleanup_done [of "?c\<lparr>c_state := STATE_DONE\<rparr>" ?s]) auto
    have "length contents - unat ?b = length (drop (unat ?b) contents)" by simp
    then have "sent_of n (kern s') = out" using s'(3) d(4) ts sv(1) e by (simp add: serving_def)
    then show ?thesis using same_files_trans [OF sf s'(2)] e s'(1) by (simp add: unf)
  next
    assume e: "e = LoopWait \<and> length txs < length (tx_of n (kern s))"
    let ?c = "c\<lparr>c_bytes_transferred := b\<rparr>"
    have ub: "unat ?b \<le> unat b" using o(1) by (simp add: word_le_nat_alt)
    have "take (unat b - unat ?b) (drop (unat ?b) contents) @ drop (unat b) contents = drop (unat ?b) contents"
      using ub append_take_drop_id [of "unat b - unat ?b" "drop (unat ?b) contents"] by simp
    then have "sending n out i contents ?c ?s"
      using d st sv o by (simp add: sending_def to_send_def send_ready_def serving_def response_ok_def ts)
    moreover have "to_go n contents ?c ?s < to_go n contents c s"
      using e ub st by (simp add: to_go_def to_send_def) linarith
    ultimately show ?thesis using sf e by (simp add: unf)
  qed
qed


subsection \<open>The two handlers in a sending state\<close>

lemma sending_write:
  assumes "sending n out i contents c s"
  shows "delivers n out i contents (to_go n contents c s) s (handle_write_event c s)"
    and "c_state c \<noteq> STATE_RECV_HEADER"
  using assms write_status write_list write_get_size write_get_data sendingD(5) [OF assms]
  by (cases "c_state c"; simp add: handle_write_event_def send_ready_def)+

lemma sending_read:
  assumes "sending n out i contents c s"
  shows "handle_read_event c s = (Some c, s)"
  using sendingD(5) [OF assms] by (cases "c_state c"; simp add: handle_read_event_def send_ready_def)

lemma prepare_fits:
  assumes "length msgs < MAX_HEADER_LEN" and "msgs = (if st = ''OK'' then OK_LINE else error_lines msg)"
  shows "response_rest (prepare_response st msg c) = msgs"
  using assms by (auto simp: prepare_response_def response_rest_def snprintf_def MAX_HEADER_LEN_def Let_def)

text \<open>Sending a response starts with the first turn of the writer.\<close>

definition own_fair :: "nat \<Rightarrow> client \<Rightarrow> server \<Rightarrow> bool" where
  "own_fair n c s \<longleftrightarrow> map_of (fds (kern s)) (c_fd c) = Some (OSock n) \<and> tx_fair (tx_of n (kern s))"

lemma prepare_sends:
  assumes "own_fair n c s" and "sent_of n (kern s) @ to_send contents (prepare_response st msg c) s = out"
    and "send_ready i contents (prepare_response st msg c) s"
  shows "delivers n out i contents (to_go n contents (prepare_response st msg c) s) s
           (prepare_and_send_response c s st msg)"
proof -
  have "sending n out i contents (prepare_response st msg c) s"
    using assms prepare_response_ok [of st msg c] by (simp add: sending_def own_fair_def)
  from write_status [OF this] show ?thesis by (simp add: prepare_and_send_response.simps)
qed

text \<open>An error reply, and the reply to an upload or a deletion.\<close>

lemma prepare_error:
  assumes "own_fair n c s" and "length (error_lines msg) < MAX_HEADER_LEN"
  shows "delivers n (sent_of n (kern s) @ error_lines msg) i contents
           (length (tx_of n (kern s)) + length (error_lines msg)) s
           (prepare_and_send_response c s ''ERROR'' msg)"
proof -
  note f = prepare_fits [of "error_lines msg" "''ERROR''" msg c, simplified, OF assms(2)]
  have "error_lines msg \<noteq> []" by (simp add: error_lines_def)
  with f have "send_ready i contents (prepare_response ''ERROR'' msg c) s"
    by (simp add: send_ready_def)
  from prepare_sends [OF assms(1) refl this] show ?thesis by (simp add: f to_send_def to_go_def)
qed

lemma prepare_ok_line:
  assumes "own_fair n c s" and "c_verb c = PUT \<or> c_verb c = DELETE"
  shows "delivers n (sent_of n (kern s) @ OK_LINE) i contents
           (length (tx_of n (kern s)) + length OK_LINE) s (prepare_and_send_response c s ''OK'' msg)"
proof -
  have l: "length OK_LINE < MAX_HEADER_LEN" "OK_LINE \<noteq> []" by (simp_all add: OK_LINE_def MAX_HEADER_LEN_def)
  note f = prepare_fits [of OK_LINE "''OK''" msg c, simplified, OF l(1)]
  have "send_ready i contents (prepare_response ''OK'' msg c) s"
    using f l(2) assms(2) by (auto simp: send_ready_def)
  from prepare_sends [OF assms(1) refl this] assms(2) show ?thesis
    by (auto simp: f to_send_def to_go_def)
qed

end
