(* ===== verification/Fss_Server_Talk.thy ===== *)
theory Fss_Server_Talk
  imports Fss_Server_Send
begin

section \<open>Conversations\<close>

text \<open>
  How the events of one connection are strung together. A conversation is an invariant of the
  connection object and the server, with a bound on the number of events it can still need in
  the direction of its state: reads while it receives, writes while it sends. Any sequence
  of events that has enough reads, and enough writes after them, carries it to its end,
  whatever other reads and writes are mixed in.
\<close>

subsection \<open>One event\<close>

definition conn_at :: "nat \<Rightarrow> int \<Rightarrow> client \<Rightarrow> server \<Rightarrow> bool" where
  "conn_at p fd c s \<longleftrightarrow> server_ok s \<and> fd \<noteq> listen_fd s \<and> dict_lookup (fd_to_client s) fd = Some p
     \<and> heap s p = Some c \<and> c_fd c = fd"

definition conn_over :: "nat \<Rightarrow> int \<Rightarrow> server \<Rightarrow> bool" where
  "conn_over p fd s \<longleftrightarrow> server_ok s \<and> fd \<noteq> listen_fd s \<and> dict_lookup (fd_to_client s) fd = None
     \<and> heap s p = None \<and> map_of (fds (kern s)) fd = None"

definition receiving :: "client \<Rightarrow> bool" where
  "receiving c \<longleftrightarrow> c_state c \<le> STATE_RECV_PUT_DATA"

lemma receiving_simps [simp]:
  "c_state c = STATE_RECV_HEADER \<Longrightarrow> receiving c" "c_state c = STATE_RECV_PUT_SIZE \<Longrightarrow> receiving c"
  "c_state c = STATE_RECV_PUT_DATA \<Longrightarrow> receiving c"
  by (simp_all add: receiving_def less_eq_conn_state_def)

lemma sending_not_receiving: "sending n out i contents c s \<Longrightarrow> \<not> receiving c"
  by (cases "c_state c") (auto simp: sending_def send_ready_def receiving_def less_eq_conn_state_def)

definition turn :: "c_int \<Rightarrow> client \<Rightarrow> server \<Rightarrow> handled" where
  "turn m c s = (if m = FSS_EVENT_READ then handle_read_event c s
                 else if c_state c \<noteq> STATE_RECV_HEADER then handle_write_event c s else (Some c, s))"

lemma turn_event:
  assumes at: "conn_at p fd c s" and m: "m = FSS_EVENT_READ \<or> m = FSS_EVENT_WRITE"
    and t: "turn m c s = (r, s1)"
  shows "handle_event (fd, m) s = Some (put_back p (r, s1))"
    and "r = None \<Longrightarrow> conn_over p fd (put_back p (r, s1))"
    and "r = Some c' \<Longrightarrow> conn_at p fd c' (put_back p (r, s1))"
proof -
  have a: "server_ok s" "fd \<noteq> listen_fd s" "dict_lookup (fd_to_client s) fd = Some p" "heap s p = Some c" "c_fd c = fd"
    using at by (simp_all add: conn_at_def)
  have g: "dictionary_get (fd_to_client s) (Some fd) = Some p" using a(3) by (simp add: dict_lookup_def)
  have b: "has_bit FSS_EVENT_READ FSS_EVENT_READ" "\<not> has_bit FSS_EVENT_READ FSS_EVENT_WRITE"
    "\<not> has_bit FSS_EVENT_READ FSS_EVENT_ERROR" "has_bit FSS_EVENT_WRITE FSS_EVENT_WRITE"
    "\<not> has_bit FSS_EVENT_WRITE FSS_EVENT_READ" "\<not> has_bit FSS_EVENT_WRITE FSS_EVENT_ERROR"
    "FSS_EVENT_WRITE \<noteq> FSS_EVENT_READ"
    by code_simp+
  show e: "handle_event (fd, m) s = Some (put_back p (r, s1))"
    using a m t b g by (auto simp: handle_event_def turn_def split: prod.splits)
  from held_start [OF a(1,3)] a(4) have h: "held p s c s" "client_ok c" by auto
  have "kept p fd s (turn m c s)"
    using on_read.keeps [OF h] on_write.keeps [OF h] h a(5) by (simp add: turn_def)
  then have k: "kept p fd s (r, s1)" by (simp add: t)
  have nb: "\<not> (has_bit m FSS_EVENT_READ \<and> has_bit m FSS_EVENT_WRITE)" using m b by auto
  have ok: "server_ok (put_back p (r, s1))"
    using handle_event_ok [OF a(1) nb, of fd] by (simp add: e)
  show "conn_over p fd (put_back p (r, s1))" if "r = None"
    using k that ok a(2) by (simp add: gone_def conn_over_def put_back_def frame_def)
  show "conn_at p fd c' (put_back p (r, s1))" if "r = Some c'"
    using k that ok a(2) by (auto simp: held_def conn_at_def put_back_def frame_def)
qed

lemma handle_events_append:
  "handle_events (es @ es') s = (case handle_events es s of None \<Rightarrow> None | Some s' \<Rightarrow> handle_events es' s')"
  by (induction es arbitrary: s) (auto split: option.splits)

subsection \<open>The contract of a conversation\<close>

definition events_on :: "int \<Rightarrow> (int \<times> c_int) list \<Rightarrow> bool" where
  "events_on fd es \<longleftrightarrow> (\<forall>(g, m) \<in> set es. g = fd \<and> (m = FSS_EVENT_READ \<or> m = FSS_EVENT_WRITE))"

definition times :: "c_int \<Rightarrow> (int \<times> c_int) list \<Rightarrow> nat" where
  "times m es = length (filter (\<lambda>e. snd e = m) es)"

lemma events_on_simps [simp]:
  "events_on fd []"
  "events_on fd ((g, m) # es) \<longleftrightarrow> g = fd \<and> (m = FSS_EVENT_READ \<or> m = FSS_EVENT_WRITE) \<and> events_on fd es"
  "events_on fd (es @ es') \<longleftrightarrow> events_on fd es \<and> events_on fd es'"
  by (auto simp: events_on_def)

lemma times_simps [simp]:
  "times m [] = 0" "times m ((g, m') # es) = (if m' = m then Suc (times m es) else times m es)"
  by (simp_all add: times_def)

lemma over_events:
  assumes "conn_over p fd s" and "events_on fd es"
  shows "handle_events es s = Some s"
  using assms by (induction es) (auto simp: handle_event_def conn_over_def dict_lookup_def)

lemma write_not_read [simp]: "FSS_EVENT_WRITE \<noteq> FSS_EVENT_READ" "FSS_EVENT_READ \<noteq> FSS_EVENT_WRITE"
  by code_simp+

locale conversation =
  fixes inv :: "client \<Rightarrow> server \<Rightarrow> bool" and cost :: "client \<Rightarrow> server \<Rightarrow> nat" and fin :: "server \<Rightarrow> bool"
    and bound :: nat
  assumes inv_heap: "inv c (s\<lparr>heap := h\<rparr>) = inv c s" and cost_heap: "cost c (s\<lparr>heap := h\<rparr>) = cost c s"
    and fin_heap: "fin (s\<lparr>heap := h\<rparr>) = fin s"
    and bounded: "inv c s \<Longrightarrow> cost c s < bound"
    and idle: "inv c s \<Longrightarrow> \<not> receiving c \<Longrightarrow> handle_read_event c s = (Some c, s)"
    and over: "inv c s \<Longrightarrow> turn (if receiving c then FSS_EVENT_READ else FSS_EVENT_WRITE) c s = (None, s') \<Longrightarrow> fin s'"
    and goes: "inv c s \<Longrightarrow> turn (if receiving c then FSS_EVENT_READ else FSS_EVENT_WRITE) c s = (Some c', s') \<Longrightarrow>
       inv c' s' \<and> (if receiving c then receiving c' \<longrightarrow> cost c' s' < cost c s else \<not> receiving c' \<and> cost c' s' < cost c s)"
begin

lemma keeps_still:
  assumes "inv c s" and "m = FSS_EVENT_READ \<or> m = FSS_EVENT_WRITE"
    and "m \<noteq> (if receiving c then FSS_EVENT_READ else FSS_EVENT_WRITE)"
  shows "turn m c s = (Some c, s)"
proof (cases "receiving c")
  case True
  with assms(2,3) have "m = FSS_EVENT_WRITE" by auto
  moreover have "c_state c = STATE_RECV_HEADER \<or> handle_write_event c s = (Some c, s)"
    using True by (cases "c_state c") (auto simp: receiving_def less_eq_conn_state_def handle_write_event_def)
  ultimately show ?thesis by (auto simp: turn_def)
next
  case False
  with assms(2,3) have "m = FSS_EVENT_READ" by auto
  with idle [OF assms(1) False] show ?thesis by (simp add: turn_def)
qed

lemma put_back_iff: "inv c (put_back p (r, s)) = inv c s" "cost c (put_back p (r, s)) = cost c s"
  "fin (put_back p (r, s)) = fin s"
  by (simp_all add: put_back_def inv_heap cost_heap fin_heap)

text \<open>
  After \<open>i\<close> reads and \<open>j\<close> writes: the conversation is over, or it is still going on and the work
  has been done.
\<close>

definition still :: "nat \<Rightarrow> int \<Rightarrow> client \<Rightarrow> server \<Rightarrow> nat \<Rightarrow> nat \<Rightarrow> server \<Rightarrow> bool" where
  "still p fd c s i j s' \<longleftrightarrow> (\<exists>c'. conn_at p fd c' s' \<and> inv c' s' \<and> (receiving c' \<longrightarrow> receiving c) \<and>
     (receiving c' \<longrightarrow> cost c' s' + i \<le> cost c s) \<and> (\<not> receiving c \<longrightarrow> cost c' s' + j \<le> cost c s))"

definition went :: "nat \<Rightarrow> int \<Rightarrow> client \<Rightarrow> server \<Rightarrow> nat \<Rightarrow> nat \<Rightarrow> server \<Rightarrow> bool" where
  "went p fd c s i j s' \<longleftrightarrow> conn_over p fd s' \<and> fin s' \<or> still p fd c s i j s'"

lemma still_step:
  assumes "still p fd c' s' i' j' s''" and "receiving c' \<longrightarrow> receiving c"
    and "receiving c' \<longrightarrow> cost c' s' + i \<le> cost c s" and "\<not> receiving c \<longrightarrow> cost c' s' + j \<le> cost c s"
  shows "still p fd c s (i + i') (j + j') s''"
proof -
  from assms(1) obtain c'' where c'': "conn_at p fd c'' s''" "inv c'' s''" "receiving c'' \<longrightarrow> receiving c'"
    "receiving c'' \<longrightarrow> cost c'' s'' + i' \<le> cost c' s'" "\<not> receiving c' \<longrightarrow> cost c'' s'' + j' \<le> cost c' s'"
    unfolding still_def by blast
  have "cost c'' s'' + (i + i') \<le> cost c s" if "receiving c''"
    using c''(3,4) assms(3) that by simp
  moreover have "cost c'' s'' + (j + j') \<le> cost c s" if "\<not> receiving c"
    using c''(5) assms(2,4) that by simp
  ultimately show ?thesis using c'' assms(2) unfolding still_def by blast
qed

lemma went_step:
  assumes "went p fd c' s' i' j' s''" and "receiving c' \<longrightarrow> receiving c"
    and "receiving c' \<longrightarrow> cost c' s' + i \<le> cost c s" and "\<not> receiving c \<longrightarrow> cost c' s' + j \<le> cost c s"
  shows "went p fd c s (i + i') (j + j') s''"
  using assms(1) still_step [OF _ assms(2-4)] unfolding went_def by blast

text \<open>A conversation in which all reads, or all writes, have been done is not receiving, or over.\<close>

lemma still_reads: "still p fd c s i j s' \<Longrightarrow> inv c s \<Longrightarrow> bound \<le> i \<Longrightarrow>
    \<exists>c'. conn_at p fd c' s' \<and> inv c' s' \<and> \<not> receiving c'"
  using bounded [of c s] unfolding still_def by fastforce

lemma still_writes: "still p fd c s i j s' \<Longrightarrow> inv c s \<Longrightarrow> \<not> receiving c \<Longrightarrow> bound \<le> j \<Longrightarrow> False"
  using bounded [of c s] unfolding still_def by fastforce

lemma after_turn:
  assumes "inv c s" and m: "m = FSS_EVENT_READ \<or> m = FSS_EVENT_WRITE" and t: "turn m c s = (Some c', s')"
  shows "inv c' s'" and "receiving c' \<longrightarrow> receiving c"
    and "receiving c' \<longrightarrow> cost c' s' + times FSS_EVENT_READ [(fd, m)] \<le> cost c s"
    and "\<not> receiving c \<longrightarrow> cost c' s' + times FSS_EVENT_WRITE [(fd, m)] \<le> cost c s"
proof -
  have one: "times x [(fd, m)] = (if m = x then 1 else 0)" for x by simp
  have still: "c' = c \<and> s' = s" if "m \<noteq> (if receiving c then FSS_EVENT_READ else FSS_EVENT_WRITE)"
    using keeps_still [OF assms(1) m that] t by simp
  consider (a) "receiving c" "m = FSS_EVENT_READ" | (b) "receiving c" "m = FSS_EVENT_WRITE"
    | (c) "\<not> receiving c" "m = FSS_EVENT_WRITE" | (d) "\<not> receiving c" "m = FSS_EVENT_READ"
    using m by blast
  then have "inv c' s' \<and> (receiving c' \<longrightarrow> receiving c)
      \<and> (receiving c' \<longrightarrow> cost c' s' + times FSS_EVENT_READ [(fd, m)] \<le> cost c s)
      \<and> (\<not> receiving c \<longrightarrow> cost c' s' + times FSS_EVENT_WRITE [(fd, m)] \<le> cost c s)"
  proof cases
    case a
    with goes [OF assms(1), of c' s'] t show ?thesis by (simp add: one Suc_le_eq)
  next
    case c
    with goes [OF assms(1), of c' s'] t show ?thesis by (simp add: one Suc_le_eq)
  qed (use still assms(1) one in simp_all)
  then show "inv c' s'" and "receiving c' \<longrightarrow> receiving c"
    and "receiving c' \<longrightarrow> cost c' s' + times FSS_EVENT_READ [(fd, m)] \<le> cost c s"
    and "\<not> receiving c \<longrightarrow> cost c' s' + times FSS_EVENT_WRITE [(fd, m)] \<le> cost c s" by blast+
qed

lemma after_close:
  assumes "inv c s" and m: "m = FSS_EVENT_READ \<or> m = FSS_EVENT_WRITE" and t: "turn m c s = (None, s')"
  shows "fin s'"
proof -
  have "m = (if receiving c then FSS_EVENT_READ else FSS_EVENT_WRITE)"
  proof (rule ccontr)
    assume "\<not> ?thesis"
    from keeps_still [OF assms(1) m this] t show False by simp
  qed
  then show ?thesis using over [OF assms(1)] t by simp
qed

lemma after_events:
  assumes "conn_at p fd c s" and "inv c s" and "events_on fd es"
  shows "\<exists>s'. handle_events es s = Some s' \<and> went p fd c s (times FSS_EVENT_READ es) (times FSS_EVENT_WRITE es) s'"
  using assms
proof (induction es arbitrary: c s)
  case Nil
  then show ?case by (auto simp: went_def still_def)
next
  case (Cons e es)
  obtain m where e: "e = (fd, m)" and m: "m = FSS_EVENT_READ \<or> m = FSS_EVENT_WRITE" and on: "events_on fd es"
    using Cons.prems(3) by (cases e) auto
  obtain r s1 where t: "turn m c s = (r, s1)" by fastforce
  note ev = turn_event [OF Cons.prems(1) m t]
  let ?s = "put_back p (r, s1)"
  have he: "handle_events (e # es) s = handle_events es ?s" using ev(1) e by simp
  show ?case
  proof (cases r)
    case None
    have "fin ?s" using after_close [OF Cons.prems(2) m] t None by (simp add: put_back_iff)
    moreover have co: "conn_over p fd ?s" by (rule ev(2) [OF None])
    ultimately have "went p fd c s i j ?s" for i j by (simp add: went_def)
    then show ?thesis unfolding he over_events [OF co on] by blast
  next
    case (Some c')
    note st = after_turn [OF Cons.prems(2) m t [unfolded Some]]
    have tm: "times x (e # es) = times x [(fd, m)] + times x es" for x by (simp add: times_def e)
    have inv': "inv c' ?s" using st(1) by (simp add: put_back_iff)
    from Cons.IH [OF ev(3) [OF Some] inv' on] obtain s' where s': "handle_events es ?s = Some s'"
      and w: "went p fd c' ?s (times FSS_EVENT_READ es) (times FSS_EVENT_WRITE es) s'" by blast
    have "went p fd c s (times FSS_EVENT_READ (e # es)) (times FSS_EVENT_WRITE (e # es)) s'"
      unfolding tm by (rule went_step [OF w], unfold put_back_iff) (rule st)+
    then show ?thesis unfolding he s' by blast
  qed
qed

theorem ends:
  assumes "conn_at p fd c s" and "inv c s" and "events_on fd es" and "events_on fd es'"
    and "bound \<le> times FSS_EVENT_READ es" and "bound \<le> times FSS_EVENT_WRITE es'"
  shows "\<exists>s'. handle_events (es @ es') s = Some s' \<and> conn_over p fd s' \<and> fin s'"
proof -
  from after_events [OF assms(1-3)] obtain s1 where s1: "handle_events es s = Some s1" and
    w: "went p fd c s (times FSS_EVENT_READ es) (times FSS_EVENT_WRITE es) s1" by blast
  show ?thesis
  proof (cases "conn_over p fd s1 \<and> fin s1")
    case True
    with over_events [OF conjunct1 [OF True] assms(4)] s1 show ?thesis
      by (simp add: handle_events_append)
  next
    case False
    with w still_reads [OF _ assms(2,5)] obtain c1 where c1: "conn_at p fd c1 s1" "inv c1 s1" "\<not> receiving c1"
      unfolding went_def by blast
    from after_events [OF c1(1,2) assms(4)] obtain s2 where s2: "handle_events es' s1 = Some s2" and
      w2: "went p fd c1 s1 (times FSS_EVENT_READ es') (times FSS_EVENT_WRITE es') s2" by blast
    with still_writes [OF _ c1(2,3) assms(6)] have "conn_over p fd s2 \<and> fin s2" unfolding went_def by blast
    then show ?thesis using s1 s2 by (simp add: handle_events_append)
  qed
qed

end

end
