(* ===== verification/Fss_Server_Request.thy ===== *)
theory Fss_Server_Request
  imports Fss_Server_Talk
begin

section \<open>Requests that are answered at once\<close>

text \<open>
  A connection that is still receiving its request line, and the conversations in which the
  complete line is answered at once: everything but an upload.
\<close>

subsection \<open>Receiving the line\<close>

definition line_ok :: "byte list \<Rightarrow> bool" where
  "line_ok line \<longleftrightarrow> NUL \<notin> set line \<and> NL \<notin> set line \<and> length line + 1 < MAX_HEADER_LEN"

text \<open>\<open>work\<close> bounds what is left of the two scripts of the connection.\<close>

definition asking :: "nat \<Rightarrow> byte list \<Rightarrow> byte list \<Rightarrow> nat \<Rightarrow> client \<Rightarrow> server \<Rightarrow> bool" where
  "asking n line later work c s \<longleftrightarrow>
     c_state c = STATE_RECV_HEADER \<and> c_file_fd c = - 1 \<and> own_fair n c s \<and> sent_of n (kern s) = []
     \<and> rx_weight (rx_of n (kern s)) + length (tx_of n (kern s)) \<le> work
     \<and> (\<exists>rest. c_header_buf c @ rest = line \<and> arriving (rx_of n (kern s)) = rest @ NL # later)"

lemma asking_heap [simp]: "asking n line later work c (s\<lparr>heap := h\<rparr>) = asking n line later work c s"
  by (simp add: asking_def own_fair_def)

text \<open>The state in which the line has been received completely.\<close>

definition asked :: "nat \<Rightarrow> byte list \<Rightarrow> byte list \<Rightarrow> nat \<Rightarrow> client \<Rightarrow> server \<Rightarrow> bool" where
  "asked n line later work c s \<longleftrightarrow>
     c_state c = STATE_RECV_HEADER \<and> c_file_fd c = - 1 \<and> own_fair n c s \<and> sent_of n (kern s) = []
     \<and> rx_weight (rx_of n (kern s)) + length (tx_of n (kern s)) \<le> work
     \<and> c_header_buf c = line @ [NL] \<and> arriving (rx_of n (kern s)) = later"

definition same_store :: "server \<Rightarrow> server \<Rightarrow> bool" where
  "same_store s s' \<longleftrightarrow> same_files s s' \<and> heap_ok (kern s') = heap_ok (kern s)"

lemma same_store_refl [simp]: "same_store s s"
  by (simp add: same_store_def)

lemma same_store_trans: "same_store s s' \<Longrightarrow> same_store s' s'' \<Longrightarrow> same_store s s''"
  by (auto simp: same_store_def intro: same_files_trans)

lemma asking_read:
  assumes a: "asking n line later work c s" and ok: "line_ok line" and r: "handle_read_event c s = (r, s')"
  shows "(\<exists>c'. r = Some c' \<and> asking n line later work c' s' \<and> same_store s s'
            \<and> closes (rx_of n (kern s')) = closes (rx_of n (kern s))
            \<and> rx_weight (rx_of n (kern s')) < rx_weight (rx_of n (kern s)))
       \<or> (\<exists>c1 s1. asked n line later work c1 s1 \<and> same_store s s1 \<and> (r, s') = parse_header_and_transition c1 s1
            \<and> closes (rx_of n (kern s1)) = closes (rx_of n (kern s))
            \<and> rx_weight (rx_of n (kern s1)) < rx_weight (rx_of n (kern s)))"
proof -
  obtain rest where rest: "c_header_buf c @ rest = line" "arriving (rx_of n (kern s)) = rest @ NL # later"
    using a by (auto simp: asking_def)
  have d: "c_state c = STATE_RECV_HEADER" "c_file_fd c = - 1" "map_of (fds (kern s)) (c_fd c) = Some (OSock n)"
    "tx_fair (tx_of n (kern s))" "sent_of n (kern s) = []"
    "rx_weight (rx_of n (kern s)) + length (tx_of n (kern s)) \<le> work"
    using a by (simp_all add: asking_def own_fair_def)
  have nl: "NL \<notin> set rest" and len: "length (c_header_buf c) + length rest + 1 < MAX_HEADER_LEN"
    using ok rest(1) by (auto simp: line_ok_def)
  from header_loop_run [OF d(3) rest(2) nl len] obtain es where
    w: "rx_weight es < rx_weight (rx_of n (kern s))" and cl: "closes es = closes (rx_of n (kern s))" and
    o: "recv_header_loop c (kern s) = (HeaderLine, c\<lparr>c_header_buf := c_header_buf c @ rest @ [NL]\<rparr>, set_rx n es (kern s))
         \<and> arriving es = later
       \<or> (\<exists>a b. rest = a @ b \<and> arriving es = b @ NL # later \<and>
            recv_header_loop c (kern s) = (HeaderWait, c\<lparr>c_header_buf := c_header_buf c @ a\<rparr>, set_rx n es (kern s)))"
    by blast
  let ?s = "s\<lparr>kern := set_rx n es (kern s)\<rparr>"
  have st: "same_store s ?s" by (simp add: same_store_def same_files_kernel)
  from o show ?thesis
  proof (elim disjE exE conjE)
    assume l: "recv_header_loop c (kern s)
        = (HeaderLine, c\<lparr>c_header_buf := c_header_buf c @ rest @ [NL]\<rparr>, set_rx n es (kern s))" "arriving es = later"
    let ?c = "c\<lparr>c_header_buf := c_header_buf c @ rest @ [NL]\<rparr>"
    have "(r, s') = parse_header_and_transition ?c ?s"
      using r by (simp add: handle_read_event_def d(1) l(1))
    moreover have "asked n line later work ?c ?s"
      using d w l(2) rest(1) by (simp add: asked_def own_fair_def)
    ultimately show ?thesis using st w cl by (intro disjI2 exI [of _ ?c] exI [of _ ?s]) simp
  next
    fix x y assume l: "rest = x @ y" "arriving es = y @ NL # later"
      "recv_header_loop c (kern s) = (HeaderWait, c\<lparr>c_header_buf := c_header_buf c @ x\<rparr>, set_rx n es (kern s))"
    let ?c = "c\<lparr>c_header_buf := c_header_buf c @ x\<rparr>"
    have "\<not> length (c_header_buf ?c) \<ge> MAX_HEADER_LEN - 1" using len l(1) by simp
    then have rs: "r = Some ?c" "s' = ?s" using r by (simp_all add: handle_read_event_def d(1) l(3) del: not_le)
    moreover have "asking n line later work ?c ?s"
      using d w l(1,2) rest(1) by (simp add: asking_def own_fair_def)
    ultimately show ?thesis using st w cl by (intro disjI1 exI [of _ ?c]) simp
  qed
qed

subsection \<open>The contract of an exchange\<close>

definition cost_of :: "nat \<Rightarrow> byte list \<Rightarrow> client \<Rightarrow> server \<Rightarrow> nat" where
  "cost_of n contents c s = (if receiving c then rx_weight (rx_of n (kern s)) else to_go n contents c s)"

lemma cost_of_heap: "cost_of n contents c (s\<lparr>heap := h\<rparr>) = cost_of n contents c s"
  by (simp add: cost_of_def)

definition answer :: "nat \<Rightarrow> byte list \<Rightarrow> nat \<Rightarrow> byte list \<Rightarrow> nat \<Rightarrow> (server \<Rightarrow> bool) \<Rightarrow> handled \<Rightarrow> bool" where
  "answer n out i contents work eff h \<longleftrightarrow>
     (case h of (r, s) \<Rightarrow> eff s \<and> (case r of None \<Rightarrow> sent_of n (kern s) = out
        | Some c \<Rightarrow> sending n out i contents c s \<and> to_go n contents c s < work))"

lemma delivers_answer:
  assumes "delivers n out i contents j s0 h" and "j \<le> work" and "\<And>s. same_files s0 s \<Longrightarrow> eff s"
  shows "answer n out i contents work eff h"
  using assms by (auto simp: answer_def delivers_def split: prod.splits option.splits)

text \<open>
  An exchange: \<open>rinv\<close> holds while the connection receives; each read leaves less to be read, or
  the reply begins. \<open>v\<close> says which of the possible replies it is: \<open>out v\<close> is sent, and \<open>eff v\<close>
  holds of the stored files from then on.
\<close>

locale exchange =
  fixes n :: nat and i :: nat and contents :: "byte list" and bound :: nat
    and rinv :: "client \<Rightarrow> server \<Rightarrow> bool" and out :: "'r \<Rightarrow> byte list" and eff :: "'r \<Rightarrow> server \<Rightarrow> bool"
  assumes rinv_heap: "rinv c (s\<lparr>heap := h\<rparr>) = rinv c s"
    and rinv_receiving: "rinv c s \<Longrightarrow> receiving c" and rinv_bound: "rinv c s \<Longrightarrow> rx_weight (rx_of n (kern s)) < bound"
    and eff_same: "eff v s \<Longrightarrow> same_files s s' \<Longrightarrow> eff v s'"
    and read_turn: "rinv c s \<Longrightarrow> handle_read_event c s = (r, s') \<Longrightarrow>
      (\<exists>c'. r = Some c' \<and> rinv c' s' \<and> rx_weight (rx_of n (kern s')) < rx_weight (rx_of n (kern s)))
      \<or> (\<exists>v. answer n (out v) i contents bound (eff v) (r, s'))"
begin

definition talk :: "client \<Rightarrow> server \<Rightarrow> bool" where
  "talk c s \<longleftrightarrow> rinv c s \<or> (\<exists>v. sending n (out v) i contents c s \<and> to_go n contents c s < bound \<and> eff v s)"

definition told :: "server \<Rightarrow> bool" where
  "told s \<longleftrightarrow> (\<exists>v. sent_of n (kern s) = out v \<and> eff v s)"

lemma same_heap: "same_files s (s\<lparr>heap := h\<rparr>)" "same_files (s\<lparr>heap := h\<rparr>) s"
  by (simp_all add: same_files_def)

lemma eff_heap: "eff v (s\<lparr>heap := h\<rparr>) = eff v s"
  using eff_same same_heap by blast

lemma answer_talk:
  assumes "answer n (out v) i contents bound (eff v) (r, s)"
  shows "r = None \<Longrightarrow> told s" and "r = Some c \<Longrightarrow> talk c s \<and> \<not> receiving c"
  using assms sending_not_receiving by (auto simp: answer_def told_def talk_def)

lemma talk_cases:
  assumes "talk c s"
  obtains "rinv c s" and "receiving c"
  | v where "sending n (out v) i contents c s" and "to_go n contents c s < bound" and "eff v s" and "\<not> receiving c"
  using assms rinv_receiving sending_not_receiving unfolding talk_def by blast

lemma sending_turn:
  assumes "sending n (out v) i contents c s" and "to_go n contents c s < bound" and "eff v s"
    and "handle_write_event c s = (r, s')"
  shows "r = None \<Longrightarrow> told s'"
    and "r = Some c' \<Longrightarrow> talk c' s' \<and> \<not> receiving c' \<and> cost_of n contents c' s' < cost_of n contents c s"
proof -
  note d = sending_write(1) [OF assms(1), unfolded assms(4)]
  show "told s'" if "r = None" using d that eff_same [OF assms(3)] by (auto simp: told_def)
  show "talk c' s' \<and> \<not> receiving c' \<and> cost_of n contents c' s' < cost_of n contents c s" if "r = Some c'"
  proof -
    have c': "same_files s s'" "sending n (out v) i contents c' s'" "to_go n contents c' s' < to_go n contents c s"
      using d that by simp_all
    moreover have "eff v s'" "to_go n contents c' s' < bound" using eff_same [OF assms(3)] c' assms(2) by auto
    ultimately show ?thesis
      using sending_not_receiving [OF assms(1)] sending_not_receiving [OF c'(2)]
      by (auto simp: talk_def cost_of_def)
  qed
qed

lemma receiving_turn:
  assumes "rinv c s" and "handle_read_event c s = (r, s')"
  shows "r = None \<Longrightarrow> told s'"
    and "r = Some c' \<Longrightarrow> talk c' s' \<and> (receiving c' \<longrightarrow> cost_of n contents c' s' < cost_of n contents c s)"
proof -
  note t = read_turn [OF assms] and rc = rinv_receiving [OF assms(1)]
  show "told s'" if "r = None" using t answer_talk(1) that by auto
  show "talk c' s' \<and> (receiving c' \<longrightarrow> cost_of n contents c' s' < cost_of n contents c s)" if "r = Some c'"
    using t
  proof (elim disjE exE conjE)
    fix c'' assume "r = Some c''" "rinv c'' s'" "rx_weight (rx_of n (kern s')) < rx_weight (rx_of n (kern s))"
    then show ?thesis using that rc by (simp add: talk_def cost_of_def)
  next
    fix v assume "answer n (out v) i contents bound (eff v) (r, s')"
    from answer_talk(2) [OF this that] show ?thesis by blast
  qed
qed

sublocale conversation talk "cost_of n contents" told bound
proof
  show "talk c (s\<lparr>heap := h\<rparr>) = talk c s" for c s h by (simp add: talk_def rinv_heap eff_heap)
  show "told (s\<lparr>heap := h\<rparr>) = told s" for s h by (simp add: told_def eff_heap)
  show "cost_of n contents c (s\<lparr>heap := h\<rparr>) = cost_of n contents c s" for c s h by (rule cost_of_heap)
  show "cost_of n contents c s < bound" if "talk c s" for c s
    using that rinv_bound by (cases rule: talk_cases) (auto simp: cost_of_def)
  show "handle_read_event c s = (Some c, s)" if "talk c s" and "\<not> receiving c" for c s
    using that sending_read by (cases rule: talk_cases) auto
next
  fix c s s' assume "talk c s" and tr: "turn (if receiving c then FSS_EVENT_READ else FSS_EVENT_WRITE) c s = (None, s')"
  then show "told s'"
  proof (cases rule: talk_cases)
    case 1
    with receiving_turn(1) [OF 1(1)] tr show ?thesis by (simp add: turn_def)
  next
    case (2 v)
    with sending_turn(1) [OF 2(1-3)] tr sending_write(2) [OF 2(1)] show ?thesis by (simp add: turn_def)
  qed
next
  fix c s c' s' assume "talk c s"
    and tr: "turn (if receiving c then FSS_EVENT_READ else FSS_EVENT_WRITE) c s = (Some c', s')"
  then show "talk c' s' \<and> (if receiving c then receiving c' \<longrightarrow> cost_of n contents c' s' < cost_of n contents c s
          else \<not> receiving c' \<and> cost_of n contents c' s' < cost_of n contents c s)"
  proof (cases rule: talk_cases)
    case 1
    with receiving_turn(2) [OF 1(1)] tr show ?thesis by (simp add: turn_def)
  next
    case (2 v)
    with sending_turn(2) [OF 2(1-3)] tr sending_write(2) [OF 2(1)] show ?thesis by (simp add: turn_def)
  qed
qed

text \<open>From the beginning to the end.\<close>

theorem exchanged:
  assumes "conn_at p fd c s" and "rinv c s" and "events_on fd es" and "events_on fd es'"
    and "bound \<le> times FSS_EVENT_READ es" and "bound \<le> times FSS_EVENT_WRITE es'"
  shows "\<exists>s' v. handle_events (es @ es') s = Some s' \<and> conn_over p fd s' \<and> sent_of n (kern s') = out v \<and> eff v s'"
  using ends [OF assms(1) _ assms(3-6)] assms(2) by (auto simp: talk_def told_def)

end

text \<open>
  A request whose line is all there is to receive. \<open>start\<close> is what is known of the stored
  files when the line is complete, \<open>eff\<close> what holds of them when the reply begins, \<open>out\<close> the
  reply.
\<close>

locale request =
  fixes n :: nat and line later out :: "byte list" and i :: nat and contents :: "byte list" and work :: nat
    and start :: "server \<Rightarrow> bool" and eff :: "server \<Rightarrow> bool"
  assumes start_line: "start s \<Longrightarrow> line_ok line"
    and start_same: "start s \<Longrightarrow> same_store s s' \<Longrightarrow> start s'"
    and effect_same: "eff s \<Longrightarrow> same_files s s' \<Longrightarrow> eff s'"
    and answered: "start s \<Longrightarrow> asked n line later work c s \<Longrightarrow>
      answer n out i contents (work + length out + 1) eff (parse_header_and_transition c s)"
begin

lemma start_heap: "start (s\<lparr>heap := h\<rparr>) = start s"
proof -
  have "same_store s (s\<lparr>heap := h\<rparr>)" "same_store (s\<lparr>heap := h\<rparr>) s" by (simp_all add: same_files_def same_store_def)
  then show ?thesis using start_same by blast
qed

sublocale exchange n i contents "work + length out + 1" "\<lambda>c s. asking n line later work c s \<and> start s"
    "\<lambda>v :: unit. out" "\<lambda>v. eff"
proof
  fix c s r s' assume a: "asking n line later work c s \<and> start s" and r: "handle_read_event c s = (r, s')"
  from a have "asking n line later work c s" and st: "start s" by blast+
  from asking_read [OF this(1) start_line [OF st] r]
  show "(\<exists>c'. r = Some c' \<and> (asking n line later work c' s' \<and> start s')
      \<and> rx_weight (rx_of n (kern s')) < rx_weight (rx_of n (kern s)))
      \<or> (\<exists>v :: unit. answer n out i contents (work + length out + 1) eff (r, s'))"
  proof (elim disjE exE conjE)
    fix c' assume "r = Some c'" "asking n line later work c' s'" "same_store s s'"
      "rx_weight (rx_of n (kern s')) < rx_weight (rx_of n (kern s))"
    with start_same [OF st] show ?thesis by simp
  next
    fix c1 s1 assume p: "asked n line later work c1 s1" "same_store s s1" "(r, s') = parse_header_and_transition c1 s1"
    from answered [OF start_same [OF st p(2)] p(1)] show ?thesis by (simp add: p(3))
  qed
qed (use effect_same in \<open>auto simp: start_heap asking_def own_fair_def\<close>)

theorem served:
  assumes "conn_at p fd c s" and "asking n line later work c s" and "start s"
    and "events_on fd es" and "events_on fd es'"
    and "work + length out + 1 \<le> times FSS_EVENT_READ es" and "work + length out + 1 \<le> times FSS_EVENT_WRITE es'"
  shows "\<exists>s'. handle_events (es @ es') s = Some s' \<and> conn_over p fd s' \<and> sent_of n (kern s') = out \<and> eff s'"
  using exchanged [OF assms(1) conjI [OF assms(2,3)] assms(4-7)] by blast

end

subsection \<open>The grammar of the request line\<close>

datatype request = AskList | AskDelete string | AskGet string | AskPut string | AskBad

definition verb_named :: "string \<Rightarrow> verb option" where
  "verb_named v = (if v = ''LIST'' then Some LIST else if v = ''DELETE'' then Some DELETE
                   else if v = ''GET'' then Some GET else if v = ''PUT'' then Some PUT else None)"

definition request_of :: "byte list \<Rightarrow> request" where
  "request_of line =
     (case (verb_named (verb_of line), name_of line) of
        (Some LIST, None) \<Rightarrow> AskList
      | (Some DELETE, Some f) \<Rightarrow> AskDelete f
      | (Some GET, Some f) \<Rightarrow> AskGet f
      | (Some PUT, Some f) \<Rightarrow> AskPut f
      | _ \<Rightarrow> AskBad)"

lemma name_no_nul:
  assumes "NUL \<notin> set line" and "name_of line = Some f"
  shows "NUL \<notin> set f"
proof -
  have "set f \<subseteq> set line"
    using assms(2) set_drop_subset [of 1 "dropWhile (\<lambda>c. c \<noteq> CHR '' '') line"] set_dropWhileD
    by (fastforce simp: name_of_def split: if_splits)
  with assms(1) show ?thesis by blast
qed

text \<open>The parser of the code reads this grammar.\<close>

definition parsed :: "byte list \<Rightarrow> client \<Rightarrow> client" where
  "parsed line c = c\<lparr>c_header_buf := fst (split_header (line @ [NL]) (length line)),
     c_verb := (case verb_named (verb_of line) of None \<Rightarrow> c_verb c | Some v \<Rightarrow> v)\<rparr>"

lemma parsed_simps [simp]:
  "c_fd (parsed line c) = c_fd c" "c_file_fd (parsed line c) = c_file_fd c" "c_state (parsed line c) = c_state c"
  by (simp_all add: parsed_def)

lemma parse_grammar:
  assumes "c_header_buf c = line @ [NL]" and "line_ok line"
  shows "parse_header_and_transition c s =
     (case request_of line of
        AskList \<Rightarrow> prepare_and_send_response (parsed line c) s ''OK'' None
      | AskDelete f \<Rightarrow> delete_request (parsed line c\<lparr>c_filename := take 255 f\<rparr>) s
      | AskGet f \<Rightarrow> start_send_get (parsed line c\<lparr>c_filename := take 255 f\<rparr>) s
      | AskPut f \<Rightarrow>
          (Some (parsed line c\<lparr>c_filename := take 255 f, c_bytes_transferred := 0, c_state := STATE_RECV_PUT_SIZE\<rparr>),
           modify_event_loop (c_fd c) FSS_EVENT_READ s)
      | AskBad \<Rightarrow> prepare_and_send_response (parsed line c) s ''ERROR'' (Some err_bad_request))"
proof -
  have ok: "NUL \<notin> set line" "NL \<notin> set line" using assms(2) by (simp_all add: line_ok_def)
  note sp = split_header_line [OF ok]
  obtain buf where buf: "split_header (line @ [NL]) (length line) = (buf, verb_of line, name_of line)"
    using sp(2) by (cases "split_header (line @ [NL]) (length line)") auto
  have f: "strncpy 255 f = take 255 f" if "name_of line = Some f" for f
    using name_no_nul [OF ok(1) that] by (simp add: strncpy_def cstr_id)
  note unf = parse_header_and_transition_def [of c s, unfolded assms(1) sp(1) option.case buf prod.case Let_def]
  have v: "''DELETE'' \<noteq> ''LIST''" "''GET'' \<noteq> ''LIST''" "''GET'' \<noteq> ''DELETE''" "''PUT'' \<noteq> ''LIST''"
    "''PUT'' \<noteq> ''DELETE''" "''PUT'' \<noteq> ''GET''" by simp_all
  show ?thesis
    unfolding unf request_of_def parsed_def buf fst_conv verb_named_def
    using f by (cases "name_of line") (simp_all add: v)
qed

text \<open>The lines that the client writes are read back.\<close>

lemma request_of_lines:
  "request_of ''LIST'' = AskList" "request_of (''DELETE '' @ f) = AskDelete f"
  "request_of (''GET '' @ f) = AskGet f" "request_of (''PUT '' @ f) = AskPut f"
proof -
  have b: "CHR '' '' \<notin> set ''LIST''" "CHR '' '' \<notin> set ''DELETE''" "CHR '' '' \<notin> set ''GET''" "CHR '' '' \<notin> set ''PUT''"
    by simp_all
  show "request_of ''LIST'' = AskList"
    using verb_name_of(3,4) [OF b(1)] by (simp add: request_of_def verb_named_def)
  show "request_of (''DELETE '' @ f) = AskDelete f"
    using verb_name_of(1,2) [OF b(2), of f] by (simp add: request_of_def verb_named_def)
  show "request_of (''GET '' @ f) = AskGet f"
    using verb_name_of(1,2) [OF b(3), of f] by (simp add: request_of_def verb_named_def)
  show "request_of (''PUT '' @ f) = AskPut f"
    using verb_name_of(1,2) [OF b(4), of f] by (simp add: request_of_def verb_named_def)
qed

end
