(* ===== verification/Fss_Server_Answers.thy ===== *)
theory Fss_Server_Answers
  imports Fss_Server_Request
begin

section \<open>The replies\<close>

text \<open>
  The contract of a request that is answered at once, instantiated to the code: lists,
  downloads, deletions, requests for files that do not exist, and requests that are none.
\<close>

lemma asked_facts:
  assumes "asked n line later work c s"
  shows "c_header_buf c = line @ [NL]" and "sent_of n (kern s) = []" and "length (tx_of n (kern s)) \<le> work"
    and "own_fair n c s" and "c_file_fd c = - 1"
  using assms by (simp_all add: asked_def)

lemma same_files_fields:
  assumes "same_files s0 s"
  shows "server_files s = server_files s0" and "temp_dir s = temp_dir s0" and "dents (kern s) = dents (kern s0)"
    and "inodes (kern s) = inodes (kern s0)" and "resolve (kern s) = resolve (kern s0)" and "disk (kern s) = disk (kern s0)"
  using assms by (simp_all add: same_files_def)

lemma err_lengths:
  "length (error_lines (Some err_bad_request)) < MAX_HEADER_LEN"
  "length (error_lines (Some err_no_such_file)) < MAX_HEADER_LEN"
  "length (error_lines (Some err_bad_file_size)) < MAX_HEADER_LEN"
  by (simp_all add: error_lines_def err_bad_request_def err_no_such_file_def err_bad_file_size_def MAX_HEADER_LEN_def)

lemma error_answer:
  assumes "own_fair n c s" and "sent_of n (kern s) = []" and "length (tx_of n (kern s)) \<le> work"
    and "length (error_lines msg) < MAX_HEADER_LEN" and "same_files s0 s"
  shows "answer n (error_lines msg) i contents (work + length (error_lines msg) + 1) (same_files s0)
           (prepare_and_send_response c s ''ERROR'' msg)"
proof (rule delivers_answer)
  show "delivers n (error_lines msg) i contents (length (tx_of n (kern s)) + length (error_lines msg)) s
      (prepare_and_send_response c s ''ERROR'' msg)"
    using prepare_error [OF assms(1,4), of i contents] assms(2) by simp
qed (use assms(3,5) same_files_trans in auto)

lemma own_fair_simps [simp]:
  "own_fair n (parsed line c) s = own_fair n c s" "own_fair n (c\<lparr>c_filename := f\<rparr>) s = own_fair n c s"
  "own_fair n (c\<lparr>c_file_fd := d\<rparr>) s = own_fair n c s"
  by (simp_all add: own_fair_def)

subsection \<open>Not a request\<close>

definition bad_start :: "server \<Rightarrow> byte list \<Rightarrow> server \<Rightarrow> bool" where
  "bad_start s0 line s \<longleftrightarrow> same_store s0 s \<and> line_ok line \<and> request_of line = AskBad"

interpretation bad: request n line later "error_lines (Some err_bad_request)" 0 "[]" work "bad_start s0 line" "same_files s0"
  for n line later work s0
proof
  show "answer n (error_lines (Some err_bad_request)) 0 [] (work + length (error_lines (Some err_bad_request)) + 1)
      (same_files s0) (parse_header_and_transition c s)"
    if "bad_start s0 line s" and "asked n line later work c s" for c s
  proof -
    have b: "same_files s0 s" "line_ok line" "request_of line = AskBad"
      using that(1) by (simp_all add: bad_start_def same_store_def)
    note a = asked_facts [OF that(2)]
    show ?thesis
      unfolding parse_grammar [OF a(1) b(2)] b(3) request.case
      by (rule error_answer [OF _ a(2,3) err_lengths(1) b(1)]) (simp add: a(4))
  qed
qed (auto simp: bad_start_def intro: same_store_trans same_files_trans)

subsection \<open>Lists\<close>

definition list_start :: "server \<Rightarrow> byte list \<Rightarrow> byte list \<Rightarrow> server \<Rightarrow> bool" where
  "list_start s0 line out s \<longleftrightarrow> same_store s0 s \<and> line_ok line \<and> request_of line = AskList \<and> files_ok s0
     \<and> False \<notin> set (heap_ok (kern s0)) \<and> out = OK_LINE @ list_reply (files_of s0)"

lemma ok_length: "length OK_LINE < MAX_HEADER_LEN" "OK_LINE \<noteq> []"
  by (simp_all add: OK_LINE_def MAX_HEADER_LEN_def)

lemmas ok_fits = prepare_fits [of OK_LINE "''OK''" None, simplified, OF ok_length(1)]

lemma list_verb: "request_of line = AskList \<Longrightarrow> verb_named (verb_of line) = Some LIST"
  by (auto simp: request_of_def split: option.splits verb.splits)

interpretation list_all: request n line later out 0 "[]" work "list_start s0 line out" "same_files s0"
  for n line later out work s0
proof
  show "answer n out 0 [] (work + length out + 1) (same_files s0) (parse_header_and_transition c s)"
    if "list_start s0 line out s" and "asked n line later work c s" for c s
  proof -
    have b: "same_files s0 s" "line_ok line" "request_of line = AskList" "files_ok s" "False \<notin> set (heap_ok (kern s))"
      "out = OK_LINE @ list_reply (files_of s)"
      using that(1) by (auto simp: list_start_def same_store_def same_files_def files_ok_def)
    note a = asked_facts [OF that(2)]
    let ?c = "parsed line c"
    have v: "c_verb ?c = LIST" using list_verb [OF b(3)] by (simp add: parsed_def)
    have ts: "to_send [] (prepare_response ''OK'' None ?c) s = out"
      using v by (simp add: to_send_def b(6) ok_fits)
    have r: "send_ready 0 [] (prepare_response ''OK'' None ?c) s"
      using v b(4,5) ok_length(2) by (simp add: send_ready_def ok_fits)
    have o: "own_fair n ?c s" using a(4) by simp
    have t: "sent_of n (kern s) @ to_send [] (prepare_response ''OK'' None ?c) s = out" using ts a(2) by simp
    have g: "to_go n [] (prepare_response ''OK'' None ?c) s \<le> work + length out + 1"
      using a(3) by (simp add: to_go_def ts)
    show ?thesis
      unfolding parse_grammar [OF a(1) b(2)] b(3) request.case
      by (rule delivers_answer [OF prepare_sends [OF o t r] g same_files_trans [OF b(1)]])
  qed
qed (auto simp: list_start_def intro: same_store_trans same_files_trans)


subsection \<open>Files that are not there\<close>

text \<open>A path that leads nowhere; a request for such a file, or for a name that is not listed.\<close>

definition ino_at :: "kernel \<Rightarrow> string \<Rightarrow> nat option" where
  "ino_at k path = (case resolve k path of None \<Rightarrow> None | Some entry \<Rightarrow> map_of (dents k) entry)"

definition missing_start :: "server \<Rightarrow> byte list \<Rightarrow> server \<Rightarrow> bool" where
  "missing_start s0 line s \<longleftrightarrow> same_store s0 s \<and> line_ok line \<and>
     ((\<exists>f. request_of line = AskGet f \<and> ino_at (kern s0) (filepath s0 (take 255 f)) = None \<and> disk (kern s0) = [])
      \<or> (\<exists>f. request_of line = AskDelete f \<and> files_ok s0 \<and> take 255 f \<notin> set (files_of s0)))"

lemma filepath_same: "same_files s0 s \<Longrightarrow> filepath s f = filepath s0 f"
  by (simp add: filepath_def same_files_def)

lemma open_missing:
  assumes "ino_at k path = None" and "disk k = []"
  shows "sys_open_rdonly path k = (- 1, k)"
  using assms by (auto simp: sys_open_rdonly_def ino_at_def next_disk_def split: option.splits)

lemma find_absent:
  assumes "files_ok s" and "name \<notin> set (files_of s)"
  shows "find_file s name = None"
  using assms find_file_None by blast

interpretation missing: request n line later "error_lines (Some err_no_such_file)" 0 "[]" work
    "missing_start s0 line" "same_files s0"
  for n line later work s0
proof
  show "answer n (error_lines (Some err_no_such_file)) 0 [] (work + length (error_lines (Some err_no_such_file)) + 1)
      (same_files s0) (parse_header_and_transition c s)"
    if "missing_start s0 line s" and "asked n line later work c s" for c s
  proof -
    have b: "same_files s0 s" "line_ok line" using that(1) by (simp_all add: missing_start_def same_store_def)
    note a = asked_facts [OF that(2)] and f = same_files_fields [OF b(1)]
    from that(1) consider (get) g where "request_of line = AskGet g" "ino_at (kern s0) (filepath s0 (take 255 g)) = None"
        "disk (kern s0) = []"
      | (del) g where "request_of line = AskDelete g" "files_ok s0" "take 255 g \<notin> set (files_of s0)"
      unfolding missing_start_def by blast
    then show ?thesis
    proof cases
      case get
      let ?c = "parsed line c\<lparr>c_filename := take 255 g\<rparr>"
      have "sys_open_rdonly (filepath s (take 255 g)) (kern s) = (- 1, kern s)"
        using get(2,3) f filepath_same [OF b(1)]
        by (intro open_missing) (auto simp: ino_at_def split: option.splits)
      then have e: "start_send_get ?c s
          = prepare_and_send_response (?c\<lparr>c_file_fd := - 1\<rparr>) s ''ERROR'' (Some err_no_such_file)"
        by (simp add: start_send_get_def)
      show ?thesis
        unfolding parse_grammar [OF a(1) b(2)] get(1) request.case e
        by (rule error_answer [OF _ a(2,3) err_lengths(2) b(1)]) (simp add: a(4))
    next
      case del
      let ?c = "parsed line c\<lparr>c_filename := take 255 g\<rparr>"
      have "find_file s (take 255 g) = None"
        using del f by (intro find_absent) (simp_all add: files_ok_def)
      then have e: "delete_request ?c s = prepare_and_send_response ?c s ''ERROR'' (Some err_no_such_file)"
        by (simp add: delete_request_def)
      show ?thesis
        unfolding parse_grammar [OF a(1) b(2)] del(1) request.case e
        by (rule error_answer [OF _ a(2,3) err_lengths(2) b(1)]) (simp add: a(4))
    qed
  qed
qed (auto simp: missing_start_def intro: same_store_trans same_files_trans)

subsection \<open>Downloads\<close>

lemma prepare_file [simp]:
  "c_file_size (prepare_response st msg c) = c_file_size c" "c_file_fd (prepare_response st msg c) = c_file_fd c"
  "c_bytes_transferred (prepare_response st msg c) = c_bytes_transferred c"
  by (simp_all add: prepare_response_def Let_def)

definition get_start :: "server \<Rightarrow> byte list \<Rightarrow> nat \<Rightarrow> byte list \<Rightarrow> byte list \<Rightarrow> server \<Rightarrow> bool" where
  "get_start s0 line i contents out s \<longleftrightarrow> same_store s0 s \<and> line_ok line \<and>
     (\<exists>f. request_of line = AskGet f \<and> ino_at (kern s0) (filepath s0 (take 255 f)) = Some i)
     \<and> inodes (kern s0) i = Regular contents \<and> disk (kern s0) = [] \<and> length contents < 2 ^ 64
     \<and> out = OK_LINE @ encode_size (of_nat (length contents)) @ contents"

lemma same_files_open: "same_files s (s\<lparr>kern := (kern s)\<lparr>fds := t\<rparr>\<rparr>)"
  by (simp add: same_files_def)

lemma get_verb: "request_of line = AskGet f \<Longrightarrow> verb_named (verb_of line) = Some GET"
  by (auto simp: request_of_def split: option.splits verb.splits)

interpretation get: request n line later out i contents work "get_start s0 line i contents out" "same_files s0"
  for n line later out i contents work s0
proof
  show "answer n out i contents (work + length out + 1) (same_files s0) (parse_header_and_transition c s)"
    if "get_start s0 line i contents out s" and "asked n line later work c s" for c s
  proof -
    have b: "same_files s0 s" "line_ok line" using that(1) by (simp_all add: get_start_def same_store_def)
    note a = asked_facts [OF that(2)] and ff = same_files_fields [OF b(1)]
    from that(1) obtain g where g: "request_of line = AskGet g" "ino_at (kern s0) (filepath s0 (take 255 g)) = Some i"
        "inodes (kern s0) i = Regular contents" "disk (kern s0) = []" "length contents < 2 ^ 64"
        "out = OK_LINE @ encode_size (of_nat (length contents)) @ contents"
      unfolding get_start_def by blast
    define fd where "fd = fresh_fd (fds (kern s))"
    define k where "k = (kern s)\<lparr>fds := (fd, OFile i) # fds (kern s)\<rparr>"
    define c1 where "c1 = parsed line c\<lparr>c_filename := take 255 g, c_file_fd := fd,
        c_file_size := of_nat (length contents), c_bytes_transferred := 0\<rparr>"
    have op: "sys_open_rdonly (filepath s (take 255 g)) (kern s) = (fd, k)"
      using g(2,4) ff filepath_same [OF b(1)]
      by (auto simp: sys_open_rdonly_def ino_at_def next_disk_def open_file_def fd_def k_def split: option.splits)
    have st: "sys_fstat fd k = (Some (length contents), k)"
      using g(3,4) ff by (simp add: sys_fstat_def next_disk_def k_def)
    have ne: "fd \<noteq> - 1" using fresh_fd_ne_minus_one by (simp add: fd_def)
    have e: "start_send_get (parsed line c\<lparr>c_filename := take 255 g\<rparr>) s
        = prepare_and_send_response c1 (s\<lparr>kern := k\<rparr>) ''OK'' None"
      using op st ne by (simp add: start_send_get_def c1_def)
    have old: "c_fd c \<noteq> fd"
      using a(4) fresh_fd_unmapped [of "fds (kern s)"] by (auto simp: own_fair_def fd_def)
    have v: "c_verb c1 = GET" using get_verb [OF g(1)] by (simp add: c1_def parsed_def)
    have ts: "to_send contents (prepare_response ''OK'' None c1) (s\<lparr>kern := k\<rparr>) = out"
      using v by (simp add: to_send_def g(6) ok_fits) (simp add: c1_def)
    have sv: "serving i contents (prepare_response ''OK'' None c1) (s\<lparr>kern := k\<rparr>)"
      using g(3,4,5) ff by (simp add: serving_def) (simp add: c1_def k_def unat_of_nat take_bit_nat_eq_self)
    have r: "send_ready i contents (prepare_response ''OK'' None c1) (s\<lparr>kern := k\<rparr>)"
      using v sv ok_length(2) by (simp add: send_ready_def ok_fits) (simp add: c1_def)
    have o: "own_fair n c1 (s\<lparr>kern := k\<rparr>)" using a(4) old by (simp add: own_fair_def c1_def k_def)
    have t: "sent_of n (kern (s\<lparr>kern := k\<rparr>)) @ to_send contents (prepare_response ''OK'' None c1) (s\<lparr>kern := k\<rparr>) = out"
      using ts a(2) by (simp add: k_def)
    have le: "to_go n contents (prepare_response ''OK'' None c1) (s\<lparr>kern := k\<rparr>) \<le> work + length out + 1"
      using a(3) by (simp add: to_go_def ts) (simp add: k_def)
    have sf: "same_files s0 (s\<lparr>kern := k\<rparr>)" unfolding k_def by (rule same_files_trans [OF b(1) same_files_open])
    show ?thesis
      unfolding parse_grammar [OF a(1) b(2)] g(1) request.case e
      by (rule delivers_answer [OF prepare_sends [OF o t r] le same_files_trans [OF sf]])
  qed
qed (auto simp: get_start_def intro: same_store_trans same_files_trans)


subsection \<open>Deletions\<close>

definition deleted :: "string \<Rightarrow> string \<Rightarrow> server \<Rightarrow> server" where
  "deleted name entry s =
     remove_file_from_list name (s\<lparr>kern := (kern s)\<lparr>dents := filter (\<lambda>(e, v). e \<noteq> entry) (dents (kern s))\<rparr>\<rparr>)"

definition delete_start :: "server \<Rightarrow> byte list \<Rightarrow> string \<Rightarrow> string \<Rightarrow> server \<Rightarrow> bool" where
  "delete_start s0 line name entry s \<longleftrightarrow> same_store s0 s \<and> line_ok line
     \<and> (\<exists>f. request_of line = AskDelete f \<and> name = take 255 f) \<and> files_ok s0 \<and> name \<in> set (files_of s0)
     \<and> resolve (kern s0) (filepath s0 name) = Some entry
     \<and> (\<exists>i bs. map_of (dents (kern s0)) entry = Some i \<and> inodes (kern s0) i = Regular bs) \<and> disk (kern s0) = []"

lemma deleted_fields [simp]:
  "kern (deleted name entry s) = (kern s)\<lparr>dents := filter (\<lambda>(e, v). e \<noteq> entry) (dents (kern s))\<rparr>"
  "temp_dir (deleted name entry s) = temp_dir s" "listen_fd (deleted name entry s) = listen_fd s"
  by (simp_all add: deleted_def remove_file_from_list_def split: option.splits)

lemma deleted_files:
  assumes "files_ok s"
  shows "files_of (deleted name entry s) = remove1 name (files_of s)" and "files_ok (deleted name entry s)"
proof -
  have "files_ok (s\<lparr>kern := (kern s)\<lparr>dents := filter (\<lambda>(e, v). e \<noteq> entry) (dents (kern s))\<rparr>\<rparr>)"
    using assms by (simp add: files_ok_def)
  from remove_file_items [OF this, of name]
  show "files_of (deleted name entry s) = remove1 name (files_of s)" and "files_ok (deleted name entry s)"
    by (simp_all add: deleted_def)
qed

lemma same_files_deleted: "same_files s0 s \<Longrightarrow> same_files (deleted name entry s0) (deleted name entry s)"
  by (simp add: same_files_def) (simp add: deleted_def remove_file_from_list_def find_file_def split: option.splits)

lemma unlink_file:
  assumes "resolve k path = Some entry" and "map_of (dents k) entry = Some i" and "inodes k i = Regular bs" and "disk k = []"
  shows "sys_unlink path k = (True, k\<lparr>dents := filter (\<lambda>(e, v). e \<noteq> entry) (dents k)\<rparr>)"
  using assms by (simp add: sys_unlink_def next_disk_def)

lemma delete_verb: "request_of line = AskDelete f \<Longrightarrow> verb_named (verb_of line) = Some DELETE"
  by (auto simp: request_of_def split: option.splits verb.splits)

interpretation delete: request n line later OK_LINE 0 "[]" work "delete_start s0 line name entry"
    "same_files (deleted name entry s0)"
  for n line later work s0 name entry
proof
  show "answer n OK_LINE 0 [] (work + length OK_LINE + 1) (same_files (deleted name entry s0))
      (parse_header_and_transition c s)"
    if "delete_start s0 line name entry s" and "asked n line later work c s" for c s
  proof -
    have b: "same_files s0 s" "line_ok line" using that(1) by (simp_all add: delete_start_def same_store_def)
    note a = asked_facts [OF that(2)] and ff = same_files_fields [OF b(1)]
    from that(1) obtain g i bs where g: "request_of line = AskDelete g" "name = take 255 g" "files_ok s0"
        "name \<in> set (files_of s0)" "resolve (kern s0) (filepath s0 name) = Some entry"
        "map_of (dents (kern s0)) entry = Some i" "inodes (kern s0) i = Regular bs" "disk (kern s0) = []"
      unfolding delete_start_def by blast
    let ?c = "parsed line c\<lparr>c_filename := name\<rparr>"
    have "files_ok s" using g(3) ff by (simp add: files_ok_def)
    then have "find_file s name \<noteq> None" using find_file_None [of s name] g(4) ff by simp
    then obtain idx where idx: "find_file s name = Some idx" by blast
    have ul: "sys_unlink (filepath s name) (kern s)
        = (True, (kern s)\<lparr>dents := filter (\<lambda>(e, v). e \<noteq> entry) (dents (kern s))\<rparr>)"
      using g ff filepath_same [OF b(1)] by (intro unlink_file) simp_all
    have e: "delete_request ?c s = prepare_and_send_response ?c (deleted name entry s) ''OK'' None"
      by (simp add: delete_request_def idx ul deleted_def)
    have o: "own_fair n ?c (deleted name entry s)" using a(4) by (simp add: own_fair_def)
    have v: "c_verb ?c = PUT \<or> c_verb ?c = DELETE" using delete_verb [OF g(1)] by (simp add: parsed_def)
    note d = prepare_ok_line [OF o v, of 0 "[]" None]
    have d': "delivers n OK_LINE 0 [] (length (tx_of n (kern s)) + length OK_LINE) (deleted name entry s)
        (delete_request ?c s)" unfolding e using d a(2) by simp
    show ?thesis
      unfolding parse_grammar [OF a(1) b(2)] g(1) request.case g(2) [symmetric]
    proof (rule delivers_answer [OF d'])
      show "length (tx_of n (kern s)) + length OK_LINE \<le> work + length OK_LINE + 1" using a(3) by simp
      show "same_files (deleted name entry s0) s'" if "same_files (deleted name entry s) s'" for s'
        by (rule same_files_trans [OF same_files_deleted [OF b(1)] that])
    qed
  qed
qed (auto simp: delete_start_def intro: same_store_trans same_files_trans)

end
