(* ===== verification/Fss_Server_Upload.thy ===== *)
theory Fss_Server_Upload
  imports Fss_Server_Answers
begin

section \<open>Uploads\<close>

text \<open>
  The conversation of an upload: the request line, the eight bytes of the size \<open>w\<close>, the body.
  Whatever the body is, the file holds the first \<open>w\<close> bytes of it that have arrived; the reply
  is \<open>OK\<close> if there are exactly \<open>w\<close>, and an error if there are fewer.
\<close>

subsection \<open>The store while a file is written\<close>

definition put_ino :: "server \<Rightarrow> string \<Rightarrow> nat" where
  "put_ino s entry = (case map_of (dents (kern s)) entry of None \<Rightarrow> next_ino (kern s) | Some i \<Rightarrow> i)"

definition with_entry :: "server \<Rightarrow> string \<Rightarrow> (string \<times> nat) list" where
  "with_entry s entry = (case map_of (dents (kern s)) entry of
     None \<Rightarrow> (entry, next_ino (kern s)) # dents (kern s) | Some i \<Rightarrow> dents (kern s))"

text \<open>The file holds \<open>bytes\<close>; beside the list of names nothing else has changed.\<close>

definition written :: "server \<Rightarrow> string \<Rightarrow> byte list \<Rightarrow> server \<Rightarrow> bool" where
  "written s0 entry bytes s \<longleftrightarrow> temp_dir s = temp_dir s0 \<and> resolve (kern s) = resolve (kern s0)
     \<and> disk (kern s) = [] \<and> dents (kern s) = with_entry s0 entry
     \<and> inodes (kern s) = (inodes (kern s0))(put_ino s0 entry := Regular bytes)"

definition listed :: "server \<Rightarrow> string \<Rightarrow> server \<Rightarrow> bool" where
  "listed s0 name s \<longleftrightarrow> files_ok s
     \<and> files_of s = (if name \<in> set (files_of s0) then files_of s0 else files_of s0 @ [name])"

lemma written_same: "written s0 entry bytes s \<Longrightarrow> same_files s s' \<Longrightarrow> written s0 entry bytes s'"
  by (simp add: written_def same_files_def)

lemma listed_same:
  assumes "listed s0 name s" and "same_files s s'"
  shows "listed s0 name s'"
proof -
  have eq: "server_files s' = server_files s" using assms(2) by (simp add: same_files_def)
  show ?thesis using assms(1) unfolding listed_def files_ok_def eq .
qed

lemma open_create:
  assumes "resolve k path = Some entry" and "disk k = []"
    and "\<forall>i. map_of (dents k) entry = Some i \<longrightarrow> (\<exists>old. inodes k i = Regular old)"
  obtains k' where "sys_open_create path k = (fresh_fd (fds k), k')"
    and "fds k' = (fresh_fd (fds k), OFile (case map_of (dents k) entry of None \<Rightarrow> next_ino k | Some i \<Rightarrow> i)) # fds k"
    and "dents k' = (case map_of (dents k) entry of None \<Rightarrow> (entry, next_ino k) # dents k | Some i \<Rightarrow> dents k)"
    and "inodes k' = (inodes k)((case map_of (dents k) entry of None \<Rightarrow> next_ino k | Some i \<Rightarrow> i) := Regular [])"
    and "resolve k' = resolve k" and "disk k' = []" and "conns k' = conns k" and "heap_ok k' = heap_ok k"
proof (cases "map_of (dents k) entry")
  case None
  then show thesis
    using assms(1,2) that [of "snd (sys_open_create path k)"]
    by (simp add: sys_open_create_def next_disk_def open_file_def)
next
  case (Some i)
  with assms(3) obtain old where "inodes k i = Regular old" by blast
  with Some show thesis
    using assms(1,2) that [of "snd (sys_open_create path k)"]
    by (simp add: sys_open_create_def next_disk_def open_file_def)
qed

subsection \<open>The phases\<close>

text \<open>The body either is long enough or is followed by the end of the stream.\<close>

definition sizing :: "nat \<Rightarrow> size_t \<Rightarrow> byte list \<Rightarrow> nat \<Rightarrow> string \<Rightarrow> client \<Rightarrow> server \<Rightarrow> bool" where
  "sizing n w body work name c s \<longleftrightarrow>
     c_state c = STATE_RECV_PUT_SIZE \<and> c_verb c = PUT \<and> c_filename c = name \<and> own_fair n c s
     \<and> sent_of n (kern s) = [] \<and> rx_weight (rx_of n (kern s)) + length (tx_of n (kern s)) \<le> work
     \<and> (closes (rx_of n (kern s)) \<or> unat w \<le> length body) \<and> c_bytes_transferred c \<le> size_len
     \<and> take (unat (c_bytes_transferred c)) (encode_size (c_expected_size c)) @ arriving (rx_of n (kern s))
         = encode_size w @ body"

definition filling :: "nat \<Rightarrow> size_t \<Rightarrow> byte list \<Rightarrow> nat \<Rightarrow> string \<Rightarrow> nat \<Rightarrow> client \<Rightarrow> server \<Rightarrow> bool" where
  "filling n w body work name i c s \<longleftrightarrow>
     c_state c = STATE_RECV_PUT_DATA \<and> c_verb c = PUT \<and> c_filename c = name \<and> own_fair n c s
     \<and> sent_of n (kern s) = [] \<and> rx_weight (rx_of n (kern s)) + length (tx_of n (kern s)) \<le> work
     \<and> (closes (rx_of n (kern s)) \<or> unat w \<le> length body) \<and> c_bytes_transferred c \<le> w \<and> c_expected_size c = w
     \<and> map_of (fds (kern s)) (c_file_fd c) = Some (OFile i)
     \<and> unat (c_bytes_transferred c) \<le> length body
     \<and> inodes (kern s) i = Regular (take (unat (c_bytes_transferred c)) body)
     \<and> arriving (rx_of n (kern s)) = drop (unat (c_bytes_transferred c)) body"

text \<open>The store during the body: nothing listed yet.\<close>

definition storing :: "server \<Rightarrow> string \<Rightarrow> byte list \<Rightarrow> client \<Rightarrow> server \<Rightarrow> bool" where
  "storing s0 entry body c s \<longleftrightarrow> written s0 entry (take (unat (c_bytes_transferred c)) body) s
     \<and> server_files s = server_files s0 \<and> heap_ok (kern s) = heap_ok (kern s0)"

text \<open>How an upload ends: \<open>ok\<close> says which reply is sent.\<close>

definition put_reply :: "bool \<Rightarrow> byte list" where
  "put_reply ok = (if ok then OK_LINE else error_lines (Some err_bad_file_size))"

definition put_eff :: "server \<Rightarrow> size_t \<Rightarrow> byte list \<Rightarrow> string \<Rightarrow> string \<Rightarrow> bool \<Rightarrow> server \<Rightarrow> bool" where
  "put_eff s0 w body name entry ok s \<longleftrightarrow> written s0 entry (take (unat w) body) s
     \<and> (if ok then listed s0 name s \<and> unat w \<le> length body
        else server_files s = server_files s0 \<and> unat w \<noteq> length body)"

definition put_answer :: "nat \<Rightarrow> size_t \<Rightarrow> byte list \<Rightarrow> nat \<Rightarrow> string \<Rightarrow> string \<Rightarrow> server \<Rightarrow> handled \<Rightarrow> bool" where
  "put_answer n w body work name entry s0 h \<longleftrightarrow>
     (\<exists>ok. answer n (put_reply ok) 0 [] (work + MAX_HEADER_LEN) (put_eff s0 w body name entry ok) h)"

lemma put_eff_same: "put_eff s0 w body name entry ok s \<Longrightarrow> same_files s s' \<Longrightarrow> put_eff s0 w body name entry ok s'"
  using written_same listed_same by (auto simp: put_eff_def) (simp_all add: same_files_def)

lemma put_reply_length: "length (put_reply ok) < MAX_HEADER_LEN"
  using err_lengths ok_length by (simp add: put_reply_def)

lemma put_done:
  assumes "c_verb c = PUT" and "own_fair n c s" and "sent_of n (kern s) = []" and "length (tx_of n (kern s)) \<le> work"
    and "put_eff s0 w body name entry ok s"
    and "h = prepare_and_send_response c s (if ok then ''OK'' else ''ERROR'') (if ok then None else Some err_bad_file_size)"
  shows "put_answer n w body work name entry s0 h"
  unfolding put_answer_def
proof (rule exI [of _ ok], rule delivers_answer)
  show "delivers n (put_reply ok) 0 [] (length (tx_of n (kern s)) + length (put_reply ok)) s h"
    using prepare_error [OF assms(2) err_lengths(3), of 0 "[]"]
      prepare_ok_line [OF assms(2) disjI1 [OF assms(1)], of 0 "[]" None] assms(3)
    by (simp add: assms(6) put_reply_def)
  show "length (tx_of n (kern s)) + length (put_reply ok) \<le> work + MAX_HEADER_LEN"
    using put_reply_length [of ok] assms(4) by linarith
qed (rule put_eff_same [OF assms(5)])


subsection \<open>One turn of an upload\<close>

text \<open>Listing the name when the body is complete.\<close>

lemma add_listed:
  assumes "files_ok s" and "False \<notin> set (heap_ok (kern s))" and "files_of s = files_of s0"
  shows "listed s0 name (add_file_to_list name s)"
  using add_file_present [OF assms(1), of name] add_file_absent [OF assms(1), of name] assms
  by (cases "name \<in> set (files_of s)") (auto simp: listed_def)

lemma add_file_fields [simp]:
  "temp_dir (add_file_to_list name s) = temp_dir s" "fds (kern (add_file_to_list name s)) = fds (kern s)"
  "conns (kern (add_file_to_list name s)) = conns (kern s)" "dents (kern (add_file_to_list name s)) = dents (kern s)"
  "inodes (kern (add_file_to_list name s)) = inodes (kern s)" "resolve (kern (add_file_to_list name s)) = resolve (kern s)"
  "disk (kern (add_file_to_list name s)) = disk (kern s)"
proof -
  obtain v al where "add_file_to_list name s = s\<lparr>server_files := v, kern := (kern s)\<lparr>heap_ok := al\<rparr>\<rparr>"
    using add_file_frame by blast
  then show "temp_dir (add_file_to_list name s) = temp_dir s" "fds (kern (add_file_to_list name s)) = fds (kern s)"
    "conns (kern (add_file_to_list name s)) = conns (kern s)" "dents (kern (add_file_to_list name s)) = dents (kern s)"
    "inodes (kern (add_file_to_list name s)) = inodes (kern s)" "resolve (kern (add_file_to_list name s)) = resolve (kern s)"
    "disk (kern (add_file_to_list name s)) = disk (kern s)" by simp_all
qed

lemma close_frame [simp]:
  "dents (sys_close f k) = dents k" "inodes (sys_close f k) = inodes k" "disk (sys_close f k) = disk k"
  by (simp_all add: sys_close_def)

text \<open>The read of one more byte, when the announced size is there.\<close>

lemma extra_byte:
  assumes "map_of (fds k) fd = Some (OSock n)" and "sys_read fd 1 k = (r, k')"
  obtains es where "k' = set_rx n es k" and "rx_weight es \<le> rx_weight (rx_of n k)"
    and "(\<exists>x xs. r = Inr (x # xs)) \<Longrightarrow> arriving (rx_of n k) \<noteq> []"
proof -
  obtain es where
    k1: "k' = set_rx n es k" and cl: "closes es = closes (rx_of n k)"
    and itr: "r = Inl EINTR \<Longrightarrow> arriving es = arriving (rx_of n k) \<and> rx_weight es < rx_weight (rx_of n k)"
    and ag: "r = Inl EAGAIN \<Longrightarrow> arriving es = arriving (rx_of n k) \<and>
           (rx_weight es < rx_weight (rx_of n k) \<or> rx_of n k = [] \<and> es = [])"
    and oth: "r = Inl EOTHER \<or> r = Inr [] \<Longrightarrow> arriving (rx_of n k) = [] \<and> arriving es = [] \<and> closes (rx_of n k)
           \<and> rx_weight es \<le> rx_weight (rx_of n k)"
    and dat: "\<And>x xs. r = Inr (x # xs) \<Longrightarrow> arriving (rx_of n k) = x # xs @ arriving es \<and> length (x # xs) \<le> 1
           \<and> rx_weight es < rx_weight (rx_of n k)"
    by (rule read_own [OF assms(1) zero_less_one assms(2)]) (rule that; assumption)
  show thesis
  proof (rule that [OF k1])
    show "rx_weight es \<le> rx_weight (rx_of n k)"
    proof (cases r rule: read_cases)
      case (5 x xs)
      from dat [OF 5] show ?thesis by simp
    qed (use itr ag oth in auto)
    show "arriving (rx_of n k) \<noteq> []" if "\<exists>x xs. r = Inr (x # xs)"
      using that dat by auto
  qed
qed

text \<open>The end of the loop decides: too little, complete, or too much.\<close>

lemma fill_fail:
  assumes f: "own_fair n c s" "sent_of n (kern s) = []" "length (tx_of n (kern s)) \<le> work" "c_verb c = PUT"
    and fo: "map_of (fds (kern s)) (c_file_fd c) = Some (OFile i)"
    and st: "written s0 entry (take (unat w) body) s" "server_files s = server_files s0" "unat w \<noteq> length body"
    and h: "h = (let (c, s) = close_file c s in prepare_and_send_response c s ''ERROR'' (Some err_bad_file_size))"
  shows "put_answer n w body work name entry s0 h"
proof (rule put_done [where ok = False])
  let ?c = "c\<lparr>c_file_fd := - 1\<rparr>" and ?s = "s\<lparr>kern := sys_close (c_file_fd c) (kern s)\<rparr>"
  have ne: "c_fd c \<noteq> c_file_fd c" using f(1) fo by (auto simp: own_fair_def)
  show "h = prepare_and_send_response ?c ?s (if False then ''OK'' else ''ERROR'')
      (if False then None else Some err_bad_file_size)"
    using h by (simp add: close_file_def)
  show "own_fair n ?c ?s" using f(1) ne by (simp add: own_fair_def)
  show "put_eff s0 w body name entry False ?s" using st by (simp add: put_eff_def written_def)
qed (use f in simp_all)

lemma fill_full:
  assumes f: "own_fair n c s" "sent_of n (kern s) = []" "length (tx_of n (kern s)) \<le> work" "c_verb c = PUT"
    "c_filename c = name" and fo: "map_of (fds (kern s)) (c_file_fd c) = Some (OFile i)"
    and st: "written s0 entry (take (unat w) body) s" "server_files s = server_files s0" "unat w \<le> length body"
      "files_ok s0" "False \<notin> set (heap_ok (kern s))" and ar: "arriving (rx_of n (kern s)) = drop (unat w) body"
    and h: "h = (let (c, s) = close_file c s; (extra_read, k) = sys_read (c_fd c) 1 (kern s); s = s\<lparr>kern := k\<rparr>
              in case extra_read of
                   Inr (b # bs) \<Rightarrow> prepare_and_send_response c s ''ERROR'' (Some err_bad_file_size)
                 | _ \<Rightarrow> prepare_and_send_response c (add_file_to_list (c_filename c) s) ''OK'' None)"
  shows "put_answer n w body work name entry s0 h"
proof -
  let ?c = "c\<lparr>c_file_fd := - 1\<rparr>" and ?k = "sys_close (c_file_fd c) (kern s)"
  have ne: "c_fd c \<noteq> c_file_fd c" using f(1) fo by (auto simp: own_fair_def)
  have own: "map_of (fds ?k) (c_fd c) = Some (OSock n)" using f(1) ne by (simp add: own_fair_def)
  obtain r k where r: "sys_read (c_fd c) 1 ?k = (r, k)" by fastforce
  from extra_byte [OF own r] obtain es where k: "k = set_rx n es ?k"
    and ex: "(\<exists>x xs. r = Inr (x # xs)) \<Longrightarrow> arriving (rx_of n ?k) \<noteq> []" by blast
  let ?s = "s\<lparr>kern := k\<rparr>"
  have h': "h = (case r of
                   Inr (b # bs) \<Rightarrow> prepare_and_send_response ?c ?s ''ERROR'' (Some err_bad_file_size)
                 | _ \<Rightarrow> prepare_and_send_response ?c (add_file_to_list (c_filename c) ?s) ''OK'' None)"
    using h r by (simp add: close_file_def Let_def split: sum.splits list.splits)
  have sx: "own_fair n ?c ?s" "sent_of n (kern ?s) = []" "length (tx_of n (kern ?s)) \<le> work"
    using f k ne by (simp_all add: own_fair_def)
  have wr: "written s0 entry (take (unat w) body) ?s" using st(1) k by (simp add: written_def)
  show ?thesis
  proof (cases "\<exists>x xs. r = Inr (x # xs)")
    case True
    with ex have "unat w \<noteq> length body" using ar by auto
    with wr st(2) have "put_eff s0 w body name entry False ?s" by (simp add: put_eff_def)
    moreover have "h = prepare_and_send_response ?c ?s ''ERROR'' (Some err_bad_file_size)" using h' True by auto
    ultimately show ?thesis using sx f(4) by (intro put_done [where ok = False and c = ?c and s = ?s]) simp_all
  next
    case False
    let ?a = "add_file_to_list name ?s"
    have "h = prepare_and_send_response ?c (add_file_to_list (c_filename c) ?s) ''OK'' None"
      using h' False by (cases r rule: read_cases) auto
    then have hh: "h = prepare_and_send_response ?c ?a ''OK'' None" by (simp add: f(5))
    have "listed s0 name ?a"
      by (rule add_listed) (use st k in \<open>simp_all add: files_ok_def\<close>)
    with wr st(3) have "put_eff s0 w body name entry True ?a" by (simp add: put_eff_def written_def)
    then show ?thesis using sx f(4) hh by (intro put_done [where ok = True and c = ?c and s = ?a]) (simp_all add: own_fair_def)
  qed
qed


text \<open>The facts about the store that every turn needs.\<close>

definition put_base :: "server \<Rightarrow> bool" where
  "put_base s0 \<longleftrightarrow> files_ok s0 \<and> False \<notin> set (heap_ok (kern s0))"

lemma fill_turn:
  assumes f: "filling n w body work name i c s" and st: "storing s0 entry body c s" "put_base s0"
    and i: "i = put_ino s0 entry" and r: "recv_put_data c s = (r, s')"
  shows "(\<exists>c'. r = Some c' \<and> filling n w body work name i c' s' \<and> storing s0 entry body c' s'
            \<and> rx_weight (rx_of n (kern s')) < rx_weight (rx_of n (kern s)))
       \<or> put_answer n w body work name entry s0 (r, s')"
proof -
  let ?b = "unat (c_bytes_transferred c)" and ?k = "kern s"
  have d: "c_state c = STATE_RECV_PUT_DATA" "c_verb c = PUT" "c_filename c = name"
      "map_of (fds ?k) (c_fd c) = Some (OSock n)" "tx_fair (tx_of n ?k)" "sent_of n ?k = []"
      "rx_weight (rx_of n ?k) + length (tx_of n ?k) \<le> work" "closes (rx_of n ?k) \<or> unat w \<le> length body"
      "c_bytes_transferred c \<le> w" "c_expected_size c = w" "map_of (fds ?k) (c_file_fd c) = Some (OFile i)"
      "?b \<le> length body" "inodes ?k i = Regular (take ?b body)" "arriving (rx_of n ?k) = drop ?b body"
    using f by (simp_all add: filling_def own_fair_def)
  have dk: "disk ?k = []" using st(1) by (simp add: storing_def written_def)
  have lb: "?b = length (take ?b body)" using d(12) by simp
  have le: "c_bytes_transferred c \<le> c_expected_size c" using d(9,10) by simp
  from put_data_loop_run [OF d(4) d(11) d(13) dk lb le, unfolded d(10,14)]
  obtain es e m where
    run: "recv_put_data_loop c ?k = (e, c\<lparr>c_bytes_transferred := of_nat (length (take ?b body) + m)\<rparr>,
             set_file i (take ?b body @ take m (drop ?b body)) (set_rx n es ?k))"
    and o: "closes es = closes (rx_of n ?k)" "rx_weight es \<le> rx_weight (rx_of n ?k)"
      "m \<le> length (drop ?b body)" "length (take ?b body) + m \<le> unat w" "arriving es = drop m (drop ?b body)"
      "e = LoopOver \<longleftrightarrow> length (take ?b body) + m = unat w"
      "e = LoopFail \<longrightarrow> arriving es = [] \<and> closes (rx_of n ?k)"
      "e = LoopWait \<longrightarrow> rx_weight es < rx_weight (rx_of n ?k) \<or> arriving es = [] \<and> \<not> closes es"
    by (elim exE conjE) (rule that; assumption)
  define j where "j = ?b + m"
  have j: "length (take ?b body) + m = j" "j \<le> length body" "j \<le> unat w" "arriving es = drop j body"
    using o(3,4,5) lb by (simp_all add: j_def add.commute)
  have cat: "take ?b body @ take m (drop ?b body) = take j body" by (simp add: j_def take_add)
  let ?c = "c\<lparr>c_bytes_transferred := of_nat j\<rparr>" and ?k1 = "set_file i (take j body) (set_rx n es ?k)"
  let ?s = "s\<lparr>kern := ?k1\<rparr>"
  note run' = run [unfolded j(1) cat]
  have uj: "unat (of_nat j :: size_t) = j" by (rule unat_of_nat_le [OF j(3)])
  have wr: "written s0 entry (take j body) ?s" and sf: "server_files ?s = server_files s0"
    and hp: "heap_ok (kern ?s) = heap_ok (kern s0)"
    using st(1) i by (simp_all add: storing_def written_def)
  have own: "own_fair n ?c ?s" "sent_of n (kern ?s) = []" "length (tx_of n (kern ?s)) \<le> work"
      "map_of (fds (kern ?s)) (c_file_fd ?c) = Some (OFile i)" "arriving (rx_of n (kern ?s)) = drop j body"
    using d j(4) by (simp_all add: own_fair_def)
  note unf = recv_put_data_def [of c s, unfolded run' prod.case]
  show ?thesis
  proof (cases e)
    case LoopFail
    have "j = length body" "j \<noteq> unat w"
      using o(6,7) j LoopFail by auto
    moreover from this j(3) have "take (unat w) body = take j body" by simp
    ultimately have "put_answer n w body work name entry s0 (recv_put_data c s)"
      using wr sf own d(2) by (intro fill_fail [where c = ?c and s = ?s and i = i]) (simp_all add: unf LoopFail)
    then show ?thesis by (simp add: r)
  next
    case LoopOver
    then have jw: "j = unat w" using o(6) j(1) by simp
    have "put_answer n w body work name entry s0 (recv_put_data c s)"
    proof (rule fill_full [where c = ?c and s = ?s and i = i])
      show "recv_put_data c s = (let (c, s) = close_file ?c ?s; (extra_read, k) = sys_read (c_fd c) 1 (kern s); s = s\<lparr>kern := k\<rparr>
              in case extra_read of
                   Inr (b # bs) \<Rightarrow> prepare_and_send_response c s ''ERROR'' (Some err_bad_file_size)
                 | _ \<Rightarrow> prepare_and_send_response c (add_file_to_list (c_filename c) s) ''OK'' None)"
        using jw by (simp add: unf LoopOver d(10))
    qed (use own d st(2) wr sf hp jw j(2) in \<open>simp_all add: put_base_def\<close>)
    then show ?thesis by (simp add: r)
  next
    case LoopWait
    have jw: "j < unat w" using o(6) j LoopWait by auto
    have "\<not> (arriving es = [] \<and> \<not> closes es)" using d(8) o(1) j(2,4) jw by auto
    then have w: "rx_weight es < rx_weight (rx_of n ?k)" using o(8) LoopWait by blast
    have "of_nat j \<noteq> w" using uj jw by auto
    then have rs: "r = Some ?c" "s' = ?s" using r by (simp_all add: unf LoopWait d(10))
    moreover have "filling n w body work name i ?c ?s"
      using d own w j uj o(1) by (simp add: filling_def word_le_nat_alt)
    moreover have "storing s0 entry body ?c ?s" using wr sf hp uj by (simp add: storing_def)
    ultimately show ?thesis using w by simp
  qed
qed

lemma size_turn:
  assumes f: "sizing n w body work name c s" and st: "same_store s0 s" "put_base s0" "disk (kern s0) = []"
    and en: "resolve (kern s0) (filepath s0 name) = Some entry"
      "\<forall>i. map_of (dents (kern s0)) entry = Some i \<longrightarrow> (\<exists>old. inodes (kern s0) i = Regular old)"
    and i: "i = put_ino s0 entry" and r: "recv_put_size c s = (r, s')"
  shows "(\<exists>c'. r = Some c' \<and> (sizing n w body work name c' s' \<and> same_store s0 s'
              \<or> filling n w body work name i c' s' \<and> storing s0 entry body c' s')
            \<and> rx_weight (rx_of n (kern s')) < rx_weight (rx_of n (kern s)))
       \<or> put_answer n w body work name entry s0 (r, s')"
proof -
  let ?k = "kern s"
  have d: "c_state c = STATE_RECV_PUT_SIZE" "c_verb c = PUT" "c_filename c = name"
      "map_of (fds ?k) (c_fd c) = Some (OSock n)" "tx_fair (tx_of n ?k)" "sent_of n ?k = []"
      "rx_weight (rx_of n ?k) + length (tx_of n ?k) \<le> work" "closes (rx_of n ?k) \<or> unat w \<le> length body"
      "c_bytes_transferred c \<le> size_len"
      "take (unat (c_bytes_transferred c)) (encode_size (c_expected_size c)) @ arriving (rx_of n ?k) = encode_size w @ body"
    using f by (simp_all add: sizing_def own_fair_def)
  have sf: "same_files s0 s" "heap_ok ?k = heap_ok (kern s0)" using st(1) by (simp_all add: same_store_def)
  note ff = same_files_fields [OF sf(1)]
  have nx: "next_ino ?k = next_ino (kern s0)" using sf(1) by (simp add: same_files_def)
  from put_size_loop_run [OF d(4) d(9) d(10)] obtain es x b e where
    run: "recv_put_size_loop c ?k = (e, c\<lparr>c_expected_size := x, c_bytes_transferred := b\<rparr>, set_rx n es ?k)"
    and o: "closes es = closes (rx_of n ?k)" "rx_weight es \<le> rx_weight (rx_of n ?k)"
      "e = LoopOver \<and> x = w \<and> b = size_len \<and> arriving es = body
         \<or> e = LoopWait \<and> b < size_len \<and> rx_weight es < rx_weight (rx_of n ?k)
           \<and> take (unat b) (encode_size x) @ arriving es = encode_size w @ body" by blast
  note unf = recv_put_size_def [of c s, unfolded run prod.case]
  from o(3) show ?thesis
  proof (elim disjE conjE)
    assume e: "e = LoopWait" "b < size_len" "rx_weight es < rx_weight (rx_of n ?k)"
      "take (unat b) (encode_size x) @ arriving es = encode_size w @ body"
    let ?c = "c\<lparr>c_expected_size := x, c_bytes_transferred := b\<rparr>" and ?s = "s\<lparr>kern := set_rx n es ?k\<rparr>"
    have rs: "r = Some ?c" "s' = ?s" using r by (simp_all add: unf e(1))
    have "sizing n w body work name ?c ?s"
      using d e(2-4) o(1) by (simp add: sizing_def own_fair_def)
    moreover have "same_store s0 ?s"
      by (rule same_store_trans [OF st(1)]) (simp add: same_store_def same_files_kernel)
    ultimately show ?thesis using rs e(3) by simp
  next
    assume e: "e = LoopOver" "x = w" "b = size_len" "arriving es = body"
    have en1: "resolve (set_rx n es ?k) (filepath s name) = Some entry" "disk (set_rx n es ?k) = []"
      using en(1) st(3) ff filepath_same [OF sf(1)] by simp_all
    have en2: "\<forall>a. map_of (dents (set_rx n es ?k)) entry = Some a \<longrightarrow> (\<exists>old. inodes (set_rx n es ?k) a = Regular old)"
      using en(2) ff by simp
    have pi: "(case map_of (dents (set_rx n es ?k)) entry of None \<Rightarrow> next_ino (set_rx n es ?k) | Some i \<Rightarrow> i) = i"
      unfolding set_rx_simps nx ff i put_ino_def ..
    have we: "(case map_of (dents (set_rx n es ?k)) entry of
        None \<Rightarrow> (entry, next_ino (set_rx n es ?k)) # dents (set_rx n es ?k) | Some i \<Rightarrow> dents (set_rx n es ?k))
        = with_entry s0 entry"
      unfolding set_rx_simps nx ff with_entry_def ..
    obtain k where op: "sys_open_create (filepath s name) (set_rx n es ?k) = (fresh_fd (fds ?k), k)"
      and k: "fds k = (fresh_fd (fds ?k), OFile i) # fds ?k" "dents k = with_entry s0 entry"
        "inodes k = (inodes (kern s0))(i := Regular [])" "resolve k = resolve (kern s0)" "disk k = []"
        "conns k = conns (set_rx n es ?k)" "heap_ok k = heap_ok (kern s0)"
      by (rule open_create [OF en1 en2, unfolded pi we, unfolded set_rx_simps ff(4,5) sf(2)]) (rule that; assumption)
    let ?fd = "fresh_fd (fds ?k)"
    let ?c = "c\<lparr>c_expected_size := w, c_bytes_transferred := 0, c_file_fd := ?fd, c_state := STATE_RECV_PUT_DATA\<rparr>"
    have ne: "?fd \<noteq> - 1" "c_fd c \<noteq> ?fd"
      using fresh_fd_ne_minus_one fresh_fd_unmapped [of "fds ?k"] d(4) by auto
    have eq: "recv_put_data ?c (s\<lparr>kern := k\<rparr>) = (r, s')"
      using r op ne(1) by (simp add: unf e(1,2) d(3))
    have fl: "filling n w body work name i ?c (s\<lparr>kern := k\<rparr>)"
      using d k ne e(4) o(1,2) by (simp add: filling_def own_fair_def)
    have stg: "storing s0 entry body ?c (s\<lparr>kern := k\<rparr>)"
      using k ff sf st(3) i by (simp add: storing_def written_def)
    from fill_turn [OF fl stg st(2) i eq] show ?thesis
      using o(2) k(6) by auto
  qed
qed


subsection \<open>The conversation\<close>

definition put_start :: "server \<Rightarrow> byte list \<Rightarrow> string \<Rightarrow> string \<Rightarrow> bool" where
  "put_start s0 line name entry \<longleftrightarrow> line_ok line \<and> (\<exists>f. request_of line = AskPut f \<and> name = take 255 f)
     \<and> put_base s0 \<and> disk (kern s0) = [] \<and> resolve (kern s0) (filepath s0 name) = Some entry
     \<and> (\<forall>i. map_of (dents (kern s0)) entry = Some i \<longrightarrow> (\<exists>old. inodes (kern s0) i = Regular old))"

definition put_recv :: "nat \<Rightarrow> byte list \<Rightarrow> size_t \<Rightarrow> byte list \<Rightarrow> nat \<Rightarrow> string \<Rightarrow> string \<Rightarrow> server \<Rightarrow> client \<Rightarrow> server \<Rightarrow> bool" where
  "put_recv n line w body work name entry s0 c s \<longleftrightarrow> put_start s0 line name entry \<and>
     (asking n line (encode_size w @ body) work c s \<and> same_store s0 s
        \<and> (closes (rx_of n (kern s)) \<or> unat w \<le> length body)
      \<or> sizing n w body work name c s \<and> same_store s0 s
      \<or> filling n w body work name (put_ino s0 entry) c s \<and> storing s0 entry body c s)"

lemma put_verb: "request_of line = AskPut f \<Longrightarrow> verb_named (verb_of line) = Some PUT"
  by (auto simp: request_of_def split: option.splits verb.splits)

text \<open>A read while the upload is received: less is left to read, or the reply begins.\<close>

lemma put_read:
  assumes t: "put_recv n line w body work name entry s0 c s" and r: "handle_read_event c s = (r, s')"
  shows "(\<exists>c'. r = Some c' \<and> put_recv n line w body work name entry s0 c' s'
            \<and> rx_weight (rx_of n (kern s')) < rx_weight (rx_of n (kern s)))
       \<or> put_answer n w body work name entry s0 (r, s')"
proof -
  have ps: "put_start s0 line name entry" using t by (simp add: put_recv_def)
  then obtain f where st: "line_ok line" "request_of line = AskPut f" "name = take 255 f" "put_base s0"
      "disk (kern s0) = []" "resolve (kern s0) (filepath s0 name) = Some entry"
      "\<forall>i. map_of (dents (kern s0)) entry = Some i \<longrightarrow> (\<exists>old. inodes (kern s0) i = Regular old)"
    unfolding put_start_def by blast
  consider (ask) "asking n line (encode_size w @ body) work c s" "same_store s0 s"
      "closes (rx_of n (kern s)) \<or> unat w \<le> length body"
    | (siz) "sizing n w body work name c s" "same_store s0 s"
    | (fil) "filling n w body work name (put_ino s0 entry) c s" "storing s0 entry body c s"
    using t unfolding put_recv_def by blast
  then show ?thesis
  proof cases
    case ask
    from asking_read [OF ask(1) st(1) r] show ?thesis
    proof (elim disjE exE conjE)
      fix c' assume c': "r = Some c'" "asking n line (encode_size w @ body) work c' s'" "same_store s s'"
        "closes (rx_of n (kern s')) = closes (rx_of n (kern s))"
        "rx_weight (rx_of n (kern s')) < rx_weight (rx_of n (kern s))"
      have "put_recv n line w body work name entry s0 c' s'"
        using c' ps ask(3) same_store_trans [OF ask(2) c'(3)] by (simp add: put_recv_def)
      then show ?thesis using c' by blast
    next
      fix c1 s1 assume p: "asked n line (encode_size w @ body) work c1 s1" "same_store s s1"
        "(r, s') = parse_header_and_transition c1 s1"
        "closes (rx_of n (kern s1)) = closes (rx_of n (kern s))"
        "rx_weight (rx_of n (kern s1)) < rx_weight (rx_of n (kern s))"
      let ?c = "parsed line c1\<lparr>c_filename := name, c_bytes_transferred := 0, c_state := STATE_RECV_PUT_SIZE\<rparr>"
      have rs: "r = Some ?c" "s' = modify_event_loop (c_fd c1) FSS_EVENT_READ s1"
        using p(3) parse_grammar [OF asked_facts(1) [OF p(1)] st(1)] by (simp_all add: st(2,3))
      have "sizing n w body work name ?c s'"
        using p(1,4) ask(3) put_verb [OF st(2)] rs(2)
        by (simp add: sizing_def asked_def own_fair_def) (simp add: parsed_def)
      moreover have "same_store s0 s'"
        using same_store_trans [OF ask(2) p(2)] rs(2) by (simp add: same_store_def same_files_def)
      ultimately have "put_recv n line w body work name entry s0 ?c s'" using ps by (simp add: put_recv_def)
      then show ?thesis using rs p(5) by simp
    qed
  next
    case siz
    then have "recv_put_size c s = (r, s')" using r by (simp add: handle_read_event_def sizing_def)
    from size_turn [OF siz st(4-7) refl this] show ?thesis
    proof (elim disjE exE conjE)
      fix c' assume "r = Some c'" "sizing n w body work name c' s'" "same_store s0 s'"
        "rx_weight (rx_of n (kern s')) < rx_weight (rx_of n (kern s))"
      then show ?thesis using ps by (simp add: put_recv_def sizing_def)
    next
      fix c' assume "r = Some c'" "filling n w body work name (put_ino s0 entry) c' s'" "storing s0 entry body c' s'"
        "rx_weight (rx_of n (kern s')) < rx_weight (rx_of n (kern s))"
      then show ?thesis using ps by (auto simp: put_recv_def)
    qed simp
  next
    case fil
    then have "recv_put_data c s = (r, s')" using r by (simp add: handle_read_event_def filling_def)
    from fill_turn [OF fil st(4) refl this] show ?thesis
    proof (elim disjE exE conjE)
      fix c' assume "r = Some c'" "filling n w body work name (put_ino s0 entry) c' s'" "storing s0 entry body c' s'"
        "rx_weight (rx_of n (kern s')) < rx_weight (rx_of n (kern s))"
      then show ?thesis using ps by (auto simp: put_recv_def)
    qed simp
  qed
qed

lemma put_heap:
  "put_recv n line w body work name entry s0 c (s\<lparr>heap := h\<rparr>) = put_recv n line w body work name entry s0 c s"
  unfolding put_recv_def sizing_def filling_def storing_def
    same_store_def same_files_def written_def own_fair_def asking_heap
  by simp

interpretation put: exchange n 0 "[]" "work + MAX_HEADER_LEN" "put_recv n line w body work name entry s0" put_reply
    "put_eff s0 w body name entry"
  for n line w body work name entry s0
proof
  show "put_recv n line w body work name entry s0 c (s\<lparr>heap := h\<rparr>) = put_recv n line w body work name entry s0 c s" for c s h
    by (rule put_heap)
  show "receiving c" and "rx_weight (rx_of n (kern s)) < work + MAX_HEADER_LEN"
    if "put_recv n line w body work name entry s0 c s" for c s
    using that by (auto simp: put_recv_def asking_def sizing_def filling_def MAX_HEADER_LEN_def)
  show "put_eff s0 w body name entry ok s'" if "put_eff s0 w body name entry ok s" and "same_files s s'" for ok s s'
    using that by (rule put_eff_same)
  show "(\<exists>c'. r = Some c' \<and> put_recv n line w body work name entry s0 c' s'
          \<and> rx_weight (rx_of n (kern s')) < rx_weight (rx_of n (kern s)))
      \<or> (\<exists>ok. answer n (put_reply ok) 0 [] (work + MAX_HEADER_LEN) (put_eff s0 w body name entry ok) (r, s'))"
    if "put_recv n line w body work name entry s0 c s" and "handle_read_event c s = (r, s')" for c s r s'
    using put_read [OF that] by (simp add: put_answer_def)
qed

end
