(* ===== verification/Fss_Server_Service.thy ===== *)
theory Fss_Server_Service
  imports Fss_Server_Upload
begin

section \<open>The service\<close>

text \<open>
  What a client gets: the theorems about whole requests, from a fresh connection to its end,
  for every fragmentation of what arrives, every way the socket takes the reply, and every
  sequence of events that is long enough. \<open>disk\<close> empty says that no file operation fails.
\<close>

definition fresh_conn :: "nat \<Rightarrow> int \<Rightarrow> nat \<Rightarrow> server \<Rightarrow> bool" where
  "fresh_conn p fd n s \<longleftrightarrow> server_ok s \<and> fd \<noteq> listen_fd s \<and> dict_lookup (fd_to_client s) fd = Some p
     \<and> heap s p = Some (client_create fd) \<and> map_of (fds (kern s)) fd = Some (OSock n)
     \<and> sent_of n (kern s) = [] \<and> tx_fair (tx_of n (kern s))"

text \<open>Enough reads, and enough writes after them, with anything mixed in.\<close>

definition enough :: "int \<Rightarrow> nat \<Rightarrow> (int \<times> c_int) list \<Rightarrow> bool" where
  "enough fd b es \<longleftrightarrow> (\<exists>rs ws. es = rs @ ws \<and> events_on fd rs \<and> events_on fd ws
     \<and> b \<le> times FSS_EVENT_READ rs \<and> b \<le> times FSS_EVENT_WRITE ws)"

text \<open>A bound on what the two scripts of a connection can still do.\<close>

definition script_len :: "nat \<Rightarrow> server \<Rightarrow> nat" where
  "script_len n s = rx_weight (rx_of n (kern s)) + length (tx_of n (kern s))"

lemma fresh_asks:
  assumes "fresh_conn p fd n s" and "arriving (rx_of n (kern s)) = line @ NL # later"
  shows "conn_at p fd (client_create fd) s" and "asking n line later (script_len n s) (client_create fd) s"
  using assms by (simp_all add: fresh_conn_def conn_at_def asking_def own_fair_def client_create_def script_len_def)

lemma file_at_iff:
  "file_at k path = Some bs \<longleftrightarrow> (\<exists>i. ino_at k path = Some i \<and> inodes k i = Regular bs)"
  by (auto simp: file_at_def ino_at_def split: option.splits node.splits)

lemma enoughE:
  assumes "enough fd b es"
  obtains rs ws where "es = rs @ ws" and "events_on fd rs" and "events_on fd ws"
    and "b \<le> times FSS_EVENT_READ rs" and "b \<le> times FSS_EVENT_WRITE ws"
  using assms unfolding enough_def by blast

subsection \<open>Concrete runs\<close>

text \<open>For the witnesses: a fresh connection of the concrete server, and enough events for it.\<close>

definition demo_events :: "int \<Rightarrow> nat \<Rightarrow> (int \<times> c_int) list" where
  "demo_events fd b = replicate b (fd, FSS_EVENT_READ) @ replicate b (fd, FSS_EVENT_WRITE)"

lemma demo_enough: "b' \<le> b \<Longrightarrow> enough fd b' (demo_events fd b)"
  unfolding enough_def demo_events_def
  by (intro exI conjI, rule refl) (auto simp: events_on_def times_def)

lemma demo_fresh: "tx_fair t \<Longrightarrow> fresh_conn 0 2 0 (demo_server ds bs r t)"
  by (simp add: fresh_conn_def demo_ok)

lemma demo_len [simp]: "script_len n (demo_server ds bs r t) = rx_weight r + length t"
  by (simp add: script_len_def)

lemma demo_path: "length f < 255 \<Longrightarrow> filepath (demo_server ds bs r t) (take 255 f) = ''dir/'' @ f"
  by (simp add: filepath_def snprintf_def)

lemma demo_file: "file_at (kern (demo_server [(''dir/'' @ f, i)] bs r t)) (''dir/'' @ f) = Some bs"
  by (simp add: file_at_def)

text \<open>Two connections with different scripts.\<close>

lemma server_ok_conns: "server_ok (s\<lparr>kern := (kern s)\<lparr>conns := cs\<rparr>\<rparr>) = server_ok s"
  by (simp add: server_ok_def link_ok_def files_ok_def queue_ok_def owns_def mapped_def sock_open_def file_open_def
      ep_alive_def epoll.single_def ep_known_def ep_watched_def)

definition demo_pair :: "rd_ev list \<Rightarrow> rd_ev list \<Rightarrow> server" where
  "demo_pair r r' = (let s = demo_server [] [] [] [] in
     s\<lparr>kern := (kern s)\<lparr>conns := (\<lambda>n. \<lparr>rx = (if n = 0 then r else r'), tx = [Room 1], sent = []\<rparr>)\<rparr>\<rparr>)"

lemma demo_map1 [simp]: "dict_lookup (fd_to_client (demo_server ds bs r t)) 3 = Some 1"
  unfolding dict_lookup_def by code_simp

lemma demo_pair_fresh: "fresh_conn 0 2 0 (demo_pair r r')" "fresh_conn 1 3 1 (demo_pair r r')"
  by (simp_all add: fresh_conn_def demo_pair_def Let_def server_ok_conns demo_ok tx_fair_def del: One_nat_def)

lemma demo_pair_facts [simp]:
  "rx_of 0 (kern (demo_pair r r')) = r" "rx_of (Suc 0) (kern (demo_pair r r')) = r'" "disk (kern (demo_pair r r')) = []"
  "heap_ok (kern (demo_pair r r')) = []" "resolve (kern (demo_pair r r')) x = Some x" "dents (kern (demo_pair r r')) = []"
  "script_len 0 (demo_pair r r') = rx_weight r + 1" "script_len (Suc 0) (demo_pair r r') = rx_weight r' + 1"
  by (simp_all add: demo_pair_def Let_def script_len_def)

text \<open>The same server with one stored file that is listed.\<close>

definition demo_named :: "rd_ev list \<Rightarrow> server" where
  "demo_named r = (demo_server [(''dir/a'', 5)] ''xyz'' r [])
     \<lparr>server_files := Some \<lparr>v_data = [Some ''a''], v_size = 1, v_capacity = 1, v_destructor = False\<rparr>\<rparr>"

lemma demo_named_files: "files_ok (demo_named r)" "files_of (demo_named r) = [''a'']"
  by (auto simp: demo_named_def files_ok_def vec_ok_def vec_items_def)

lemma demo_named_fresh: "fresh_conn 0 2 0 (demo_named r)"
proof -
  have "server_ok (demo_named r)"
    using demo_ok [of "[(''dir/a'', 5)]" "''xyz''" r "[]"] demo_named_files(1) [of r]
    by (simp add: server_ok_def link_ok_def) (simp add: demo_named_def)
  then show ?thesis by (simp add: fresh_conn_def demo_named_def tx_fair_def)
qed

subsection \<open>Downloads, lists, deletions, errors\<close>

lemma get_served:
  assumes "fresh_conn p fd n s" and "arriving (rx_of n (kern s)) = ''GET '' @ f @ NL # later"
    and "line_ok (''GET '' @ f)" and "file_at (kern s) (filepath s (take 255 f)) = Some contents"
    and "disk (kern s) = []" and "length contents < 2 ^ 64"
    and "enough fd (script_len n s + length contents + 12) es"
  shows "\<exists>s'. handle_events es s = Some s' \<and> conn_over p fd s'
    \<and> sent_of n (kern s') = OK_LINE @ encode_size (of_nat (length contents)) @ contents \<and> same_files s s'"
proof -
  let ?line = "''GET '' @ f" and ?out = "OK_LINE @ encode_size (of_nat (length contents)) @ contents"
  from assms(4) obtain i where i: "ino_at (kern s) (filepath s (take 255 f)) = Some i" "inodes (kern s) i = Regular contents"
    unfolding file_at_iff by blast
  have st: "get_start s ?line i contents ?out s"
    using assms(3,5,6) i request_of_lines(3) by (simp add: get_start_def)
  have ar: "arriving (rx_of n (kern s)) = ?line @ NL # later" using assms(2) by simp
  from assms(7) obtain rs ws where es: "es = rs @ ws" "events_on fd rs" "events_on fd ws"
    "script_len n s + length contents + 12 \<le> times FSS_EVENT_READ rs"
    "script_len n s + length contents + 12 \<le> times FSS_EVENT_WRITE ws" by (rule enoughE)
  have l: "length ?out = length contents + 11" by (simp add: OK_LINE_def sizeof_size_t_def)
  from get.served [OF fresh_asks [OF assms(1) ar] st es(2,3)] es(4,5)
  show ?thesis unfolding es(1) l by simp
qed












subsection \<open>Uploads\<close>

text \<open>A path at which a file can be written: not a directory, and its own directory exists.\<close>

definition writable :: "server \<Rightarrow> string \<Rightarrow> bool" where
  "writable s path \<longleftrightarrow> disk (kern s) = [] \<and> (\<exists>entry. resolve (kern s) path = Some entry \<and>
     (\<forall>i. map_of (dents (kern s)) entry = Some i \<longrightarrow> (\<exists>old. inodes (kern s) i = Regular old)))"

lemma written_file:
  assumes "written s0 entry bytes s" and "resolve (kern s0) (filepath s0 name) = Some entry"
  shows "file_at (kern s) (filepath s name) = Some bytes" and "temp_dir s = temp_dir s0"
    and "resolve (kern s) = resolve (kern s0)" and "disk (kern s) = []"
    and "map_of (dents (kern s)) = (map_of (dents (kern s0)))(entry := Some (put_ino s0 entry))"
proof -
  have w: "temp_dir s = temp_dir s0" "resolve (kern s) = resolve (kern s0)" "disk (kern s) = []"
    "dents (kern s) = with_entry s0 entry" "inodes (kern s) = (inodes (kern s0))(put_ino s0 entry := Regular bytes)"
    using assms(1) by (simp_all add: written_def)
  have fp: "filepath s name = filepath s0 name" using w(1) by (simp add: filepath_def)
  show m: "map_of (dents (kern s)) = (map_of (dents (kern s0)))(entry := Some (put_ino s0 entry))"
    unfolding w(4) by (auto simp: with_entry_def put_ino_def fun_upd_idem split: option.split)
  show "file_at (kern s) (filepath s name) = Some bytes"
    using assms(2) by (simp add: file_at_def w(2,5) fp m)
  show "temp_dir s = temp_dir s0" "resolve (kern s) = resolve (kern s0)" "disk (kern s) = []" by (rule w)+
qed

lemma upload_served:
  assumes "fresh_conn p fd n s" and "arriving (rx_of n (kern s)) = ''PUT '' @ f @ NL # encode_size w @ body"
    and "line_ok (''PUT '' @ f)" and "writable s (filepath s (take 255 f))" and "False \<notin> set (heap_ok (kern s))"
    and "closes (rx_of n (kern s)) \<or> unat w \<le> length body"
    and "enough fd (script_len n s + MAX_HEADER_LEN) es"
  shows "\<exists>s' ok. handle_events es s = Some s' \<and> conn_over p fd s' \<and> sent_of n (kern s') = put_reply ok
    \<and> file_at (kern s') (filepath s' (take 255 f)) = Some (take (unat w) body)
    \<and> (if ok then set (files_of s') = insert (take 255 f) (set (files_of s)) \<and> unat w \<le> length body
       else files_of s' = files_of s \<and> unat w \<noteq> length body)
    \<and> temp_dir s' = temp_dir s \<and> resolve (kern s') = resolve (kern s) \<and> disk (kern s') = []"
proof -
  let ?line = "''PUT '' @ f" and ?name = "take 255 f"
  from assms(4) obtain entry where en: "disk (kern s) = []" "resolve (kern s) (filepath s ?name) = Some entry"
    "\<forall>i. map_of (dents (kern s)) entry = Some i \<longrightarrow> (\<exists>old. inodes (kern s) i = Regular old)"
    unfolding writable_def by blast
  have "files_ok s" using assms(1) by (simp add: fresh_conn_def server_ok_def link_ok_def)
  then have ps: "put_start s ?line ?name entry"
    using assms(3,5) en request_of_lines(4) by (simp add: put_start_def put_base_def)
  have ar: "arriving (rx_of n (kern s)) = ?line @ NL # encode_size w @ body" using assms(2) by simp
  note a = fresh_asks [OF assms(1) ar]
  have tk: "put_recv n ?line w body (script_len n s) ?name entry s (client_create fd) s"
    using ps a(2) assms(6) by (simp add: put_recv_def)
  from assms(7) obtain rs ws where es: "es = rs @ ws" "events_on fd rs" "events_on fd ws"
    "script_len n s + MAX_HEADER_LEN \<le> times FSS_EVENT_READ rs"
    "script_len n s + MAX_HEADER_LEN \<le> times FSS_EVENT_WRITE ws" by (rule enoughE)
  from put.exchanged [OF a(1) tk es(2-5)] obtain s' ok where
    s': "handle_events es s = Some s'" "conn_over p fd s'" "sent_of n (kern s') = put_reply ok"
    and ef: "put_eff s w body ?name entry ok s'"
    unfolding es(1) by blast
  have "written s entry (take (unat w) body) s'" using ef by (simp add: put_eff_def)
  note wf = written_file [OF this en(2)]
  have "if ok then set (files_of s') = insert ?name (set (files_of s)) \<and> unat w \<le> length body
       else files_of s' = files_of s \<and> unat w \<noteq> length body"
    using ef by (cases ok) (auto simp: put_eff_def listed_def)
  with s' wf show ?thesis by (intro exI [of _ s'] exI [of _ ok]) simp
qed







subsection \<open>Two connections\<close>

text \<open>Events of one connection leave another one as it was.\<close>

definition mine :: "nat \<Rightarrow> int \<Rightarrow> nat \<Rightarrow> server \<Rightarrow> bool" where
  "mine p fd n s \<longleftrightarrow> server_ok s \<and> fd \<noteq> listen_fd s \<and> (dict_lookup (fd_to_client s) fd = None \<or>
     dict_lookup (fd_to_client s) fd = Some p \<and> map_of (fds (kern s)) fd = Some (OSock n))"

definition others :: "nat \<Rightarrow> nat \<Rightarrow> client \<Rightarrow> server \<Rightarrow> server \<Rightarrow> bool" where
  "others q m d s s' \<longleftrightarrow> heap s' q = Some d \<and> listen_fd s' = listen_fd s
    \<and> dict_lookup (fd_to_client s') (c_fd d) = dict_lookup (fd_to_client s) (c_fd d)
    \<and> map_of (fds (kern s')) (c_fd d) = map_of (fds (kern s)) (c_fd d) \<and> conns (kern s') m = conns (kern s) m"

lemma others_trans: "others q m d s s' \<Longrightarrow> others q m d s' s'' \<Longrightarrow> others q m d s s''"
  by (simp add: others_def)

lemma one_direction:
  assumes "ev = FSS_EVENT_READ \<or> ev = FSS_EVENT_WRITE"
  shows "\<not> (has_bit ev FSS_EVENT_READ \<and> has_bit ev FSS_EVENT_WRITE)"
proof -
  have "\<not> has_bit FSS_EVENT_READ FSS_EVENT_WRITE" "\<not> has_bit FSS_EVENT_WRITE FSS_EVENT_READ" by code_simp+
  with assms show ?thesis by auto
qed

lemma mine_step:
  assumes m: "mine p fd n s" and ev: "ev = FSS_EVENT_READ \<or> ev = FSS_EVENT_WRITE" and "n \<noteq> m"
    and q: "q \<noteq> p" "heap s q = Some d" and e: "handle_event (fd, ev) s = Some s'"
  shows "mine p fd n s' \<and> others q m d s s'"
proof (cases "dict_lookup (fd_to_client s) fd")
  case None
  with m e q show ?thesis by (simp add: mine_def handle_event_def dict_lookup_def others_def)
next
  case (Some p')
  with m have d: "server_ok s" "fd \<noteq> listen_fd s" "dict_lookup (fd_to_client s) fd = Some p"
      "map_of (fds (kern s)) fd = Some (OSock n)" by (simp_all add: mine_def)
  note nb = one_direction [OF ev]
  from handle_event_cases [OF d(1) nb d(2,3) e] obtain c h where
    h: "s' = put_back p h" "kept p fd s h" by metis
  obtain r s1 where r: "h = (r, s1)" by fastforce
  from h r d(2-4) have "fd \<noteq> listen_fd s' \<and> listen_fd s' = listen_fd s \<and> (dict_lookup (fd_to_client s') fd = None \<or>
     dict_lookup (fd_to_client s') fd = Some p \<and> map_of (fds (kern s')) fd = Some (OSock n))"
    by (cases r) (auto simp: put_back_def held_def gone_def frame_def)
  moreover have "server_ok s'" using handle_event_ok [OF d(1) nb, of fd] e by simp
  moreover have "map_of (fds (kern s)) fd \<noteq> Some (OSock m)" using d(4) assms(3) by simp
  note event_frame(6) [OF d(1) nb d(2,3) e q this] and event_frame(1,2,4) [OF d(1) nb d(2,3) e q]
  ultimately show ?thesis by (simp add: mine_def others_def)
qed

lemma mine_events:
  assumes "mine p fd n s" and "events_on fd es" and "n \<noteq> m" and "q \<noteq> p" and "heap s q = Some d"
    and "handle_events es s = Some s'"
  shows "mine p fd n s' \<and> others q m d s s'"
  using assms
proof (induction es arbitrary: s)
  case Nil
  then show ?case by (simp add: others_def)
next
  case (Cons e es)
  obtain ev where e: "e = (fd, ev)" and ev: "ev = FSS_EVENT_READ \<or> ev = FSS_EVENT_WRITE" and on: "events_on fd es"
    using Cons.prems(2) by (cases e) auto
  from Cons.prems(6) obtain s1 where s1: "handle_event (fd, ev) s = Some s1" "handle_events es s1 = Some s'"
    unfolding e by (auto split: option.splits)
  from mine_step [OF Cons.prems(1) ev Cons.prems(3,4,5) s1(1)]
  have m: "mine p fd n s1" "others q m d s s1" by blast+
  have "heap s1 q = Some d" using m(2) by (simp add: others_def)
  from Cons.IH [OF m(1) on Cons.prems(3,4) this s1(2)] m(2) show ?case
    by (blast intro: others_trans)
qed

lemma fresh_other:
  assumes "fresh_conn p fd n s" and "fresh_conn q gd m s" and "p \<noteq> q" and "n \<noteq> m" and "enough fd b es"
    and "handle_events es s = Some s'"
  shows "fresh_conn q gd m s'" and "conns (kern s') m = conns (kern s) m"
proof -
  from assms(5) obtain rs ws where es: "es = rs @ ws" "events_on fd rs" "events_on fd ws" by (rule enoughE)
  have m: "mine p fd n s" and d: "heap s q = Some (client_create gd)"
    using assms(1,2) by (simp_all add: mine_def fresh_conn_def)
  have "events_on fd es" using es by simp
  from mine_events [OF m this assms(4) assms(3) [symmetric] d assms(6)]
  have r: "mine p fd n s'" "others q m (client_create gd) s s'" by blast+
  have "c_fd (client_create gd) = gd" by (simp add: client_create_def)
  with r assms(2) show "fresh_conn q gd m s'" and "conns (kern s') m = conns (kern s) m"
    by (simp_all add: mine_def others_def fresh_conn_def)
qed




subsection \<open>A reply that never comes\<close>


end
