(* ===== verification/Fss_Client_Run.thy ===== *)
theory Fss_Client_Run
  imports Fss_Client_App
begin

section \<open>What the client does\<close>

text \<open>
  The behaviour of the request handlers of \<open>src/client.c\<close> on a connection that does not
  break (\<open>rx_clean\<close>, \<open>tx_clean\<close>), for every fragmentation: what they send, what they store
  and print for a given reply, and for which arguments they read past their array.
\<close>

subsection \<open>Sending the request\<close>

lemma send_request_out:
  assumes "1024 < length line"
  shows "send_request line w = None"
  using assms by (simp add: send_request_def snprintf_def write_all_to_socket_def)

lemma send_request_in:
  assumes "length line \<le> 1024"
  shows "send_request line w \<noteq> None"
  using assms by (auto simp: send_request_def snprintf_def write_all_to_socket_def split: prod.splits)

lemma send_request_sends:
  assumes "length line < 1024" and "tx_clean (tx (w_sock w))"
  obtains s where "send_request line w = Some (w\<lparr>w_sock := s\<rparr>)"
    and "sent s = sent (w_sock w) @ line" and "tx_clean (tx s)" and "rx s = rx (w_sock w)"
proof -
  have l: "take 1023 line = line" "length line \<le> length (line @ [NUL])" using assms(1) by simp_all
  from write_all_spec [OF assms(2) l(2)] obtain s where
    "write_all_to_socket (w_sock w) (line @ [NUL]) (length line) = Some (int (length line), s)"
    "sent s = sent (w_sock w) @ line" "tx_clean (tx s)" "rx s = rx (w_sock w)"
    by (metis append_eq_conv_conj)
  then show thesis using that by (simp add: send_request_def snprintf_def l(1))
qed

subsection \<open>The response of one line\<close>

lemma status_lines:
  "status_ok (''OK'' @ [NL])" "\<not> status_error (''OK'' @ [NL])"
  "status_error (''ERROR'' @ [NL])" "\<not> status_ok (''ERROR'' @ [NL])"
  by (simp_all add: status_ok_def status_error_def cstr_def)

text \<open>The status line has been read; \<open>s\<close> is the socket after it.\<close>

lemma read_status:
  assumes "rx_clean (rx s0)" and "arriving (rx s0) = st @ NL # later" and "NL \<notin> set st" and "length st < 100"
  obtains s where "read_line_from_socket s0 1024 = (int (length st + 1), st @ [NL], s)"
    and "arriving (rx s) = later" and "rx_clean (rx s)" and "tx s = tx s0" and "sent s = sent s0"
proof -
  have l: "length st + 1 < 1024" using assms(4) by simp
  show thesis by (rule read_line_spec [OF assms(1-3) l]) (rule that)
qed

lemma report_error_prints:
  assumes "rx_clean (rx (w_sock w))" and "arriving (rx (w_sock w)) = msg @ NL # later" and "NL \<notin> set msg" and "NUL \<notin> set msg"
    and "length msg < 100"
  shows "w_out (report_error w) = w_out w @ msg @ [NL]" and "w_files (report_error w) = w_files w"
    and "sent (w_sock (report_error w)) = sent (w_sock w)"
proof -
  obtain s where r: "read_line_from_socket (w_sock w) 1024 = (int (length msg + 1), msg @ [NL], s)"
    and s: "sent s = sent (w_sock w)"
    by (rule read_status [OF assms(1-3,5)])
  have p: "0 < int (length msg + 1)" by simp
  have "report_error w = print_out (print_error_message msg) (w\<lparr>w_sock := s\<rparr>)"
    unfolding report_error_def r Let_def prod.case if_P [OF p] using cstr_id [OF assms(4)] by simp
  then show "w_out (report_error w) = w_out w @ msg @ [NL]" and "w_files (report_error w) = w_files w"
    and "sent (w_sock (report_error w)) = sent (w_sock w)"
    using s by (simp_all add: print_out_def print_error_message_def)
qed

lemma simple_response_ok:
  assumes "rx_clean (rx (w_sock w))" and "arriving (rx (w_sock w)) = ''OK'' @ NL # later"
  shows "w_out (simple_response w) = w_out w @ print_success" and "sent (w_sock (simple_response w)) = sent (w_sock w)"
proof -
  obtain s where r: "read_line_from_socket (w_sock w) 1024 = (int (length ''OK'' + 1), ''OK'' @ [NL], s)"
    and s: "sent s = sent (w_sock w)"
    by (rule read_status [OF assms]) simp_all
  have "simple_response w = print_out print_success (w\<lparr>w_sock := s\<rparr>)"
    unfolding simple_response_def r Let_def prod.case using status_lines by simp
  then show "w_out (simple_response w) = w_out w @ print_success" and "sent (w_sock (simple_response w)) = sent (w_sock w)"
    using s by (simp_all add: print_out_def)
qed

lemma simple_response_error:
  assumes "rx_clean (rx (w_sock w))" and "arriving (rx (w_sock w)) = ''ERROR'' @ NL # msg @ NL # later"
    and "NL \<notin> set msg" and "NUL \<notin> set msg" and "length msg < 100"
  shows "w_out (simple_response w) = w_out w @ msg @ [NL]" and "sent (w_sock (simple_response w)) = sent (w_sock w)"
proof -
  obtain s where r: "read_line_from_socket (w_sock w) 1024 = (int (length ''ERROR'' + 1), ''ERROR'' @ [NL], s)"
    and s: "arriving (rx s) = msg @ NL # later" "rx_clean (rx s)" "sent s = sent (w_sock w)"
    by (rule read_status [OF assms(1,2)]) simp_all
  have e: "simple_response w = report_error (w\<lparr>w_sock := s\<rparr>)"
    unfolding simple_response_def r Let_def prod.case using status_lines by simp
  show "w_out (simple_response w) = w_out w @ msg @ [NL]" and "sent (w_sock (simple_response w)) = sent (w_sock w)"
    using report_error_prints [of "w\<lparr>w_sock := s\<rparr>" msg later] s assms(3-5) unfolding e by simp_all
qed

subsection \<open>Receiving a file\<close>

lemma read_cases':
  fixes r :: "errno + 'a list"
  obtains e where "r = Inl e" | "r = Inr []" | x xs where "r = Inr (x # xs)"
proof (cases r)
  case (Inr bs)
  then show thesis using that by (cases bs) simp_all
qed (rule that(1))

lemma receive_file_loop_run:
  assumes "rx_clean (rx sock)" and "tx_clean (tx lf)" and "b \<le> e"
    and "receive_file_loop e b sock lf = (ok, sock', lf')"
  shows "sent lf' = sent lf @ take (unat e - unat b) (arriving (rx sock))
    \<and> (ok \<longleftrightarrow> unat e - unat b \<le> length (arriving (rx sock)))
    \<and> arriving (rx sock') = drop (unat e - unat b) (arriving (rx sock)) \<and> sent sock' = sent sock \<and> rx_clean (rx sock')"
  using assms
proof (induction e b sock lf rule: receive_file_loop.induct)
  case (1 e b sock lf)
  note unf = receive_file_loop.simps [of e b sock lf]
  show ?case
  proof (cases "b < e")
    case False
    then have "receive_file_loop e b sock lf = (True, sock, lf)" by (simp add: unf)
    moreover have "b = e" using False "1.prems"(3) by simp
    ultimately show ?thesis using "1.prems"(1,4) by simp
  next
    case True
    let ?n = "piece_len (e - b)"
    have sub: "unat (e - b) = unat e - unat b" using "1.prems"(3) by (rule unat_sub)
    have pos: "0 < unat e - unat b" using True by (simp add: word_less_nat_alt)
    have le: "?n \<le> unat e - unat b" "0 < ?n" using piece_len_le [of "e - b"] True sub by auto
    obtain r out s1 where rd: "read_all_from_socket sock ?n = (r, out, s1)" by (metis prod_cases3)
    from read_all_spec [OF "1.prems"(1) rd]
    have out: "out = take ?n (arriving (rx sock))" "r = int (length out)"
      "arriving (rx s1) = drop ?n (arriving (rx sock))" "rx_clean (rx s1)" "sent s1 = sent sock" by auto
    note unf = unf [unfolded if_P [OF True] rd prod.case]
    show ?thesis
    proof (cases "arriving (rx sock) = []")
      case True
      then have "out = []" "r = 0" using out by simp_all
      then have "ok = False" "sock' = s1" "lf' = lf" using "1.prems"(4) by (simp_all add: unf)
      then show ?thesis using True out pos by simp
    next
      case False
      define j where "j = length out"
      have j: "0 < j" "j \<le> ?n" "\<not> r \<le> 0" "out = take j (arriving (rx sock))" "arriving (rx s1) = drop j (arriving (rx sock))"
        using out False le by (auto simp: j_def min_def not_le)
      obtain q f1 where w: "write_all_loop lf out 0 = (q, f1)" by fastforce
      note wf = write_all_loop_spec [OF "1.prems"(2) w]
      have wb: "word_of_int r = (of_nat j :: size_t)" using out(2) by (simp add: j_def)
      have "j \<le> unat (e - b)" using j(2) le(1) sub by simp
      then have uj: "unat (of_nat j :: size_t) = j" by (rule unat_of_nat_le)
      have bj: "of_nat j \<le> e - b" using \<open>j \<le> unat (e - b)\<close> by (simp add: word_le_nat_alt uj)
      have ub: "unat (e - (b + of_nat j)) = unat (e - b) - j"
        using unat_sub [OF bj] by (simp add: uj diff_diff_eq)
      have b1: "b + of_nat j \<le> e" and u1: "unat (b + of_nat j) = unat b + j"
      proof -
        have lt: "unat b + j \<le> unat e" using \<open>j \<le> unat (e - b)\<close> sub pos by linarith
        have "b + of_nat j = of_nat (unat b + j)" by simp
        then show u: "unat (b + of_nat j) = unat b + j" using unat_of_nat_le [OF lt] by metis
        show "b + of_nat j \<le> e" using lt by (simp add: word_le_nat_alt u)
      qed
      have eq: "receive_file_loop e (b + word_of_int r) s1 (snd (write_all_loop lf out 0)) = (ok, sock', lf')"
        using "1.prems"(4) j(3) by (simp add: unf)
      note ih = "1.IH" [OF True rd [symmetric] refl j(3)]
      have f1: "snd (write_all_loop lf out 0) = f1" using w by simp
      have s2: "unat e - unat (b + of_nat j) = unat e - unat b - j" using u1 by simp
      note ih = ih [unfolded wb f1, OF out(4) _ b1 eq [unfolded wb f1], unfolded j(5) s2]
      have le2: "j \<le> unat e - unat b" using \<open>j \<le> unat (e - b)\<close> sub by simp
      have jl: "j \<le> length (arriving (rx sock))" using out(1) by (simp add: j_def)
      have cat: "take j (arriving (rx sock)) @ take (unat e - unat b - j) (drop j (arriving (rx sock)))
          = take (unat e - unat b) (arriving (rx sock))"
        using take_add [of j "unat e - unat b - j" "arriving (rx sock)"] le_add_diff_inverse [OF le2] by simp
      have le3: "unat e - (unat b + j) + j = unat e - unat b" using le2 pos by linarith
      show ?thesis using ih wf out(5) le2 jl cat j(4) by (auto simp: le3)
    qed
  qed
qed


text \<open>The reply to a download: the file holds what was announced, or less if the stream ends.\<close>

lemma receive_file_run:
  assumes "rx_clean (rx (w_sock w))" and "tx_clean (w_file_tx w)" and "w_create_ok w"
    and "length (arriving (rx (w_sock w))) \<le> unat sz"
  shows "w_files (receive_file local sz w) = (w_files w)(local \<mapsto> arriving (rx (w_sock w)))"
    and "sent (w_sock (receive_file local sz w)) = sent (w_sock w)"
    and "w_out (receive_file local sz w) = w_out w @
      (if length (arriving (rx (w_sock w))) < unat sz then print_too_little_data else [])"
proof -
  let ?f = "\<lparr>rx = [], tx = w_file_tx w, sent = []\<rparr>"
  obtain ok sock lf where l: "receive_file_loop sz 0 (w_sock w) ?f = (ok, sock, lf)" by (metis prod_cases3)
  have f: "tx_clean (tx ?f)" using assms(2) by simp
  from receive_file_loop_run [OF assms(1) f _ l] assms(4)
  have r: "sent lf = arriving (rx (w_sock w))" "ok \<longleftrightarrow> unat sz \<le> length (arriving (rx (w_sock w)))"
    "sent sock = sent (w_sock w)" "arriving (rx sock) = []" by auto
  obtain x sock' where x: "sock_read sock 1 = (x, sock')" by fastforce
  have nx: "x \<noteq> Inr (b # bs)" for b bs
    using sock.read_data [of 1 sock "b # bs" sock'] x r(4) by auto
  have sx: "sent sock' = sent sock" using x by (auto simp: sock_read_def split: prod.splits)
  let ?w = "w\<lparr>w_sock := sock, w_files := (w_files w)(local \<mapsto> sent lf), w_file_tx := tx lf\<rparr>"
  have "receive_file local sz w = (if \<not> ok then print_out print_too_little_data ?w else ?w\<lparr>w_sock := sock'\<rparr>)"
  proof (cases x rule: read_cases')
    case (3 y ys)
    with nx show ?thesis by blast
  qed (use assms(3) in \<open>simp_all add: receive_file_def l x [unfolded One_nat_def] Let_def\<close>)
  then show "w_files (receive_file local sz w) = (w_files w)(local \<mapsto> arriving (rx (w_sock w)))"
    and "sent (w_sock (receive_file local sz w)) = sent (w_sock w)"
    and "w_out (receive_file local sz w) = w_out w @
      (if length (arriving (rx (w_sock w))) < unat sz then print_too_little_data else [])"
    using r sx by (auto simp: print_out_def not_le)
qed

lemma handle_get_run:
  assumes "handle_get remote local w = Some w'" and "length (request_line ''GET'' remote) < 1024"
    and "tx_clean (tx (w_sock w))" and "rx_clean (rx (w_sock w))" and "tx_clean (w_file_tx w)" and "w_create_ok w"
    and "arriving (rx (w_sock w)) = ''OK'' @ NL # encode_size sz @ body" and "length body \<le> unat sz"
  shows "w_files w' = (w_files w)(local \<mapsto> body)"
    and "sent (w_sock w') = sent (w_sock w) @ request_line ''GET'' remote"
    and "w_out w' = w_out w @ (if length body < unat sz then print_too_little_data else [])"
proof -
  obtain s0 where s0: "send_request (request_line ''GET'' remote) w = Some (w\<lparr>w_sock := s0\<rparr>)"
    "sent s0 = sent (w_sock w) @ request_line ''GET'' remote" "rx s0 = rx (w_sock w)"
    by (rule send_request_sends [OF assms(2,3)])
  let ?w = "w\<lparr>w_sock := s0, w_shut := True\<rparr>"
  have w': "w' = handle_get_response local ?w"
    using assms(1) by (simp add: handle_get_def s0(1) shutdown_write_def)
  have c: "rx_clean (rx s0)" "arriving (rx s0) = ''OK'' @ NL # encode_size sz @ body" using s0(3) assms(4,7) by simp_all
  obtain s1 where r1: "read_line_from_socket s0 1024 = (int (length ''OK'' + 1), ''OK'' @ [NL], s1)"
    and s1: "arriving (rx s1) = encode_size sz @ body" "rx_clean (rx s1)" "tx s1 = tx s0" "sent s1 = sent s0"
    by (rule read_status [OF c]) simp_all
  obtain q out s2 where r2: "read_all_from_socket s1 sizeof_size_t = (q, out, s2)" by (metis prod_cases3)
  from read_all_spec [OF s1(2) r2] s1
  have s2: "out = encode_size sz" "q = int sizeof_size_t" "arriving (rx s2) = body" "rx_clean (rx s2)" "sent s2 = sent s0"
    by simp_all
  have e: "w' = receive_file local sz (w\<lparr>w_shut := True, w_sock := s2\<rparr>)"
    unfolding w' handle_get_response_def using status_lines r1 r2 s2(1,2) by simp
  have le: "length (arriving (rx (w_sock (w\<lparr>w_shut := True, w_sock := s2\<rparr>)))) \<le> unat sz" using s2(3) assms(8) by simp
  from receive_file_run [OF _ _ _ le, of local] s2(3,4,5) assms(5,6) s0(2)
  show "w_files w' = (w_files w)(local \<mapsto> body)"
    and "sent (w_sock w') = sent (w_sock w) @ request_line ''GET'' remote"
    and "w_out w' = w_out w @ (if length body < unat sz then print_too_little_data else [])"
    unfolding e by simp_all
qed

subsection \<open>Sending a file\<close>

lemma send_file_loop_run:
  assumes "tx_clean (tx sock)"
  shows "sent (send_file_loop contents sock) = sent sock @ contents \<and> rx (send_file_loop contents sock) = rx sock
    \<and> tx_clean (tx (send_file_loop contents sock))"
  using assms
proof (induction contents sock rule: send_file_loop.induct)
  case (1 contents sock)
  note unf = send_file_loop.simps [of contents sock]
  show ?case
  proof (cases "contents = []")
    case True
    with "1.prems" unf show ?thesis by simp
  next
    case False
    obtain q s where w: "write_all_loop sock (take 4096 contents) 0 = (q, s)" by fastforce
    note wf = write_all_loop_spec [OF "1.prems" w]
    from "1.IH" [OF False] wf w False unf show ?thesis by simp
  qed
qed

lemma handle_put_run:
  assumes "handle_put remote local w = Some w'" and "length (request_line ''PUT'' remote) < 1024"
    and "tx_clean (tx (w_sock w))" and "w_files w local = Some contents"
  obtains s where "w' = simple_response (w\<lparr>w_sock := s, w_shut := True\<rparr>)" and "rx s = rx (w_sock w)"
    and "sent s = sent (w_sock w) @ request_line ''PUT'' remote @ encode_size (of_nat (length contents)) @ contents"
proof -
  obtain s0 where s0: "send_request (request_line ''PUT'' remote) w = Some (w\<lparr>w_sock := s0\<rparr>)"
    "sent s0 = sent (w_sock w) @ request_line ''PUT'' remote" "tx_clean (tx s0)" "rx s0 = rx (w_sock w)"
    by (rule send_request_sends [OF assms(2,3)])
  obtain q s1 where w1: "write_all_loop s0 (encode_size (of_nat (length contents))) 0 = (q, s1)" by fastforce
  note wf = write_all_loop_spec [OF s0(3) w1]
  have "tx_clean (tx s1)" using wf by simp
  note sf = send_file_loop_run [OF this, of contents]
  show thesis
    by (rule that [of "send_file_loop contents s1"])
       (use assms(1,4) s0 wf w1 sf in \<open>simp_all add: handle_put_def get_file_size_def shutdown_write_def\<close>)
qed


subsection \<open>Lists and errors\<close>

lemma receive_list_run:
  assumes "rx_clean (rx (w_sock w))" and "tx_clean (w_out_tx w)" and "False \<notin> set (w_alloc w)"
    and "arriving (rx (w_sock w)) = body" and "length body = unat sz"
  shows "w_out (receive_list sz w) = w_out w @ body" and "sent (w_sock (receive_list sz w)) = sent (w_sock w)"
proof -
  have "w_out (receive_list sz w) = w_out w @ body \<and> sent (w_sock (receive_list sz w)) = sent (w_sock w)"
  proof (cases "sz = 0")
    case True
    with assms show ?thesis by (simp add: receive_list_def)
  next
    case False
    obtain al where al: "next_alloc (w_alloc w) = (True, al)"
      using assms(3) by (cases "w_alloc w") auto
    obtain r out s1 where rd: "read_all_from_socket (w_sock w) (unat sz) = (r, out, s1)" by (metis prod_cases3)
    from read_all_spec [OF assms(1) rd] assms(4,5)
    have s1: "out = body" "r = int (length body)" "arriving (rx s1) = []" "sent s1 = sent (w_sock w)" by simp_all
    have rw: "\<not> (r < 0 \<or> word_of_int r \<noteq> sz)" using s1(2) assms(5) by simp
    obtain q so where w: "write_all_loop \<lparr>rx = [], tx = w_out_tx w, sent = []\<rparr> body 0 = (q, so)" by fastforce
    have so: "sent so = body"
      using write_all_loop_spec [OF _ w] assms(2) by simp
    obtain x s2 where x: "sock_read s1 1 = (x, s2)" by fastforce
    have nx: "x \<noteq> Inr (b # bs)" for b bs
      using sock.read_data [of 1 s1 "b # bs" s2] x s1(3) by auto
    have sx: "sent s2 = sent s1" using x by (auto simp: sock_read_def split: prod.splits)
    let ?w = "w\<lparr>w_alloc := al, w_sock := s1, w_out := w_out w @ body, w_out_tx := tx so, w_sock := s2\<rparr>"
    have "receive_list sz w = ?w"
    proof (cases x rule: read_cases')
      case (3 y ys)
      with nx show ?thesis by blast
    qed (use False rw in \<open>simp_all add: receive_list_def al rd w so s1(1) x [unfolded One_nat_def] Let_def\<close>)
    then show ?thesis using sx s1(4) by simp
  qed
  then show "w_out (receive_list sz w) = w_out w @ body" and "sent (w_sock (receive_list sz w)) = sent (w_sock w)"
    by blast+
qed

lemma handle_list_run:
  assumes "tx_clean (tx (w_sock w))" and "rx_clean (rx (w_sock w))" and "tx_clean (w_out_tx w)" and "False \<notin> set (w_alloc w)"
    and "arriving (rx (w_sock w)) = ''OK'' @ NL # encode_size sz @ body" and "length body = unat sz"
  shows "w_out (handle_list w) = w_out w @ body" and "sent (w_sock (handle_list w)) = sent (w_sock w) @ ''LIST'' @ [NL]"
proof -
  obtain q s0 where w0: "write_all_loop (w_sock w) (''LIST'' @ [NL]) 0 = (q, s0)" by fastforce
  note wf = write_all_loop_spec [OF assms(1) w0]
  have c: "rx_clean (rx s0)" "arriving (rx s0) = ''OK'' @ NL # encode_size sz @ body" using wf assms(2,5) by simp_all
  obtain s1 where r1: "read_line_from_socket s0 1024 = (int (length ''OK'' + 1), ''OK'' @ [NL], s1)"
    and s1: "arriving (rx s1) = encode_size sz @ body" "rx_clean (rx s1)" "tx s1 = tx s0" "sent s1 = sent s0"
    by (rule read_status [OF c]) simp_all
  obtain p out s2 where r2: "read_all_from_socket s1 sizeof_size_t = (p, out, s2)" by (metis prod_cases3)
  from read_all_spec [OF s1(2) r2] s1
  have s2: "out = encode_size sz" "p = int sizeof_size_t" "arriving (rx s2) = body" "rx_clean (rx s2)" "sent s2 = sent s0"
    by simp_all
  let ?w = "w\<lparr>w_shut := True, w_sock := s2\<rparr>"
  have e: "handle_list w = receive_list sz ?w"
    unfolding handle_list_def w0 snd_conv shutdown_write_def using status_lines r1 r2 s2(1,2) by (simp add: Let_def)
  have "w_out (receive_list sz ?w) = w_out ?w @ body" "sent (w_sock (receive_list sz ?w)) = sent (w_sock ?w)"
    by (rule receive_list_run; use s2 assms(3,4,6) in simp)+
  then show "w_out (handle_list w) = w_out w @ body" and "sent (w_sock (handle_list w)) = sent (w_sock w) @ ''LIST'' @ [NL]"
    using wf s2(5) by (simp_all add: e)
qed

lemma handle_get_error:
  assumes "handle_get remote local w = Some w'" and "length (request_line ''GET'' remote) < 1024"
    and "tx_clean (tx (w_sock w))" and "rx_clean (rx (w_sock w))"
    and "arriving (rx (w_sock w)) = ''ERROR'' @ NL # msg @ NL # later"
    and "NL \<notin> set msg" and "NUL \<notin> set msg" and "length msg < 100"
  shows "w_out w' = w_out w @ msg @ [NL]" and "w_files w' = w_files w"
proof -
  obtain s0 where s0: "send_request (request_line ''GET'' remote) w = Some (w\<lparr>w_sock := s0\<rparr>)" "rx s0 = rx (w_sock w)"
    by (rule send_request_sends [OF assms(2,3)])
  let ?w = "w\<lparr>w_sock := s0, w_shut := True\<rparr>"
  have w': "w' = handle_get_response local ?w"
    using assms(1) by (simp add: handle_get_def s0(1) shutdown_write_def)
  have c: "rx_clean (rx s0)" "arriving (rx s0) = ''ERROR'' @ NL # msg @ NL # later" using s0(2) assms(4,5) by simp_all
  obtain s1 where r1: "read_line_from_socket s0 1024 = (int (length ''ERROR'' + 1), ''ERROR'' @ [NL], s1)"
    and s1: "arriving (rx s1) = msg @ NL # later" "rx_clean (rx s1)"
    by (rule read_status [OF c]) simp_all
  have e: "w' = report_error (w\<lparr>w_shut := True, w_sock := s1\<rparr>)"
    unfolding w' handle_get_response_def using status_lines r1 by simp
  show "w_out w' = w_out w @ msg @ [NL]" and "w_files w' = w_files w"
    using report_error_prints [of "w\<lparr>w_shut := True, w_sock := s1\<rparr>" msg later] s1 assms(6-8) unfolding e by simp_all
qed

subsection \<open>Properties\<close>

text \<open>C24: Exactly the requests that fit are in bounds. A request handler of the client reads past its array
  of 1024 bytes (it sends as many bytes as \<open>snprintf\<close> says the line would have needed) exactly
  when the line is longer than that array.\<close>

theorem client_requests_in_bounds:
  "(handle_delete remote w = None \<longleftrightarrow> 1016 < length remote)
   \<and> (handle_get remote local w = None \<longleftrightarrow> 1019 < length remote)
   \<and> (handle_put remote local w = None \<longleftrightarrow> w_files w local \<noteq> None \<and> 1019 < length remote)"
proof -
  have l: "length (request_line ''DELETE'' remote) = length remote + 8" "length (request_line ''GET'' remote) = length remote + 5"
    "length (request_line ''PUT'' remote) = length remote + 5" by (simp_all add: request_line_def)
  have iff: "send_request line v = None \<longleftrightarrow> 1024 < length line" for line v
    using send_request_in [of line v] send_request_out [of line v] by linarith
  show ?thesis
    by (auto simp: handle_delete_def handle_get_def handle_put_def iff l Let_def split: option.splits prod.splits)
       (use iff [of "request_line ''PUT'' remote" w] l in auto)
qed

lemma client_bounds_get: "length remote < 1019 \<Longrightarrow> handle_get remote local w \<noteq> None"
  using send_request_in [of "request_line ''GET'' remote" w] by (auto simp: handle_get_def request_line_def)

lemma client_bounds_put: "length remote < 1019 \<Longrightarrow> handle_put remote local w \<noteq> None"
  using send_request_in [of "request_line ''PUT'' remote" w]
  by (auto simp: handle_put_def request_line_def split: option.splits prod.splits)

text \<open>C21: A download is stored exactly. When the server replies \<open>OK\<close>, a size and a body that is no longer
  than it, the client's local file holds exactly the body, whatever it held before, however
  the reply is cut into pieces; a body that is shorter is reported.\<close>

theorem client_get_exact:
  assumes "handle_get remote local w = Some w'" and "length remote < 1019"
    and "tx_clean (tx (w_sock w))" and "rx_clean (rx (w_sock w))" and "tx_clean (w_file_tx w)" and "w_create_ok w"
    and "arriving (rx (w_sock w)) = ''OK'' @ NL # encode_size sz @ body" and "length body \<le> unat sz"
  shows "w_files w' = (w_files w)(local \<mapsto> body)
    \<and> sent (w_sock w') = sent (w_sock w) @ ''GET '' @ remote @ [NL]
    \<and> w_out w' = w_out w @ (if length body < unat sz then print_too_little_data else [])"
proof -
  have l: "length (request_line ''GET'' remote) < 1024" using assms(2) by (simp add: request_line_def)
  show ?thesis using handle_get_run [OF assms(1) l assms(3-8)] by (simp add: request_line_def)
qed

theorem client_get_exact_witness:
  "map_option (\<lambda>w. w_files w ''b'') (handle_get ''a'' ''b'' \<lparr>w_sock = \<lparr>rx = [Data CHR ''O'' [], RIntr, Data CHR ''K'' [NL],
        Data CHR 0x02 (replicate 7 NUL @ ''x''), Data CHR ''y'' []], tx = [Room 2], sent = []\<rparr>, w_shut = False, w_out = [],
      w_out_tx = [], w_files = (\<lambda>f. None), w_file_tx = [], w_create_ok = True, w_alloc = []\<rparr>) = Some (Some ''xy'')"
proof -
  let ?w = "\<lparr>w_sock = \<lparr>rx = [Data CHR ''O'' [], RIntr, Data CHR ''K'' [NL],
        Data CHR 0x02 (replicate 7 NUL @ ''x''), Data CHR ''y'' []], tx = [Room 2], sent = []\<rparr>, w_shut = False, w_out = [],
      w_out_tx = [], w_files = (\<lambda>f. None), w_file_tx = [], w_create_ok = True, w_alloc = []\<rparr> :: world"
  have "handle_get ''a'' ''b'' ?w \<noteq> None" by (simp add: client_bounds_get)
  then obtain w' where w': "handle_get ''a'' ''b'' ?w = Some w'" by blast
  have z: "encode_size 2 = CHR 0x02 # replicate 7 NUL" by code_simp
  have a: "arriving (rx (w_sock ?w)) = ''OK'' @ NL # encode_size 2 @ ''xy''" by (simp add: z)
  have "w_files w' = (w_files ?w)(''b'' \<mapsto> ''xy'')"
    using client_get_exact [OF w' _ _ _ _ _ a] by (simp add: tx_clean_def rx_clean_def)
  then show ?thesis by (simp add: w')
qed

text \<open>C22: An upload is sent exactly. The client sends the request line, the size of the local file as eight
  bytes and the contents of the file, however little of it each \<open>write\<close> takes; then it reports
  success or the server's message.\<close>

theorem client_put_exact:
  assumes "handle_put remote local w = Some w'" and "length remote < 1019" and "w_files w local = Some contents"
    and "tx_clean (tx (w_sock w))" and "rx_clean (rx (w_sock w))"
    and "arriving (rx (w_sock w)) = ''OK'' @ NL # later \<and> reply = print_success
       \<or> arriving (rx (w_sock w)) = ''ERROR'' @ NL # msg @ NL # later \<and> NL \<notin> set msg \<and> NUL \<notin> set msg
           \<and> length msg < 100 \<and> reply = msg @ [NL]"
  shows "sent (w_sock w') = sent (w_sock w) @ ''PUT '' @ remote @ [NL] @ encode_size (of_nat (length contents)) @ contents
    \<and> w_out w' = w_out w @ reply"
proof -
  have l: "length (request_line ''PUT'' remote) < 1024" using assms(2) by (simp add: request_line_def)
  obtain s where s: "w' = simple_response (w\<lparr>w_sock := s, w_shut := True\<rparr>)" "rx s = rx (w_sock w)"
    "sent s = sent (w_sock w) @ request_line ''PUT'' remote @ encode_size (of_nat (length contents)) @ contents"
    by (rule handle_put_run [OF assms(1) l assms(4,3)])
  let ?w = "w\<lparr>w_sock := s, w_shut := True\<rparr>"
  have c: "rx_clean (rx (w_sock ?w))" using s(2) assms(5) by simp
  from assms(6) have "w_out w' = w_out ?w @ reply \<and> sent (w_sock w') = sent s"
  proof
    assume a: "arriving (rx (w_sock w)) = ''OK'' @ NL # later \<and> reply = print_success"
    then have "arriving (rx (w_sock ?w)) = ''OK'' @ NL # later" using s(2) by simp
    from simple_response_ok [OF c this] a show ?thesis by (simp add: s(1))
  next
    assume a: "arriving (rx (w_sock w)) = ''ERROR'' @ NL # msg @ NL # later \<and> NL \<notin> set msg \<and> NUL \<notin> set msg
           \<and> length msg < 100 \<and> reply = msg @ [NL]"
    then have "arriving (rx (w_sock ?w)) = ''ERROR'' @ NL # msg @ NL # later" using s(2) by simp
    from simple_response_error [OF c this] a show ?thesis by (simp add: s(1))
  qed
  then show ?thesis using s(3) by (simp add: request_line_def)
qed

theorem client_put_exact_witness:
  "map_option (\<lambda>w. w_out w) (handle_put ''a'' ''b'' \<lparr>w_sock = \<lparr>rx = [Data CHR ''O'' ''K'', Data NL []], tx = [Room 2, WIntr],
      sent = []\<rparr>, w_shut = False, w_out = [], w_out_tx = [], w_files = (\<lambda>f. Some ''xyz''), w_file_tx = [],
      w_create_ok = True, w_alloc = []\<rparr>) = Some print_success"
proof -
  let ?w = "\<lparr>w_sock = \<lparr>rx = [Data CHR ''O'' ''K'', Data NL []], tx = [Room 2, WIntr],
      sent = []\<rparr>, w_shut = False, w_out = [], w_out_tx = [], w_files = (\<lambda>f. Some ''xyz''), w_file_tx = [],
      w_create_ok = True, w_alloc = []\<rparr> :: world"
  have "handle_put ''a'' ''b'' ?w \<noteq> None" by (simp add: client_bounds_put)
  then obtain w' where w': "handle_put ''a'' ''b'' ?w = Some w'" by blast
  have "arriving (rx (w_sock ?w)) = ''OK'' @ NL # [] \<and> print_success = print_success
       \<or> arriving (rx (w_sock ?w)) = ''ERROR'' @ NL # [] @ NL # [] \<and> NL \<notin> set [] \<and> NUL \<notin> set []
           \<and> length ([] :: string) < 100 \<and> print_success = [] @ [NL]" by simp
  from client_put_exact [OF w' _ _ _ _ this] have "w_out w' = w_out ?w @ print_success"
    by (simp add: tx_clean_def rx_clean_def)
  then show ?thesis by (simp add: w')
qed

text \<open>C23: A list is printed exactly. When the server replies \<open>OK\<close>, a size and as many bytes, the client
  prints exactly these bytes, and nothing else.\<close>

theorem client_list_exact:
  assumes "tx_clean (tx (w_sock w))" and "rx_clean (rx (w_sock w))" and "tx_clean (w_out_tx w)" and "False \<notin> set (w_alloc w)"
    and "arriving (rx (w_sock w)) = ''OK'' @ NL # encode_size sz @ body" and "length body = unat sz"
  shows "w_out (handle_list w) = w_out w @ body \<and> sent (w_sock (handle_list w)) = sent (w_sock w) @ ''LIST'' @ [NL]"
  using handle_list_run [OF assms] by blast

theorem client_list_exact_witness:
  "w_out (handle_list \<lparr>w_sock = \<lparr>rx = [Data CHR ''O'' ''K'', Data NL [], Data CHR 0x03 (replicate 7 NUL), Data CHR ''a'' (NL # ''b'')],
      tx = [Room 2, WIntr], sent = []\<rparr>, w_shut = False, w_out = [], w_out_tx = [Room 0], w_files = (\<lambda>f. None), w_file_tx = [],
      w_create_ok = True, w_alloc = []\<rparr>) = ''a'' @ NL # ''b''"
proof -
  let ?w = "\<lparr>w_sock = \<lparr>rx = [Data CHR ''O'' ''K'', Data NL [], Data CHR 0x03 (replicate 7 NUL), Data CHR ''a'' (NL # ''b'')],
      tx = [Room 2, WIntr], sent = []\<rparr>, w_shut = False, w_out = [], w_out_tx = [Room 0], w_files = (\<lambda>f. None), w_file_tx = [],
      w_create_ok = True, w_alloc = []\<rparr> :: world"
  have z: "encode_size 3 = CHR 0x03 # replicate 7 NUL" by code_simp
  have a: "arriving (rx (w_sock ?w)) = ''OK'' @ NL # encode_size 3 @ ''a'' @ NL # ''b''" by (simp add: z)
  show ?thesis using client_list_exact [OF _ _ _ _ a] by (simp add: tx_clean_def rx_clean_def)
qed

subsection \<open>The arguments\<close>

text \<open>The address has a host and a port: a part without colons, colons, and something behind them.\<close>

definition host_and_port :: "string \<Rightarrow> bool" where
  "host_and_port s \<longleftrightarrow> (\<exists>a h b p. s = a @ h @ b @ p \<and> set a \<subseteq> {CHR '':''} \<and> h \<noteq> [] \<and> CHR '':'' \<notin> set h
     \<and> b \<noteq> [] \<and> set b \<subseteq> {CHR '':''} \<and> p \<noteq> [] \<and> hd p \<noteq> CHR '':'')"

definition usage_ok :: "string list \<Rightarrow> verb \<Rightarrow> bool" where
  "usage_ok argv v \<longleftrightarrow> 3 \<le> length argv \<and> host_and_port (argv ! 1) \<and>
     (let command = map toupper (argv ! 2) in
        v = LIST \<and> command = ''LIST'' \<or> v = DELETE \<and> command = ''DELETE'' \<and> 4 \<le> length argv
        \<or> v = GET \<and> command = ''GET'' \<and> 5 \<le> length argv \<or> v = PUT \<and> command = ''PUT'' \<and> 5 \<le> length argv)"

lemma strtok_None: "fst (strtok s) = None \<longleftrightarrow> set s \<subseteq> {CHR '':''}"
proof -
  have "fst (strtok s) = None \<longleftrightarrow> dropWhile (\<lambda>c. c = CHR '':'') s = []" by (simp add: strtok_def Let_def)
  then show ?thesis by (auto simp: dropWhile_eq_Nil_conv)
qed

lemma dropWhile_through: "\<forall>x \<in> set xs. P x \<Longrightarrow> ys \<noteq> [] \<Longrightarrow> \<not> P (hd ys) \<Longrightarrow> dropWhile P (xs @ ys) = ys"
  by (induction xs) (cases ys; simp)+

lemma port_there: "fst (strtok (snd (strtok s))) \<noteq> None \<longleftrightarrow> host_and_port s"
proof
  let ?c = "\<lambda>c. c = CHR '':''" and ?n = "\<lambda>c. c \<noteq> CHR '':''"
  assume p: "fst (strtok (snd (strtok s))) \<noteq> None"
  define t where "t = dropWhile ?c s"
  define r where "r = dropWhile ?n t"
  have "snd (strtok s) = (if t = [] then [] else drop 1 r)" by (simp add: strtok_def t_def r_def Let_def)
  then have t: "t \<noteq> []" and nr: "\<not> set (drop 1 r) \<subseteq> {CHR '':''}"
    using p strtok_None [of "snd (strtok s)"] by (auto split: if_splits)
  then have r: "r \<noteq> []" by auto
  then have hr: "hd r = CHR '':''" using hd_dropWhile [of ?n t] by (simp add: r_def)
  have ht: "hd t \<noteq> CHR '':''" using hd_dropWhile [of ?c s] t by (simp add: t_def)
  let ?p = "dropWhile ?c r"
  have pn: "?p \<noteq> []" using nr r by (cases r) (auto simp: dropWhile_eq_Nil_conv split: if_splits)
  have "s = takeWhile ?c s @ takeWhile ?n t @ takeWhile ?c r @ ?p"
    by (simp add: t_def r_def)
  moreover have "set (takeWhile ?c s) \<subseteq> {CHR '':''}" "set (takeWhile ?c r) \<subseteq> {CHR '':''}"
    by (auto dest: set_takeWhileD)
  moreover have "takeWhile ?n t \<noteq> []" using t ht by (cases t) auto
  moreover have "CHR '':'' \<notin> set (takeWhile ?n t)" by (auto dest: set_takeWhileD)
  moreover have "takeWhile ?c r \<noteq> []" using r hr by (cases r) auto
  moreover have "hd ?p \<noteq> CHR '':''" using hd_dropWhile [OF pn] .
  ultimately show "host_and_port s" using pn unfolding host_and_port_def by blast
next
  let ?c = "\<lambda>c. c = CHR '':''" and ?n = "\<lambda>c. c \<noteq> CHR '':''"
  assume "host_and_port s"
  then obtain a h b p where s: "s = a @ h @ b @ p" and a: "set a \<subseteq> {CHR '':''}" and h: "h \<noteq> []" "CHR '':'' \<notin> set h"
    and b: "b \<noteq> []" "set b \<subseteq> {CHR '':''}" and p: "p \<noteq> []" "hd p \<noteq> CHR '':''" unfolding host_and_port_def by blast
  have t: "dropWhile ?c s = h @ b @ p"
    unfolding s using a h by (intro dropWhile_through) (auto simp: neq_Nil_conv)
  have r: "dropWhile ?n (h @ b @ p) = b @ p"
    using b h(2) by (intro dropWhile_through) (auto simp: neq_Nil_conv)
  have "snd (strtok s) = drop 1 (b @ p)" using h(1) by (simp add: strtok_def t r)
  moreover have "hd p \<in> set (drop 1 (b @ p))" using b(1) p(1) by (auto simp: neq_Nil_conv)
  ultimately show "fst (strtok (snd (strtok s))) \<noteq> None" using p(2) strtok_None by auto
qed

lemma parse_args_result:
  "parse_args argv = (if 3 \<le> length argv \<and> host_and_port (argv ! 1)
     then Some [fst (strtok (argv ! 1)), fst (strtok (snd (strtok (argv ! 1)))), Some (map toupper (argv ! 2)),
                (if length argv > 3 then Some (argv ! 3) else None), (if length argv > 4 then Some (argv ! 4) else None), None]
     else None)"
  unfolding port_there [symmetric] by (auto simp: parse_args_def Let_def split: prod.splits)

text \<open>C25: The command line is checked. \<open>parse_args\<close> and \<open>check_args\<close> let exactly the command lines through
  that have an address with a host and a port, one of the four methods in upper or lower
  case, and the names that the method needs; the handlers then get these names, never a null
  pointer.\<close>

theorem client_arguments_checked:
  "(check_args (parse_args argv) = Inr v \<longleftrightarrow> usage_ok argv v)
   \<and> (usage_ok argv v \<longrightarrow> (\<exists>a. parse_args argv = Some a \<and> (v \<noteq> LIST \<longrightarrow> a ! 3 = Some (argv ! 3))
        \<and> (v = GET \<or> v = PUT \<longrightarrow> a ! 4 = Some (argv ! 4))))"
proof
  show "check_args (parse_args argv) = Inr v \<longleftrightarrow> usage_ok argv v"
    unfolding parse_args_result by (cases v) (auto simp: check_args_def usage_ok_def Let_def)
  show "usage_ok argv v \<longrightarrow> (\<exists>a. parse_args argv = Some a \<and> (v \<noteq> LIST \<longrightarrow> a ! 3 = Some (argv ! 3))
        \<and> (v = GET \<or> v = PUT \<longrightarrow> a ! 4 = Some (argv ! 4)))"
    unfolding parse_args_result by (auto simp: usage_ok_def Let_def)
qed

theorem client_arguments_checked_witness:
  "check_args (parse_args [''c'', ''h:1'', ''gEt'', ''r'', ''l'']) = Inr GET
   \<and> (\<exists>a. parse_args [''c'', ''h:1'', ''gEt'', ''r'', ''l''] = Some a \<and> a ! 3 = Some ''r'' \<and> a ! 4 = Some ''l'')"
proof -
  have c: "check_args (parse_args [''c'', ''h:1'', ''gEt'', ''r'', ''l'']) = Inr GET" by code_simp
  with client_arguments_checked [of "[''c'', ''h:1'', ''gEt'', ''r'', ''l'']" GET] show ?thesis by simp
qed

end
