(* ===== verification/Fss_System.thy ===== *)
theory Fss_System
  imports Fss_Server_Service Fss_Client_Run
begin

section \<open>Client and server together\<close>

text \<open>
  A client at the other end of a connection of the server: what the one sends is what the
  other receives. The theorems about the two sides are put together.
\<close>

subsection \<open>Reading a reply sends nothing\<close>

lemma sock_read_sent: "sock_read s n = (r, s') \<Longrightarrow> sent s' = sent s"
  by (auto simp: sock_read_def split: prod.splits)

lemma read_line_loop_sent: "read_line_loop s b n = (r, out, s') \<Longrightarrow> sent s' = sent s"
proof (induction s b n rule: read_line_loop.induct)
  case (1 s b n)
  note unf = read_line_loop.simps [of s b n]
  show ?case
  proof (cases "length b < n - 1")
    case False
    with "1.prems" show ?thesis by (auto simp: unf)
  next
    case True
    obtain r1 s1 where rd: "sock_read s 1 = (r1, s1)" by fastforce
    note st = sock_read_sent [OF rd]
    show ?thesis
    proof (cases r1 rule: read_cases)
      case 1
      with "1.IH"(1) [OF True rd [symmetric] 1 refl] "1.prems" True rd st show ?thesis by (simp add: unf)
    next
      case (5 x xs)
      with "1.IH"(2) [OF True rd [symmetric] 5 refl] "1.prems" True rd st show ?thesis
        by (cases "x = NL") (auto simp: unf)
    qed (use "1.prems" True rd st in \<open>auto simp: unf split: if_splits\<close>)
  qed
qed

lemma read_all_loop_sent: "read_all_loop s b n = (r, out, s') \<Longrightarrow> sent s' = sent s"
proof (induction s b n rule: read_all_loop.induct)
  case (1 s b n)
  note unf = read_all_loop.simps [of s b n]
  show ?case
  proof (cases "length b < n")
    case False
    with "1.prems" show ?thesis by (auto simp: unf)
  next
    case True
    obtain r1 s1 where rd: "sock_read s (n - length b) = (r1, s1)" by fastforce
    note st = sock_read_sent [OF rd]
    show ?thesis
    proof (cases r1 rule: read_cases)
      case 1
      with "1.IH"(1) [OF True rd [symmetric] 1 refl] "1.prems" True rd st show ?thesis by (simp add: unf)
    next
      case (5 x xs)
      with "1.IH"(2) [OF True rd [symmetric] 5 refl] "1.prems" True rd st show ?thesis by (simp add: unf)
    qed (use "1.prems" True rd st in \<open>auto simp: unf\<close>)
  qed
qed

lemmas read_line_sent = read_line_loop_sent [of _ "[]", folded read_line_from_socket_def]
lemmas read_all_sent = read_all_loop_sent [of _ "[]", folded read_all_from_socket_def]

lemma print_out_sent [simp]: "sent (w_sock (print_out msg w)) = sent (w_sock w)"
  by (simp add: print_out_def)

lemma report_error_sent: "sent (w_sock (report_error w)) = sent (w_sock w)"
  by (auto simp: report_error_def Let_def read_line_sent split: prod.splits)

lemma simple_response_sent: "sent (w_sock (simple_response w)) = sent (w_sock w)"
  by (auto simp: simple_response_def Let_def report_error_sent read_line_sent split: prod.splits)

lemma receive_file_loop_sent: "receive_file_loop e b sock lf = (ok, sock', lf') \<Longrightarrow> sent sock' = sent sock"
proof (induction e b sock lf rule: receive_file_loop.induct)
  case (1 e b sock lf)
  note unf = receive_file_loop.simps [of e b sock lf]
  obtain r out s1 where rd: "read_all_from_socket sock (piece_len (e - b)) = (r, out, s1)" by (metis prod_cases3)
  show ?case
  proof (cases "b < e \<and> \<not> r \<le> 0")
    case True
    with "1.IH" [OF _ rd [symmetric] refl] "1.prems" rd read_all_sent [OF rd] show ?thesis by (simp add: unf)
  next
    case False
    with "1.prems" rd read_all_sent [OF rd] show ?thesis by (auto simp: unf split: if_splits)
  qed
qed

lemma receive_file_sent: "sent (w_sock (receive_file local sz w)) = sent (w_sock w)"
  by (auto simp: receive_file_def Let_def receive_file_loop_sent sock_read_sent split: prod.splits sum.splits list.splits)

lemma handle_get_response_sent: "sent (w_sock (handle_get_response local w)) = sent (w_sock w)"
  by (auto simp: handle_get_response_def Let_def report_error_sent receive_file_sent read_line_sent read_all_sent
      split: prod.splits)


subsection \<open>Two clients\<close>

text \<open>
  The client that starts in the world \<open>w\<close> and ends in \<open>w'\<close> is at the other end of connection
  \<open>n\<close> of the server that goes from \<open>s\<close> to \<open>s'\<close>: each receives what the other has sent, cut in
  any way, and the client's end does not break.
\<close>

definition peers :: "world \<Rightarrow> world \<Rightarrow> nat \<Rightarrow> server \<Rightarrow> server \<Rightarrow> bool" where
  "peers w w' n s s' \<longleftrightarrow> sent (w_sock w) = [] \<and> tx_clean (tx (w_sock w)) \<and> rx_clean (rx (w_sock w))
     \<and> arriving (rx_of n (kern s)) = sent (w_sock w') \<and> arriving (rx (w_sock w)) = sent_of n (kern s')"

lemma put_line_sent:
  assumes "handle_put f local w = Some w'" and "length f < 1019" and "w_files w local = Some body"
    and p: "sent (w_sock w) = []" "tx_clean (tx (w_sock w))"
  shows "sent (w_sock w') = ''PUT '' @ f @ NL # encode_size (of_nat (length body)) @ body"
proof -
  have l: "length (request_line ''PUT'' f) < 1024" using assms(2) by (simp add: request_line_def)
  obtain z where z: "w' = simple_response (w\<lparr>w_sock := z, w_shut := True\<rparr>)"
    "sent z = sent (w_sock w) @ request_line ''PUT'' f @ encode_size (of_nat (length body)) @ body"
    by (rule handle_put_run [OF assms(1) l p(2) assms(3)])
  show ?thesis using z p(1) by (simp add: simple_response_sent request_line_def)
qed

lemma get_line_sent:
  assumes "handle_get f local w = Some w'" and "length f < 1019"
    and p: "sent (w_sock w) = []" "tx_clean (tx (w_sock w))"
  shows "sent (w_sock w') = ''GET '' @ f @ [NL]"
proof -
  have l: "length (request_line ''GET'' f) < 1024" using assms(2) by (simp add: request_line_def)
  obtain z where z: "send_request (request_line ''GET'' f) w = Some (w\<lparr>w_sock := z\<rparr>)"
    "sent z = sent (w_sock w) @ request_line ''GET'' f"
    by (rule send_request_sends [OF l p(2)])
  have "w' = handle_get_response local (w\<lparr>w_sock := z, w_shut := True\<rparr>)"
    using assms(1) z(1) by (simp add: handle_get_def shutdown_write_def)
  then show ?thesis using z(2) p(1) by (simp add: handle_get_response_sent request_line_def)
qed

text \<open>Events of one connection do not touch the bytes of another.\<close>

lemma mine_conns:
  assumes "mine q gd m s" and "events_on gd es" and "n \<noteq> m" and "handle_events es s = Some s'"
  shows "conns (kern s') n = conns (kern s) n"
  using assms
proof (induction es arbitrary: s)
  case Nil
  then show ?case by simp
next
  case (Cons e es)
  obtain ev where e: "e = (gd, ev)" and ev: "ev = FSS_EVENT_READ \<or> ev = FSS_EVENT_WRITE" and on: "events_on gd es"
    using Cons.prems(2) by (cases e) auto
  from Cons.prems(4) obtain s1 where s1: "handle_event (gd, ev) s = Some s1" "handle_events es s1 = Some s'"
    unfolding e by (auto split: option.splits)
  show ?case
  proof (cases "dict_lookup (fd_to_client s) gd")
    case None
    then have "s1 = s" using Cons.prems(1) s1(1) by (simp add: mine_def handle_event_def dict_lookup_def)
    with Cons.IH [OF Cons.prems(1) on Cons.prems(3)] s1(2) show ?thesis by simp
  next
    case (Some q')
    with Cons.prems(1) have d: "server_ok s" "gd \<noteq> listen_fd s" "dict_lookup (fd_to_client s) gd = Some q"
        "map_of (fds (kern s)) gd = Some (OSock m)" by (simp_all add: mine_def)
    from handle_event_cases [OF d(1) one_direction [OF ev] d(2,3) s1(1)] obtain c h where
      c: "heap s q = Some c" and h: "s1 = put_back q h" "kept q gd s h" by metis
    obtain r s2 where r: "h = (r, s2)" by fastforce
    have "frame q gd s s2" using h(2) r by (cases r) (auto simp: held_def gone_def)
    then have "conns (kern s1) n = conns (kern s) n"
      using d(4) Cons.prems(3) h(1) r by (simp add: frame_def put_back_def)
    moreover have "mine q gd m s1"
      using h r d handle_event_ok [OF d(1) one_direction [OF ev], of gd] s1(1)
      by (cases r) (auto simp: mine_def put_back_def held_def gone_def frame_def)
    ultimately show ?thesis using Cons.IH [OF _ on Cons.prems(3) s1(2)] by simp
  qed
qed

lemma fresh_mine: "fresh_conn p fd n s \<Longrightarrow> mine p fd n s"
  by (simp add: fresh_conn_def mine_def)

lemma enough_on: "enough fd b es \<Longrightarrow> events_on fd es"
  by (auto simp: enough_def)

text \<open>An upload on one connection, then a download on another.\<close>

lemma put_then_get:
  assumes f: "fresh_conn p fd n s" "fresh_conn q gd m s" "p \<noteq> q" "n \<noteq> m"
    and an: "arriving (rx_of n (kern s)) = ''PUT '' @ f @ NL # encode_size (of_nat (length body)) @ body"
    and am: "arriving (rx_of m (kern s)) = ''GET '' @ f @ NL # later"
    and ok: "line_ok (''PUT '' @ f)" "writable s (filepath s (take 255 f))" "False \<notin> set (heap_ok (kern s))"
      "length body < 2 ^ 64"
    and ev: "enough fd (script_len n s + MAX_HEADER_LEN) es" "enough gd (script_len m s + length body + 12) es'"
  shows "\<exists>s'. handle_events (es @ es') s = Some s' \<and> sent_of n (kern s') = OK_LINE
    \<and> sent_of m (kern s') = OK_LINE @ encode_size (of_nat (length body)) @ body"
proof -
  have u: "unat (of_nat (length body) :: size_t) = length body"
    using ok(4) by (simp add: unat_of_nat take_bit_nat_eq_self)
  have l: "line_ok (''GET '' @ f)" using ok(1) by (simp add: line_ok_def)
  from upload_served [OF f(1) an ok(1-3) _ ev(1)] obtain s1 okk where
    s1: "handle_events es s = Some s1" "sent_of n (kern s1) = put_reply okk"
      "file_at (kern s1) (filepath s1 (take 255 f)) = Some body" "disk (kern s1) = []"
      "if okk then length body \<le> length body else length body \<noteq> length body"
    unfolding u by (auto split: if_splits)
  have sn1: "sent_of n (kern s1) = OK_LINE" using s1(2,5) by (cases okk) (simp_all add: put_reply_def)
  note o = fresh_other [OF f ev(1) s1(1)]
  have en: "enough gd (script_len m s1 + length body + 12) es'" using ev(2) o(2) by (simp add: script_len_def)
  have "arriving (rx_of m (kern s1)) = ''GET '' @ f @ NL # later" using am o(2) by simp
  from get_served [OF o(1) this l s1(3,4) ok(4) en] obtain s' where
    e2: "handle_events es' s1 = Some s'" and sm: "sent_of m (kern s') = OK_LINE @ encode_size (of_nat (length body)) @ body"
    by blast
  have "conns (kern s') n = conns (kern s1) n"
    by (rule mine_conns [OF fresh_mine [OF o(1)] enough_on [OF ev(2)] f(4) e2])
  then show ?thesis using sn1 sm e2 s1(1) by (simp add: handle_events_append)
qed

text \<open>The file that one client stores is the file that another one fetches.\<close>

lemma stored_then_fetched:
  assumes f: "fresh_conn p fd n s" "fresh_conn q gd m s" "p \<noteq> q" "n \<noteq> m"
    and put: "handle_put f local w = Some w'" "w_files w local = Some body" "peers w w' n s s'"
    and get: "handle_get f copy v = Some v'" "tx_clean (w_file_tx v)" "w_create_ok v" "peers v v' m s s'"
    and ok: "NUL \<notin> set f" "NL \<notin> set f" "length f < 1018" "writable s (filepath s (take 255 f))"
      "False \<notin> set (heap_ok (kern s))" "length body < 2 ^ 64"
    and ev: "enough fd (script_len n s + MAX_HEADER_LEN) es" "enough gd (script_len m s + length body + 12) es'"
      "handle_events (es @ es') s = Some s'"
  shows "w_files v' = (w_files v)(copy \<mapsto> body)" and "w_out w' = w_out w @ print_success" and "w_out v' = w_out v"
proof -
  have l: "length f < 1019" "line_ok (''PUT '' @ f)" "line_ok (''GET '' @ f)"
    using ok(1-3) by (simp_all add: line_ok_def MAX_HEADER_LEN_def)
  have u: "unat (of_nat (length body) :: size_t) = length body"
    using ok(6) by (simp add: unat_of_nat take_bit_nat_eq_self)
  have an: "arriving (rx_of n (kern s)) = ''PUT '' @ f @ NL # encode_size (of_nat (length body)) @ body"
    using put_line_sent [OF put(1) l(1) put(2)] put(3) by (simp add: peers_def)
  have am: "arriving (rx_of m (kern s)) = ''GET '' @ f @ NL # []"
    using get_line_sent [OF get(1) l(1)] get(4) by (simp add: peers_def)
  from put_then_get [OF f an am l(2) ok(4-6) ev(1,2)] ev(3)
  have sn: "sent_of n (kern s') = OK_LINE"
    and sm: "sent_of m (kern s') = OK_LINE @ encode_size (of_nat (length body)) @ body" by auto
  have ra: "rx_clean (rx (w_sock w))" "arriving (rx (w_sock w)) = ''OK'' @ NL # []" "tx_clean (tx (w_sock w))"
    using put(3) sn by (simp_all add: peers_def OK_LINE_def)
  have rb: "rx_clean (rx (w_sock v))" "tx_clean (tx (w_sock v))"
    "arriving (rx (w_sock v)) = ''OK'' @ NL # encode_size (of_nat (length body)) @ body"
    using get(4) sm by (simp_all add: peers_def OK_LINE_def)
  have lp: "length (request_line ''PUT'' f) < 1024" "length (request_line ''GET'' f) < 1024"
    using l(1) by (simp_all add: request_line_def)
  obtain z where z: "w' = simple_response (w\<lparr>w_sock := z, w_shut := True\<rparr>)" "rx z = rx (w_sock w)"
    by (rule handle_put_run [OF put(1) lp(1) ra(3) put(2)])
  show "w_out w' = w_out w @ print_success"
    using simple_response_ok [of "w\<lparr>w_sock := z, w_shut := True\<rparr>" "[]"] z ra(1,2) by simp
  have le: "length body \<le> unat (of_nat (length body) :: size_t)" by (simp add: u)
  note g = handle_get_run [OF get(1) lp(2) rb(2,1) get(2,3) rb(3) le]
  show "w_files v' = (w_files v)(copy \<mapsto> body)" by (rule g(1))
  show "w_out v' = w_out v" using g(3) by (simp add: u)
qed

end
