(* ===== verification/Fss_Server_Failures.thy ===== *)
theory Fss_Server_Failures
  imports Fss_Server_Service
begin

section \<open>Failures, set-up and clean-up\<close>

text \<open>
  What happens when a connection breaks or a request is not text, and what the set-up and the
  clean-up of the server leave behind.
\<close>

subsection \<open>Broken connections\<close>

lemma error_event:
  assumes "server_ok s" and "fd \<noteq> listen_fd s" and "dict_lookup (fd_to_client s) fd = Some p" and "heap s p = Some c"
    and "has_bit m FSS_EVENT_ERROR"
  shows "handle_event (fd, m) s = Some (put_back p (close_and_cleanup c s))"
  using assms by (simp add: handle_event_def dict_lookup_def)

lemma sys_unlink_gone:
  assumes "disk k = []"
  shows "file_at (snd (sys_unlink path k)) path = None"
  using assms by (auto simp: sys_unlink_def next_disk_def file_at_def map_of_filter_other split: option.splits node.splits)

lemma file_at_close [simp]: "file_at (sys_close f k) path = file_at k path"
  by (auto simp: file_at_def split: option.splits)

lemma unlink_frame:
  "resolve (snd (sys_unlink path k)) = resolve k" "inodes (snd (sys_unlink path k)) = inodes k"
  by (auto simp: sys_unlink_def next_disk_def Let_def split: option.splits node.splits list.splits)

text \<open>Closing the connection of an upload that is not done unlinks whatever is at the path of its name.\<close>

lemma close_unlinks:
  assumes "c_verb c = PUT" and "c_state c \<noteq> STATE_DONE" and "disk (kern s) = []"
    and "close_and_cleanup c s = (r, s')"
  shows "file_at (kern s') (filepath s' (c_filename c)) = None" and "server_files s' = server_files s"
    and "temp_dir s' = temp_dir s"
proof -
  obtain q k where rm: "event_loop_remove (event_loop_fd s) (c_fd c) (kern s) = (q, k)" by fastforce
  let ?k = "sys_close (c_fd c) k" and ?path = "filepath s (c_filename c)"
  have dk: "disk ?k = []" using remove_kernel(1) [OF rm] assms(3) by simp
  have s': "s' = s\<lparr>fd_to_client := dictionary_remove (fd_to_client s) (Some (c_fd c)),
      kern := client_destroy c (snd (sys_unlink ?path ?k))\<rparr>"
    using assms(1,2,4) by (simp add: close_and_cleanup_def rm Let_def)
  show "server_files s' = server_files s" "temp_dir s' = temp_dir s" by (simp_all add: s')
  have "filepath s' (c_filename c) = ?path" by (simp add: s' filepath_def)
  moreover have "file_at (kern s') ?path = file_at (snd (sys_unlink ?path ?k)) ?path"
    by (simp add: s' client_destroy_def)
  ultimately show "file_at (kern s') (filepath s' (c_filename c)) = None"
    using sys_unlink_gone [OF dk] by simp
qed

text \<open>For the witness: the server when the request for an upload has been read.\<close>

definition demo_putting :: server where
  "demo_putting = the (handle_event (2, FSS_EVENT_READ) (demo_named [Data CHR ''P'' (''UT a'' @ [NL])]))"

lemma demo_putting_ok: "handle_event (2, FSS_EVENT_READ) (demo_named [Data CHR ''P'' (''UT a'' @ [NL])]) = Some demo_putting"
    "server_ok demo_putting"
proof -
  have ok: "server_ok (demo_named [Data CHR ''P'' (''UT a'' @ [NL])])"
    using demo_named_fresh by (simp add: fresh_conn_def)
  have ev: "\<not> (has_bit FSS_EVENT_READ FSS_EVENT_READ \<and> has_bit FSS_EVENT_READ FSS_EVENT_WRITE)" by code_simp
  from handle_event_ok [OF ok ev, of 2] show "handle_event (2, FSS_EVENT_READ) (demo_named [Data CHR ''P'' (''UT a'' @ [NL])]) = Some demo_putting"
    "server_ok demo_putting" by (auto simp: demo_putting_def)
qed

lemma demo_putting_facts: "listen_fd demo_putting = 0" "dict_lookup (fd_to_client demo_putting) 2 = Some 0"
  "map_option (\<lambda>c. (c_verb c, c_filename c)) (heap demo_putting 0) = Some (PUT, ''a'')" "disk (kern demo_putting) = []"
  "temp_dir demo_putting = Some ''dir''" "files_of demo_putting = [''a'']"
  "file_at (kern demo_putting) ''dir/a'' = Some ''xyz''"
  unfolding dict_lookup_def by code_simp+

text \<open>C35: An upload that breaks off takes the stored file with it. When the connection of an upload breaks
  before it is done, whatever is at the path of its name is unlinked, even if the upload has
  not written there yet; but the list of names is left alone, so a file that had been stored
  under the name is gone and still listed.\<close>

theorem aborted_upload_unlinks:
  assumes "server_ok s" and "fd \<noteq> listen_fd s" and "dict_lookup (fd_to_client s) fd = Some p" and "heap s p = Some c"
    and "has_bit m FSS_EVENT_ERROR" and "c_verb c = PUT" and "disk (kern s) = []"
  shows "\<exists>s'. handle_event (fd, m) s = Some s' \<and> heap s' p = None
    \<and> file_at (kern s') (filepath s' (c_filename c)) = None \<and> files_of s' = files_of s"
proof -
  obtain r s1 where cl: "close_and_cleanup c s = (r, s1)" by fastforce
  have "client_ok c" using assms(1,4) by (simp add: server_ok_def)
  then have "c_state c \<noteq> STATE_DONE" by (auto simp: client_ok_def state_ok_def)
  note u = close_unlinks [OF assms(6) this assms(7) cl]
  have "r = None" using cl by (simp add: close_and_cleanup_def Let_def prod_eq_iff)
  then show ?thesis
    using error_event [OF assms(1-5)] u cl by (simp add: put_back_def filepath_def)
qed

theorem aborted_upload_unlinks_witness:
  "\<exists>s'. handle_events [(2, FSS_EVENT_READ), (2, FSS_EVENT_ERROR)] (demo_named [Data CHR ''P'' (''UT a'' @ [NL])]) = Some s'
     \<and> heap s' 0 = None \<and> file_at (kern s') (filepath s' ''a'') = None \<and> files_of s' = [''a'']"
proof -
  obtain c where c: "heap demo_putting 0 = Some c" "c_verb c = PUT" "c_filename c = ''a''"
    using demo_putting_facts(3) by (cases "heap demo_putting 0") auto
  have "has_bit FSS_EVENT_ERROR FSS_EVENT_ERROR" by code_simp
  from aborted_upload_unlinks [OF demo_putting_ok(2) _ demo_putting_facts(2) c(1) this c(2) demo_putting_facts(4)]
  show ?thesis using demo_putting_ok(1) demo_putting_facts(1,6) c(3) by auto
qed


text \<open>C38: A zero byte hides the end of the line. When a zero byte stands before the newline, the parser
  does not see the newline: the request is neither answered nor refused.\<close>

theorem nul_hides_newline:
  assumes "c_header_buf c = a @ NUL # b" and "NL \<notin> set a"
  shows "parse_header_and_transition c s = (Some c, s)"
proof -
  have "strchr (a @ NUL # b) NL = None" using assms(2) by (induction a) auto
  then show ?thesis by (simp add: parse_header_and_transition_def assms(1))
qed

theorem nul_hides_newline_witness:
  "parse_header_and_transition ((client_create 2)\<lparr>c_header_buf := ''GE'' @ NUL # [NL]\<rparr>) two_names
     = (Some ((client_create 2)\<lparr>c_header_buf := ''GE'' @ NUL # [NL]\<rparr>), two_names)"
  by (rule nul_hides_newline [of _ "''GE''" "[NL]"]) simp_all

subsection \<open>Set-up\<close>

lemma sys_close_listen:
  "map_of (fds k) fd = None \<Longrightarrow> map_of (fds (sys_close fd (k\<lparr>fds := (fd, OListen) # fds k\<rparr>))) = map_of (fds k)"
  by (auto simp: fun_eq_iff)

lemma bind_loop_result:
  assumes "bind_loop cs k = (fd, k')"
  shows "fd = - 1 \<and> k' = k \<and> (True, True) \<notin> set cs
    \<or> fd = fresh_fd (fds k) \<and> k' = k\<lparr>fds := (fd, OListen) # fds k\<rparr> \<and> (True, True) \<in> set cs"
  using assms by (induction cs k rule: bind_loop.induct) (auto split: if_splits)



subsection \<open>Clean-up\<close>

lemma unlink_keeps_gone:
  assumes "file_at k path = None"
  shows "file_at (snd (sys_unlink path' k)) path = None"
  using assms
  by (auto simp: sys_unlink_def next_disk_def file_at_def map_of_filter_other Let_def
      split: option.splits node.splits list.splits if_splits)

lemma unlink_disk: "disk k = [] \<Longrightarrow> disk (snd (sys_unlink path k)) = []"
  by (auto simp: sys_unlink_def next_disk_def split: option.splits node.splits)

lemma unlink_all_keeps_gone: "file_at k path = None \<Longrightarrow> file_at (unlink_all d names k) path = None"
  by (induction d names k rule: unlink_all.induct) (auto simp: unlink_keeps_gone)

lemma unlink_all_gone:
  assumes "disk k = []" and "name \<in> set names" and "name \<noteq> ''.''" and "name \<noteq> ''..''"
  shows "file_at (unlink_all d names k) (fst (snprintf 1024 (d @ ''/'' @ name))) = None"
  using assms
proof (induction d names k rule: unlink_all.induct)
  case (2 d x names k)
  show ?case
  proof (cases "x = name")
    case True
    with "2.prems" sys_unlink_gone [OF "2.prems"(1)] show ?thesis by (simp add: unlink_all_keeps_gone)
  next
    case False
    with 2 show ?thesis by (simp add: unlink_disk)
  qed
qed simp

text \<open>C40: The clean-up removes the stored files. Every file whose name the directory lists is gone after
  \<open>cleanup\<close>, the listening socket and the event queue are closed, and the list and the map
  are freed.\<close>

theorem cleanup_removes_files:
  assumes "disk (kern s) = []" and "temp_dir s = Some d" and "listen_fd s \<noteq> - 1" and "event_loop_fd s \<noteq> - 1"
    and "name \<in> set names" and "name \<noteq> ''.''" and "name \<noteq> ''..''"
  shows "file_at (kern (cleanup (Some names) s)) (filepath s name) = None
    \<and> map_of (fds (kern (cleanup (Some names) s))) (listen_fd s) = None
    \<and> map_of (fds (kern (cleanup (Some names) s))) (event_loop_fd s) = None
    \<and> server_files (cleanup (Some names) s) = None \<and> fd_to_client (cleanup (Some names) s) = None"
  using unlink_all_gone [OF assms(1,5-7), of d] assms(2-4)
  by (simp add: cleanup_def cleanup_temp_directory_def filepath_def dictionary_destroy_def Let_def split: option.splits)

theorem cleanup_removes_files_witness:
  "file_at (kern (cleanup (Some [''.'', ''a'', ''..'']) (demo_server [(''dir/a'', 5)] ''xyz'' [] []))) ''dir/a'' = None"
proof -
  let ?s = "demo_server [(''dir/a'', 5)] ''xyz'' [] []"
  have e: "event_loop_fd ?s \<noteq> - 1" by code_simp
  have p: "filepath ?s ''a'' = ''dir/a''" using demo_path [of "''a''"] by simp
  show ?thesis
    using cleanup_removes_files [OF _ _ _ e, of "''dir''" "''a''" "[''.'', ''a'', ''..'']"] by (simp add: p)
qed

end
