(* ===== verification/Fss_Server_Overlong.thy ===== *)
theory Fss_Server_Overlong
  imports Fss_Server_Service
begin

section \<open>Request lines that are too long\<close>

text \<open>
  The conversation in which the header array fills up before a newline has come: the request
  is refused as soon as 1023 bytes are there.
\<close>

lemma header_loop_fill:
  assumes "map_of (fds k) (c_fd c) = Some (OSock n)"
    and "arriving (rx_of n k) = line @ later" and "NL \<notin> set line"
    and "length (c_header_buf c) + length line = MAX_HEADER_LEN - 1"
  shows "\<exists>es a b. line = a @ b \<and> arriving es = b @ later \<and> closes es = closes (rx_of n k)
      \<and> rx_weight es \<le> rx_weight (rx_of n k) \<and> (b \<noteq> [] \<longrightarrow> rx_weight es < rx_weight (rx_of n k))
      \<and> recv_header_loop c k = (HeaderWait, c\<lparr>c_header_buf := c_header_buf c @ a\<rparr>, set_rx n es k)"
  using assms
proof (induction c k arbitrary: line rule: recv_header_loop.induct)
  case (1 c k)
  show ?case
  proof (cases "line = []")
    case True
    then have "\<not> length (c_header_buf c) < MAX_HEADER_LEN - 1" using "1.prems"(4) by simp
    then have "recv_header_loop c k = (HeaderWait, c, k)" by (simp add: recv_header_loop.simps [of c k])
    then show ?thesis using True "1.prems"(2)
      by (intro exI [of _ "rx_of n k"] exI [of _ "[]"]) simp
  next
    case ne: False
    then have room: "length (c_header_buf c) < MAX_HEADER_LEN - 1" using "1.prems"(4) by (cases line) simp_all
    note unf = recv_header_loop.simps [of c k, unfolded if_P [OF room]]
    obtain r k1 where rd: "sys_read (c_fd c) 1 k = (r, k1)" by fastforce
    note unf = unf [unfolded rd prod.case]
    obtain es1 where
      k1: "k1 = set_rx n es1 k" and cl: "closes es1 = closes (rx_of n k)"
      and itr: "r = Inl EINTR \<Longrightarrow> arriving es1 = arriving (rx_of n k) \<and> rx_weight es1 < rx_weight (rx_of n k)"
      and ag: "r = Inl EAGAIN \<Longrightarrow> arriving es1 = arriving (rx_of n k) \<and>
             (rx_weight es1 < rx_weight (rx_of n k) \<or> rx_of n k = [] \<and> es1 = [])"
      and oth: "r = Inl EOTHER \<or> r = Inr [] \<Longrightarrow> arriving (rx_of n k) = [] \<and> arriving es1 = [] \<and> closes (rx_of n k)
             \<and> rx_weight es1 \<le> rx_weight (rx_of n k)"
      and dat: "\<And>x xs. r = Inr (x # xs) \<Longrightarrow> arriving (rx_of n k) = x # xs @ arriving es1 \<and> length (x # xs) \<le> 1
             \<and> rx_weight es1 < rx_weight (rx_of n k)"
      by (rule read_own [OF "1.prems"(1) zero_less_one rd]) (rule that; assumption)
    have an: "arriving (rx_of n k) \<noteq> []" using "1.prems"(2) ne by simp
    have rx1: "rx_of n k1 = es1" and st: "set_rx n es k1 = set_rx n es k" for es using k1 by simp_all
    show ?thesis
    proof (cases r rule: read_cases)
      case 1
      have ar: "arriving es1 = line @ later" and fd: "map_of (fds k1) (c_fd c) = Some (OSock n)"
        using itr [OF 1] "1.prems"(1,2) k1 by simp_all
      have eq: "recv_header_loop c k = recv_header_loop c k1" by (simp add: unf 1)
      from "1.IH"(1) [OF room rd [symmetric] 1 refl fd _ "1.prems"(3,4), unfolded rx1 st, OF ar]
      obtain es a b where o: "line = a @ b" "arriving es = b @ later" "closes es = closes es1"
        "rx_weight es \<le> rx_weight es1" "recv_header_loop c k1 = (HeaderWait, c\<lparr>c_header_buf := c_header_buf c @ a\<rparr>, set_rx n es k)"
        by blast
      have "rx_weight es1 < rx_weight (rx_of n k)" using itr [OF 1] by simp
      then show ?thesis using o cl unfolding eq
        by (intro exI [of _ es] exI [of _ a] exI [of _ b]) simp
    next
      case 2
      with ag an have "rx_weight es1 < rx_weight (rx_of n k)" "arriving es1 = line @ later"
        using "1.prems"(2) by auto
      then show ?thesis using cl k1
        by (intro exI [of _ es1] exI [of _ "[]"] exI [of _ line]) (simp add: unf 2)
    next
      case 3
      with oth an show ?thesis by simp
    next
      case 4
      with oth an show ?thesis by simp
    next
      case (5 x xs)
      note d = dat [OF 5]
      then have xs: "xs = []" and ar: "arriving (rx_of n k) = x # arriving es1" by simp_all
      from ar "1.prems"(2) ne obtain l where l: "line = x # l" "arriving es1 = l @ later" by (cases line) auto
      then have xn: "x \<noteq> NL" using "1.prems"(3) by auto
      let ?c = "c\<lparr>c_header_buf := c_header_buf c @ [x]\<rparr>"
      have cc: "?c\<lparr>c_header_buf := c_header_buf ?c @ z\<rparr> = c\<lparr>c_header_buf := c_header_buf c @ x # z\<rparr>" for z by simp
      have fd: "map_of (fds k1) (c_fd ?c) = Some (OSock n)" using "1.prems"(1) k1 by simp
      have nl: "NL \<notin> set l" and room': "length (c_header_buf ?c) + length l = MAX_HEADER_LEN - 1"
        using "1.prems"(3,4) l(1) by simp_all
      have eq: "recv_header_loop c k = recv_header_loop ?c k1" using xn by (simp add: unf 5)
      from "1.IH"(2) [OF room rd [symmetric] 5 refl refl xn fd _ nl room', unfolded rx1 st cc, OF l(2)]
      obtain es a b where o: "l = a @ b" "arriving es = b @ later" "closes es = closes es1"
        "rx_weight es \<le> rx_weight es1" "recv_header_loop ?c k1 = (HeaderWait, c\<lparr>c_header_buf := c_header_buf c @ x # a\<rparr>, set_rx n es k)"
        by blast
      then show ?thesis using l(1) d cl unfolding eq
        by (intro exI [of _ es] exI [of _ "x # a"] exI [of _ b]) simp
    qed
  qed
qed

definition overlong :: "nat \<Rightarrow> byte list \<Rightarrow> nat \<Rightarrow> client \<Rightarrow> server \<Rightarrow> bool" where
  "overlong n later work c s \<longleftrightarrow>
     c_state c = STATE_RECV_HEADER \<and> own_fair n c s \<and> sent_of n (kern s) = []
     \<and> rx_weight (rx_of n (kern s)) + length (tx_of n (kern s)) \<le> work
     \<and> (\<exists>rest. arriving (rx_of n (kern s)) = rest @ later \<and> NL \<notin> set rest \<and> rest \<noteq> []
          \<and> length (c_header_buf c) + length rest = MAX_HEADER_LEN - 1)"

lemma overlong_read:
  assumes a: "overlong n later work c s" and sf: "same_files s0 s" and r: "handle_read_event c s = (r, s')"
  shows "(\<exists>c'. r = Some c' \<and> overlong n later work c' s' \<and> same_files s0 s'
            \<and> rx_weight (rx_of n (kern s')) < rx_weight (rx_of n (kern s)))
       \<or> answer n (error_lines (Some err_bad_request)) 0 [] (work + 100) (same_files s0) (r, s')"
proof -
  obtain rest where rest: "arriving (rx_of n (kern s)) = rest @ later" "NL \<notin> set rest" "rest \<noteq> []"
    "length (c_header_buf c) + length rest = MAX_HEADER_LEN - 1" using a by (auto simp: overlong_def)
  have d: "c_state c = STATE_RECV_HEADER" "map_of (fds (kern s)) (c_fd c) = Some (OSock n)" "own_fair n c s"
    "sent_of n (kern s) = []" "rx_weight (rx_of n (kern s)) + length (tx_of n (kern s)) \<le> work"
    using a by (simp_all add: overlong_def own_fair_def)
  from header_loop_fill [OF d(2) rest(1,2,4)] obtain es x y where
    o: "rest = x @ y" "arriving es = y @ later" "rx_weight es \<le> rx_weight (rx_of n (kern s))"
      "y \<noteq> [] \<longrightarrow> rx_weight es < rx_weight (rx_of n (kern s))"
    and run: "recv_header_loop c (kern s) = (HeaderWait, c\<lparr>c_header_buf := c_header_buf c @ x\<rparr>, set_rx n es (kern s))"
    by blast
  let ?c = "c\<lparr>c_header_buf := c_header_buf c @ x\<rparr>" and ?s = "s\<lparr>kern := set_rx n es (kern s)\<rparr>"
  have sf': "same_files s0 ?s" by (rule same_files_trans [OF sf same_files_kernel(2)])
  have own: "own_fair n ?c ?s" using d(3) by (simp add: own_fair_def)
  show ?thesis
  proof (cases "y = []")
    case True
    then have full: "length (c_header_buf ?c) \<ge> MAX_HEADER_LEN - 1" using rest(4) o(1) by simp
    have "(r, s') = prepare_and_send_response ?c ?s ''ERROR'' (Some err_bad_request)"
      using r full by (simp add: handle_read_event_def d(1) run)
    moreover have "answer n (error_lines (Some err_bad_request)) 0 [] (work + 100) (same_files s0)
        (prepare_and_send_response ?c ?s ''ERROR'' (Some err_bad_request))"
    proof (rule delivers_answer)
      show "delivers n (error_lines (Some err_bad_request)) 0 [] (length (tx_of n (kern ?s)) + length (error_lines (Some err_bad_request)))
          ?s (prepare_and_send_response ?c ?s ''ERROR'' (Some err_bad_request))"
        using prepare_error [OF own err_lengths(1), of 0 "[]"] d(4) by simp
      show "length (tx_of n (kern ?s)) + length (error_lines (Some err_bad_request)) \<le> work + 100"
        using d(5) by (simp add: error_lines_def err_bad_request_def)
    qed (rule same_files_trans [OF sf'])
    ultimately show ?thesis by simp
  next
    case False
    then have w: "rx_weight es < rx_weight (rx_of n (kern s))" using o(4) by blast
    have "\<not> length (c_header_buf ?c) \<ge> MAX_HEADER_LEN - 1" using rest(4) o(1) False by (cases y) simp_all
    then have rs: "r = Some ?c" "s' = ?s" using r by (simp_all add: handle_read_event_def d(1) run del: not_le)
    have "overlong n later work ?c ?s"
      using d own w o(1,2) rest(2,4) False by (simp add: overlong_def)
    then show ?thesis using rs sf' w by simp
  qed
qed

interpretation overlong: exchange n 0 "[]" "work + 100" "\<lambda>c s. overlong n later work c s \<and> same_files s0 s"
    "\<lambda>v :: unit. error_lines (Some err_bad_request)" "\<lambda>v. same_files s0"
  for n later work s0
proof
  show "(\<exists>c'. r = Some c' \<and> (overlong n later work c' s' \<and> same_files s0 s')
          \<and> rx_weight (rx_of n (kern s')) < rx_weight (rx_of n (kern s)))
      \<or> (\<exists>v :: unit. answer n (error_lines (Some err_bad_request)) 0 [] (work + 100) (same_files s0) (r, s'))"
    if "overlong n later work c s \<and> same_files s0 s" and "handle_read_event c s = (r, s')" for c s r s'
    using overlong_read [OF conjunct1 [OF that(1)] conjunct2 [OF that(1)] that(2)] by blast
qed (auto simp: overlong_def own_fair_def same_files_def)



end
