(* ===== verification/Fss_Server_Shared.thy ===== *)
theory Fss_Server_Shared
  imports Fss_Server_Service
begin

section \<open>Conversations side by side\<close>

text \<open>
  The events of one connection mixed with everything else that the event loop handles: new
  connections, and events of other connections. These leave the connection as it was; of the
  stored files they are only asked to keep what its conversation depends on.
\<close>

subsection \<open>Events of others\<close>

definition aside :: "nat \<Rightarrow> client \<Rightarrow> server \<Rightarrow> server \<Rightarrow> bool" where
  "aside n c s s' \<longleftrightarrow> conns (kern s') n = conns (kern s) n
     \<and> map_of (fds (kern s')) (c_fd c) = map_of (fds (kern s)) (c_fd c)
     \<and> (c_file_fd c \<noteq> - 1 \<longrightarrow> map_of (fds (kern s')) (c_file_fd c) = map_of (fds (kern s)) (c_file_fd c))"

lemma aside_refl [simp]: "aside n c s s"
  by (simp add: aside_def)

lemma accept_one_frame:
  assumes ok: "server_ok s" and acc: "sys_accept (kern s) = (Inr fd, k)"
  shows "conns (kern (accept_one fd (s\<lparr>kern := k\<rparr>))) = conns (kern s)"
    and "map_of (fds (kern s)) g \<noteq> None \<Longrightarrow>
      map_of (fds (kern (accept_one fd (s\<lparr>kern := k\<rparr>)))) g = map_of (fds (kern s)) g"
    and "map_of (fds (kern s)) g \<noteq> None \<Longrightarrow>
      dict_lookup (fd_to_client (accept_one fd (s\<lparr>kern := k\<rparr>))) g = dict_lookup (fd_to_client s) g"
    and "listen_fd (accept_one fd (s\<lparr>kern := k\<rparr>)) = listen_fd s"
proof -
  from acc obtain n rest where fd: "fd = fresh_fd (fds (kern s))"
    and k: "k = (kern s)\<lparr>fds := (fd, OSock n) # fds (kern s), backlog := rest\<rparr>"
    by (auto simp: sys_accept_def split: list.splits acc_ev.splits)
  have new: "map_of (fds (kern s)) fd = None" using fresh_fd_unmapped fd by simp
  obtain r k2 where add: "event_loop_add (event_loop_fd s) fd FSS_EVENT_READ k = (r, k2)" by fastforce
  have e: "k2 = snd (event_loop_add (event_loop_fd s) fd FSS_EVENT_READ k)" using add by simp
  have f2: "fds k2 = fds k" "conns k2 = conns k"
    by (simp_all add: e event_loop_add_def epoll_ctl_def Let_def)
  obtain al2 d where ds: "dictionary_set (heap_ok k2) (fd_to_client s) (Some fd) (next_addr s) = (al2, d)" by fastforce
  have d: "d = snd (dict_upd (heap_ok k2) (fd_to_client s) fd (next_addr s))" using ds by (simp add: dict_upd_def)
  have s': "accept_one fd (s\<lparr>kern := k\<rparr>) = s\<lparr>heap := (heap s)(next_addr s \<mapsto> client_create fd),
      next_addr := next_addr s + 1, fd_to_client := d, kern := k2\<lparr>heap_ok := al2\<rparr>\<rparr>"
    using add ds by (simp add: accept_one_def add_fd_to_event_loop_def Let_def)
  have dok: "dict_ok (fd_to_client s)" using ok by (simp add: server_ok_def link_ok_def mapped_def)
  show "conns (kern (accept_one fd (s\<lparr>kern := k\<rparr>))) = conns (kern s)" unfolding s' by (simp add: f2) (simp add: k)
  show "listen_fd (accept_one fd (s\<lparr>kern := k\<rparr>)) = listen_fd s" unfolding s' by simp
  have ne: "g \<noteq> fd" if "map_of (fds (kern s)) g \<noteq> None" using that new by auto
  show "map_of (fds (kern (accept_one fd (s\<lparr>kern := k\<rparr>)))) g = map_of (fds (kern s)) g"
    and "dict_lookup (fd_to_client (accept_one fd (s\<lparr>kern := k\<rparr>))) g = dict_lookup (fd_to_client s) g"
    if "map_of (fds (kern s)) g \<noteq> None"
    unfolding s' using ne [OF that] dict.upd_other [OF dok ne [OF that]] by (simp_all add: f2 d) (simp add: k)
qed

lemma accept_frame:
  assumes "server_ok s"
  shows "conns (kern (accept_connections s)) = conns (kern s) \<and> listen_fd (accept_connections s) = listen_fd s
    \<and> (\<forall>g. map_of (fds (kern s)) g \<noteq> None \<longrightarrow>
         map_of (fds (kern (accept_connections s))) g = map_of (fds (kern s)) g
         \<and> dict_lookup (fd_to_client (accept_connections s)) g = dict_lookup (fd_to_client s) g)"
  using assms
proof (induction s rule: accept_connections.induct)
  case (1 s)
  note unf = accept_connections.simps [of s]
  obtain r k where acc: "sys_accept (kern s) = (r, k)" by fastforce
  show ?case
  proof (cases r)
    case (Inl e)
    have f: "fds k = fds (kern s)" "interest k = interest (kern s)" using sys_accept_quiet(2,3) acc Inl by blast+
    have cn: "conns k = conns (kern s)"
      using acc Inl by (auto simp: sys_accept_def split: list.splits acc_ev.splits)
    have ok: "server_ok (s\<lparr>kern := k\<rparr>)" by (rule server_ok_backlog [OF 1(3) f])
    show ?thesis
    proof (cases "e = EINTR")
      case True
      from 1(1) [OF acc [symmetric] Inl True ok] show ?thesis by (simp add: unf acc Inl True f cn)
    next
      case False
      then show ?thesis by (cases e) (simp_all add: unf acc Inl f cn)
    qed
  next
    case (Inr fd)
    note one = accept_one_ok(1) [OF 1(3) acc [unfolded Inr]] and fr = accept_one_frame [OF 1(3) acc [unfolded Inr]]
    from 1(2) [OF acc [symmetric] Inr one] fr show ?thesis by (simp add: unf acc Inr)
  qed
qed

text \<open>An event of another descriptor, or a new connection, leaves the connection as it was.\<close>

lemma other_event:
  assumes at: "conn_at p fd c s" and n: "map_of (fds (kern s)) fd = Some (OSock n)" and g: "g \<noteq> fd"
    and nb: "\<not> (has_bit m FSS_EVENT_READ \<and> has_bit m FSS_EVENT_WRITE)"
    and gn: "map_of (fds (kern s)) g \<noteq> Some (OSock n)" and e: "handle_event (g, m) s = Some s'"
  shows "conn_at p fd c s'" and "aside n c s s'"
proof -
  have a: "server_ok s" "fd \<noteq> listen_fd s" "dict_lookup (fd_to_client s) fd = Some p" "heap s p = Some c" "c_fd c = fd"
    using at by (simp_all add: conn_at_def)
  have ok': "server_ok s'" using handle_event_ok [OF a(1) nb, of g] e by simp
  have "holds (heap s) p = Some (c_fd c, c_file_fd c)" and "owns (kern s) (holds (heap s))"
    using a(1,4) by (simp_all add: holds_def server_ok_def link_ok_def)
  then have own: "map_of (fds (kern s)) (c_file_fd c) \<noteq> None" if "c_file_fd c \<noteq> - 1"
    using ownsD(2) that unfolding file_open_def by blast
  consider (acc) "g = listen_fd s" | (none) "g \<noteq> listen_fd s" "dict_lookup (fd_to_client s) g = None"
    | (conn) q where "g \<noteq> listen_fd s" "dict_lookup (fd_to_client s) g = Some q" by blast
  then have "conn_at p fd c s' \<and> aside n c s s'"
  proof cases
    case acc
    then have s': "s' = accept_connections s" using e by (simp add: handle_event_def)
    note f = accept_frame [OF a(1)] and h = accept_ok [OF a(1)]
    have "conn_at p fd c s'" using f h a n by (auto simp: conn_at_def s')
    moreover have "aside n c s s'" using f own n a(5) by (auto simp: aside_def s')
    ultimately show ?thesis by blast
  next
    case none
    with e at show ?thesis by (simp add: handle_event_def dict_lookup_def)
  next
    case conn
    from handle_event_cases [OF a(1) nb conn e] obtain d h where
      d: "heap s q = Some d" "c_fd d = g" "s' = put_back q h" "kept q g s h" by metis
    then have pq: "p \<noteq> q" using a(4,5) g by auto
    note fr = event_frame [OF a(1) nb conn e pq a(4)]
    obtain r s1 where r: "h = (r, s1)" by fastforce
    have l: "listen_fd s' = listen_fd s" using d(3,4) r
      by (cases r) (auto simp: put_back_def held_def gone_def frame_def)
    show ?thesis using fr(1-5) fr(6) [OF gn] a ok' l by (simp add: conn_at_def aside_def)
  qed
  then show "conn_at p fd c s'" and "aside n c s s'" by blast+
qed

subsection \<open>Runs\<close>

text \<open>
  A run in which reads and writes of the descriptor \<open>fd\<close> are mixed with other events, none of
  them of a second descriptor of the connection \<open>n\<close>, and each of which is a step that \<open>K\<close> allows.
\<close>

fun among :: "int \<Rightarrow> nat \<Rightarrow> (server \<Rightarrow> server \<Rightarrow> bool) \<Rightarrow> (int \<times> c_int) list \<Rightarrow> server \<Rightarrow> bool" where
  "among fd n K [] s \<longleftrightarrow> True"
| "among fd n K ((g, m) # es) s \<longleftrightarrow>
     (if g = fd then m = FSS_EVENT_READ \<or> m = FSS_EVENT_WRITE
      else \<not> (has_bit m FSS_EVENT_READ \<and> has_bit m FSS_EVENT_WRITE) \<and> map_of (fds (kern s)) g \<noteq> Some (OSock n))
     \<and> (case handle_event (g, m) s of None \<Rightarrow> False | Some s' \<Rightarrow> (g = fd \<or> K s s') \<and> among fd n K es s')"

definition own_times :: "int \<Rightarrow> c_int \<Rightarrow> (int \<times> c_int) list \<Rightarrow> nat" where
  "own_times fd m es = length (filter (\<lambda>e. e = (fd, m)) es)"

lemma own_times_simps [simp]:
  "own_times fd m [] = 0"
  "own_times fd m (e # es) = (if e = (fd, m) then Suc (own_times fd m es) else own_times fd m es)"
  "own_times fd m (es @ es') = own_times fd m es + own_times fd m es'"
  by (simp_all add: own_times_def)

lemma own_times_Cons: "own_times fd m (e # es) = own_times fd m [e] + own_times fd m es"
  by simp

lemma among_append:
  "among fd n K (es @ es') s \<longleftrightarrow> among fd n K es s \<and> (case handle_events es s of None \<Rightarrow> True | Some s' \<Rightarrow> among fd n K es' s')"
  by (induction fd n K es s rule: among.induct) (auto split: option.splits)


subsection \<open>The contract of a conversation among others\<close>

locale shared = conversation +
  fixes n :: nat and K :: "server \<Rightarrow> server \<Rightarrow> bool"
  assumes inv_sock: "inv c s \<Longrightarrow> map_of (fds (kern s)) (c_fd c) = Some (OSock n)"
    and inv_aside: "conn_at p fd c s \<Longrightarrow> inv c s \<Longrightarrow> aside n c s s' \<Longrightarrow> conn_at p fd c s' \<Longrightarrow> K s s' \<Longrightarrow>
      inv c s' \<and> cost c s' = cost c s"
begin

definition ended :: "nat \<Rightarrow> int \<Rightarrow> (int \<times> c_int) list \<Rightarrow> server \<Rightarrow> bool" where
  "ended p fd es s \<longleftrightarrow> (\<exists>es1 es2 s'. es = es1 @ es2 \<and> handle_events es1 s = Some s' \<and> conn_over p fd s' \<and> fin s')"

lemma ended_here: "conn_over p fd s \<Longrightarrow> fin s \<Longrightarrow> ended p fd es s"
  unfolding ended_def by (rule exI [of _ "[]"]) simp

lemma ended_later:
  assumes "handle_events es s = Some s'" and "ended p fd es' s'"
  shows "ended p fd (es @ es') s"
proof -
  from assms(2) obtain es1 es2 s'' where "es' = es1 @ es2" "handle_events es1 s' = Some s''" "conn_over p fd s''" "fin s''"
    unfolding ended_def by blast
  with assms(1) show ?thesis
    unfolding ended_def by (intro exI [of _ "es @ es1"] exI [of _ es2] exI [of _ s'']) (simp add: handle_events_append)
qed

lemma ended_sooner: "ended p fd es s \<Longrightarrow> ended p fd (es @ es') s"
  unfolding ended_def by (metis append.assoc)

lemma own_event:
  assumes at: "conn_at p fd c s" and i: "inv c s" and m: "m = FSS_EVENT_READ \<or> m = FSS_EVENT_WRITE"
  shows "\<exists>s'. handle_event (fd, m) s = Some s'
    \<and> went p fd c s (own_times fd FSS_EVENT_READ [(fd, m)]) (own_times fd FSS_EVENT_WRITE [(fd, m)]) s'"
proof -
  have ot: "own_times fd x [(fd, m)] = times x [(fd, m)]" for x by (simp add: own_times_def)
  obtain r s1 where t: "turn m c s = (r, s1)" by fastforce
  note ev = turn_event [OF at m t]
  have "went p fd c s (times FSS_EVENT_READ [(fd, m)]) (times FSS_EVENT_WRITE [(fd, m)]) (put_back p (r, s1))"
  proof (cases r)
    case None
    have "fin (put_back p (r, s1))" using after_close [OF i m] t None by (simp add: put_back_iff)
    with ev(2) [OF None] show ?thesis by (simp add: went_def)
  next
    case (Some c')
    note st = after_turn [OF i m t [unfolded Some]]
    have "inv c' (put_back p (r, s1))" and "cost c' (put_back p (r, s1)) = cost c' s1"
      using st(1) by (simp_all add: put_back_iff)
    with ev(3) [OF Some] st(2) st(3,4) [of fd] have "still p fd c s (times FSS_EVENT_READ [(fd, m)])
        (times FSS_EVENT_WRITE [(fd, m)]) (put_back p (r, s1))"
      unfolding still_def by (intro exI [of _ c']) simp
    then show ?thesis by (simp add: went_def)
  qed
  with ev(1) show ?thesis unfolding ot by blast
qed

lemma shared_event:
  assumes at: "conn_at p fd c s" and i: "inv c s" and am: "among fd n K [(g, m)] s"
  shows "\<exists>s'. handle_event (g, m) s = Some s'
    \<and> went p fd c s (own_times fd FSS_EVENT_READ [(g, m)]) (own_times fd FSS_EVENT_WRITE [(g, m)]) s'"
proof (cases "g = fd")
  case True
  with am have "m = FSS_EVENT_READ \<or> m = FSS_EVENT_WRITE" by simp
  from own_event [OF at i this] show ?thesis unfolding True .
next
  case False
  from am False obtain s' where e: "handle_event (g, m) s = Some s'" and K: "K s s'"
    and nb: "\<not> (has_bit m FSS_EVENT_READ \<and> has_bit m FSS_EVENT_WRITE)"
    and gn: "map_of (fds (kern s)) g \<noteq> Some (OSock n)" by (auto split: option.splits)
  have "map_of (fds (kern s)) fd = Some (OSock n)" using inv_sock [OF i] at by (simp add: conn_at_def)
  note o = other_event [OF at this False nb gn e]
  have z: "own_times fd x [(g, m)] = 0" for x using False by (simp add: own_times_def)
  have "inv c s'" and "cost c s' = cost c s" using inv_aside [OF at i o(2,1) K] by blast+
  with o(1) have "still p fd c s 0 0 s'" unfolding still_def by (intro exI [of _ c]) simp
  then have "went p fd c s 0 0 s'" by (simp add: went_def)
  with e show ?thesis unfolding z by blast
qed

lemma shared_events:
  assumes "conn_at p fd c s" and "inv c s" and "among fd n K es s"
  shows "ended p fd es s \<or> (\<exists>s'. handle_events es s = Some s'
    \<and> still p fd c s (own_times fd FSS_EVENT_READ es) (own_times fd FSS_EVENT_WRITE es) s')"
  using assms
proof (induction es arbitrary: c s)
  case Nil
  then have "still p fd c s 0 0 s" unfolding still_def by (intro exI [of _ c]) simp
  then show ?case by simp
next
  case (Cons e es)
  obtain g m where e: "e = (g, m)" by fastforce
  have "among fd n K [(g, m)] s" using Cons.prems(3) by (auto simp: e split: option.splits)
  from shared_event [OF Cons.prems(1,2) this] obtain s1 where s1: "handle_event (g, m) s = Some s1"
    and w: "went p fd c s (own_times fd FSS_EVENT_READ [e]) (own_times fd FSS_EVENT_WRITE [e]) s1"
    unfolding e by (elim exE conjE)
  have one: "handle_events [e] s = Some s1" using s1 by (simp add: e)
  have am: "among fd n K es s1" using Cons.prems(3) s1 by (auto simp: e)
  show ?case
  proof (cases "conn_over p fd s1 \<and> fin s1")
    case True
    then have "ended p fd es s1" using ended_here by blast
    from ended_later [OF one this] show ?thesis by simp
  next
    case False
    with w have "still p fd c s (own_times fd FSS_EVENT_READ [e]) (own_times fd FSS_EVENT_WRITE [e]) s1"
      by (simp add: went_def)
    then obtain c' where c': "conn_at p fd c' s1" "inv c' s1" "receiving c' \<longrightarrow> receiving c"
      "receiving c' \<longrightarrow> cost c' s1 + own_times fd FSS_EVENT_READ [e] \<le> cost c s"
      "\<not> receiving c \<longrightarrow> cost c' s1 + own_times fd FSS_EVENT_WRITE [e] \<le> cost c s"
      unfolding still_def by (elim exE conjE) (rule that)
    from Cons.IH [OF c'(1,2) am] show ?thesis
    proof (elim disjE exE conjE)
      assume "ended p fd es s1"
      from ended_later [OF one this] show ?thesis by simp
    next
      fix s' assume h: "handle_events es s1 = Some s'"
        and st: "still p fd c' s1 (own_times fd FSS_EVENT_READ es) (own_times fd FSS_EVENT_WRITE es) s'"
      have "handle_events (e # es) s = Some s'" using s1 h by (simp add: e)
      then show ?thesis
        unfolding own_times_Cons [of fd _ e es] using still_step [OF st c'(3-5)] by (intro disjI2 exI conjI)
    qed
  qed
qed

theorem shared_ends:
  assumes "conn_at p fd c s" and "inv c s" and "among fd n K (es @ es') s"
    and "bound \<le> own_times fd FSS_EVENT_READ es" and "bound \<le> own_times fd FSS_EVENT_WRITE es'"
  shows "ended p fd (es @ es') s"
proof -
  have am: "among fd n K es s" using assms(3) by (simp add: among_append)
  from shared_events [OF assms(1,2) am] show ?thesis
  proof (elim disjE exE conjE)
    assume "ended p fd es s"
    then show ?thesis by (rule ended_sooner)
  next
    fix s1 assume s1: "handle_events es s = Some s1"
      and st: "still p fd c s (own_times fd FSS_EVENT_READ es) (own_times fd FSS_EVENT_WRITE es) s1"
    from still_reads [OF st assms(2,4)] obtain c1 where c1: "conn_at p fd c1 s1" "inv c1 s1" "\<not> receiving c1" by blast
    have am1: "among fd n K es' s1" using assms(3) s1 by (simp add: among_append)
    from shared_events [OF c1(1,2) am1] still_writes [OF _ c1(2,3) assms(5)] have "ended p fd es' s1" by blast
    then show ?thesis by (rule ended_later [OF s1])
  qed
qed

end

subsection \<open>The contract of an exchange among others\<close>

text \<open>\<open>sinv\<close> is what is known of the connection object while it sends.\<close>

locale shared_exchange = exchange n i contents bound rinv out eff
  for n :: nat and i :: nat and contents :: "byte list" and bound :: nat
    and rinv :: "client \<Rightarrow> server \<Rightarrow> bool" and out :: "'r \<Rightarrow> byte list" and eff :: "'r \<Rightarrow> server \<Rightarrow> bool" +
  fixes K :: "server \<Rightarrow> server \<Rightarrow> bool" and sinv :: "client \<Rightarrow> bool"
  assumes rinv_sock: "rinv c s \<Longrightarrow> map_of (fds (kern s)) (c_fd c) = Some (OSock n)"
    and rinv_aside: "conn_at p fd c s \<Longrightarrow> rinv c s \<Longrightarrow> aside n c s s' \<Longrightarrow> conn_at p fd c s' \<Longrightarrow> K s s' \<Longrightarrow> rinv c s'"
    and sinv_read: "rinv c s \<Longrightarrow> handle_read_event c s = (Some c', s') \<Longrightarrow> \<not> receiving c' \<Longrightarrow> sinv c'"
    and sinv_write: "sending n (out v) i contents c s \<Longrightarrow> sinv c \<Longrightarrow> handle_write_event c s = (Some c', s') \<Longrightarrow> sinv c'"
    and send_aside: "conn_at p fd c s \<Longrightarrow> sending n (out v) i contents c s \<Longrightarrow> sinv c \<Longrightarrow> aside n c s s' \<Longrightarrow> K s s' \<Longrightarrow>
      sending n (out v) i contents c s' \<and> to_go n contents c s' = to_go n contents c s"
    and eff_K: "eff v s \<Longrightarrow> K s s' \<Longrightarrow> eff v s'"
begin

definition talk_on :: "client \<Rightarrow> server \<Rightarrow> bool" where
  "talk_on c s \<longleftrightarrow> talk c s \<and> (receiving c \<or> sinv c)"

lemma talk_on_heap: "talk_on c (s\<lparr>heap := h\<rparr>) = talk_on c s"
  by (simp add: talk_on_def inv_heap)

lemma talk_on_goes:
  assumes "talk_on c s"
    and tr: "turn (if receiving c then FSS_EVENT_READ else FSS_EVENT_WRITE) c s = (Some c', s')"
  shows "talk_on c' s' \<and> (if receiving c then receiving c' \<longrightarrow> cost_of n contents c' s' < cost_of n contents c s
          else \<not> receiving c' \<and> cost_of n contents c' s' < cost_of n contents c s)"
proof -
  from assms(1) have t: "talk c s" and si: "receiving c \<or> sinv c" by (simp_all add: talk_on_def)
  note g = goes [OF t tr]
  from t have "receiving c' \<or> sinv c'"
  proof (cases rule: talk_cases)
    case 1
    with tr sinv_read show ?thesis by (auto simp: turn_def)
  next
    case (2 v)
    with tr si sinv_write [OF 2(1)] sending_write(2) [OF 2(1)] show ?thesis by (auto simp: turn_def)
  qed
  with g show ?thesis by (simp add: talk_on_def)
qed

lemma talk_on_aside:
  assumes at: "conn_at p fd c s" and t: "talk_on c s" and a: "aside n c s s'"
    and at': "conn_at p fd c s'" and K: "K s s'"
  shows "talk_on c s' \<and> cost_of n contents c s' = cost_of n contents c s"
proof -
  from t have "talk c s" and si: "receiving c \<or> sinv c" by (simp_all add: talk_on_def)
  then show ?thesis
  proof (cases rule: talk_cases)
    case 1
    with rinv_aside [OF at 1(1) a at' K] a show ?thesis by (simp add: talk_on_def talk_def cost_of_def aside_def)
  next
    case (2 v)
    then have "sinv c" using si by blast
    from send_aside [OF at 2(1) this a K] eff_K [OF 2(3) K] 2 \<open>sinv c\<close> show ?thesis
      by (auto simp: talk_on_def talk_def cost_of_def)
  qed
qed

lemma talk_on_sock: "talk_on c s \<Longrightarrow> map_of (fds (kern s)) (c_fd c) = Some (OSock n)"
  using rinv_sock by (auto simp: talk_on_def talk_def sending_def)

sublocale on: shared talk_on "cost_of n contents" told bound n K
proof
  show "talk_on c (s\<lparr>heap := h\<rparr>) = talk_on c s" for c s h by (rule talk_on_heap)
  show "cost_of n contents c s < bound" if "talk_on c s" for c s using that bounded by (simp add: talk_on_def)
  show "handle_read_event c s = (Some c, s)" if "talk_on c s" and "\<not> receiving c" for c s
    using that idle by (simp add: talk_on_def)
  show "told s'" if "talk_on c s"
    and "turn (if receiving c then FSS_EVENT_READ else FSS_EVENT_WRITE) c s = (None, s')" for c s s'
    using that over [of c s s'] by (simp add: talk_on_def)
qed (use talk_on_goes talk_on_aside talk_on_sock cost_heap fin_heap in blast)+

theorem exchanged_among:
  assumes "conn_at p fd c s" and "rinv c s" and "among fd n K (es @ es') s"
    and "bound \<le> own_times fd FSS_EVENT_READ es" and "bound \<le> own_times fd FSS_EVENT_WRITE es'"
  shows "\<exists>es1 es2 s' v. es @ es' = es1 @ es2 \<and> handle_events es1 s = Some s' \<and> conn_over p fd s'
    \<and> sent_of n (kern s') = out v \<and> eff v s'"
proof -
  have "talk_on c s" using assms(2) rinv_receiving by (simp add: talk_on_def talk_def)
  from on.shared_ends [OF assms(1) this assms(3-5)] show ?thesis
    unfolding on.ended_def told_def by blast
qed

end

subsection \<open>What a connection keeps\<close>

lemma arrow_verb: "arrows a b \<Longrightarrow> snd a \<noteq> STATE_RECV_HEADER \<Longrightarrow> fst b = fst a \<and> snd b \<noteq> STATE_RECV_HEADER"
proof (induction rule: rtranclp_induct)
  case (step y z)
  from step(2) step.IH [OF step.prems] show ?case by (cases rule: arrow.cases) auto
qed simp

lemma error_stays: "arrows (v, STATE_SEND_ERROR) b \<Longrightarrow> b = (v, STATE_SEND_ERROR)"
  by (induction rule: rtranclp_induct) (auto simp: arrow_simps)

lemma moves_verb:
  assumes "moves (v, st) (Some c, s)" and "st \<noteq> STATE_RECV_HEADER"
  shows "c_verb c = v"
  using arrow_verb [of "(v, st)" "at c"] assms by simp

lemma get_size_state:
  assumes "c_state c = STATE_SEND_GET_SIZE" and "send_get_size c s = (Some c', s')"
  shows "c_state c' \<noteq> STATE_SEND_OK"
proof -
  define c0 where "c0 = (if c_resp_len c = 0
     then c\<lparr>c_resp_buf := encode_size (c_file_size c), c_resp_len := sizeof_size_t, c_resp_sent := 0\<rparr> else c)"
  have c0: "c_state c0 = STATE_SEND_GET_SIZE" "c_fd c0 = c_fd c" using assms(1) by (simp_all add: c0_def)
  obtain r k where w: "sys_write (c_fd c) (response_rest c0) (kern s) = (r, k)" by fastforce
  have cl: "close_and_cleanup d t \<noteq> (Some c', s')" for d t by (simp add: close_and_cleanup_def Let_def)
  note eq = assms(2) [unfolded send_get_size_def c0_def [symmetric] Let_def c0(2) w]
  show ?thesis
  proof (cases r)
    case (Inl e)
    with eq c0(1) cl show ?thesis by (cases e) auto
  next
    case (Inr x)
    with eq c0(1) show ?thesis by (auto split: if_splits)
  qed
qed

lemma get_data_state:
  assumes "c_state c = STATE_SEND_GET_DATA" and "c_bytes_transferred c \<le> c_file_size c"
    and "send_get_data c s = (Some c', s')"
  shows "c_state c' \<noteq> STATE_SEND_OK"
proof -
  obtain e c1 k where l: "send_get_data_loop c (kern s) = (e, c1, k)" by (metis prod_cases3)
  from get_data_loop_keeps [OF l assms(2)] obtain b where c1: "c1 = c\<lparr>c_bytes_transferred := b\<rparr>" by blast
  have cl: "close_and_cleanup d t \<noteq> (Some c', s')" for d t by (simp add: close_and_cleanup_def Let_def)
  show ?thesis using assms(1,3) cl by (cases e) (auto simp: send_get_data_def l c1 split: if_splits)
qed

lemma write_keeps:
  assumes "sending n out i contents c s" and "handle_write_event c s = (Some c', s')"
  shows "c_state c' = STATE_SEND_OK \<longrightarrow> c_state c = STATE_SEND_OK \<and> c_verb c' = c_verb c"
    and "c_state c = STATE_SEND_ERROR \<longrightarrow> c_state c' = STATE_SEND_ERROR"
proof -
  have r: "moves (at c) (Some c', s')" if "c_state c = STATE_SEND_OK \<or> c_state c = STATE_SEND_ERROR"
    using response_moves(1) [OF that, of s] assms(2) that by (auto simp: handle_write_event_def)
  have e: "at c' = (c_verb c, STATE_SEND_ERROR)" if "c_state c = STATE_SEND_ERROR"
    using error_stays [of "c_verb c" "at c'"] r that by simp
  then show "c_state c = STATE_SEND_ERROR \<longrightarrow> c_state c' = STATE_SEND_ERROR" by simp
  have st: "c_state c \<in> {STATE_SEND_OK, STATE_SEND_ERROR, STATE_SEND_GET_SIZE, STATE_SEND_GET_DATA, STATE_SEND_LIST_DATA}"
    using assms(1) by (cases "c_state c") (auto simp: sending_def send_ready_def)
  show "c_state c' = STATE_SEND_OK \<longrightarrow> c_state c = STATE_SEND_OK \<and> c_verb c' = c_verb c"
  proof
    assume c': "c_state c' = STATE_SEND_OK"
    have "c_state c = STATE_SEND_OK"
    proof (rule ccontr)
      assume "c_state c \<noteq> STATE_SEND_OK"
      with st e c' consider "c_state c = STATE_SEND_LIST_DATA" | "c_state c = STATE_SEND_GET_SIZE" | "c_state c = STATE_SEND_GET_DATA"
        by auto
      then show False
      proof cases
        case 1
        with list_data_moves [OF 1, of s] assms(2) have "arrows (at c) (at c')" by (simp add: handle_write_event_def)
        from arrows_forward [OF this] 1 c' show False by (simp add: less_eq_conn_state_def)
      next
        case 2
        with get_size_state [OF 2] assms(2) c' show False by (simp add: handle_write_event_def)
      next
        case 3
        with assms(1) have "c_bytes_transferred c \<le> c_file_size c" by (simp add: sending_def send_ready_def)
        with get_data_state [OF 3] assms(2) c' 3 show False by (simp add: handle_write_event_def)
      qed
    qed
    with moves_verb [of "c_verb c" STATE_SEND_OK c' s'] r show "c_state c = STATE_SEND_OK \<and> c_verb c' = c_verb c" by simp
  qed
qed

subsection \<open>Downloads among others\<close>

lemma answer_mono:
  assumes "answer n out i contents b eff h" and "\<And>s. eff s \<Longrightarrow> eff' s"
  shows "answer n out i contents b eff' h"
  using assms by (auto simp: answer_def)

lemma asking_aside:
  assumes "asking n line later work c s" and "aside n c s s'"
  shows "asking n line later work c s'"
  using assms by (simp add: asking_def own_fair_def aside_def)

lemma asking_sock: "asking n line later work c s \<Longrightarrow> map_of (fds (kern s)) (c_fd c) = Some (OSock n)"
  by (simp add: asking_def own_fair_def)

text \<open>The file of the name is in place, and no file operation fails.\<close>

definition in_place :: "string \<Rightarrow> nat \<Rightarrow> byte list \<Rightarrow> server \<Rightarrow> bool" where
  "in_place f i contents s \<longleftrightarrow> ino_at (kern s) (filepath s (take 255 f)) = Some i
     \<and> inodes (kern s) i = Regular contents \<and> disk (kern s) = []"

lemma in_place_same: "in_place f i contents s \<Longrightarrow> same_files s s' \<Longrightarrow> in_place f i contents s'"
  by (simp add: in_place_def same_files_def filepath_def ino_at_def cong: option.case_cong)

definition get_asked :: "byte list \<Rightarrow> string \<Rightarrow> nat \<Rightarrow> byte list \<Rightarrow> byte list \<Rightarrow> server \<Rightarrow> bool" where
  "get_asked line f i contents out s \<longleftrightarrow> in_place f i contents s \<and> line_ok line \<and> request_of line = AskGet f
     \<and> length contents < 2 ^ 64 \<and> out = OK_LINE @ encode_size (of_nat (length contents)) @ contents"

interpretation get_kept: request n line later out i contents work "get_asked line f i contents out" "in_place f i contents"
  for n line later out i contents work f
proof
  show "answer n out i contents (work + length out + 1) (in_place f i contents) (parse_header_and_transition c s)"
    if "get_asked line f i contents out s" and "asked n line later work c s" for c s
  proof (rule answer_mono)
    have "get_start s line i contents out s"
      using that(1) by (auto simp: get_start_def get_asked_def in_place_def)
    then show "answer n out i contents (work + length out + 1) (same_files s) (parse_header_and_transition c s)"
      using that(2) by (rule get.answered)
    show "in_place f i contents s'" if "same_files s s'" for s'
      using in_place_same [OF _ that] \<open>get_asked line f i contents out s\<close> by (simp add: get_asked_def)
  qed
qed (auto simp: get_asked_def same_store_def in_place_same)

text \<open>The object that sends \<open>OK\<close> for a download knows that it is one.\<close>

definition gets :: "client \<Rightarrow> bool" where
  "gets c \<longleftrightarrow> (c_state c = STATE_SEND_OK \<longrightarrow> c_verb c = GET)"

lemma start_get_verb:
  assumes "c_verb c = GET" and "start_send_get c s = (Some c', s')"
  shows "c_verb c' = GET"
proof -
  obtain fd k where o: "sys_open_rdonly (filepath s (c_filename c)) (kern s) = (fd, k)" by fastforce
  obtain r k2 where st: "sys_fstat fd k = (r, k2)" by fastforce
  have m: "c_verb d' = GET" if "prepare_and_send_response d t st msg = (Some d', t')" and "c_verb d = GET" for d t st msg d' t'
    using moves_verb [of GET "if st = ''OK'' then STATE_SEND_OK else STATE_SEND_ERROR" d' t']
      response_moves(3) [of d st t msg] that by (simp split: if_splits)
  show ?thesis
    using assms m by (cases r) (auto simp: start_send_get_def o st close_file_def Let_def split: if_splits)
qed

lemma sending_get_aside:
  assumes "sending n out i contents c s" and "client_ok c" and "gets c" and a: "aside n c s s'"
    and K: "inodes (kern s') i = Regular contents" "disk (kern s') = []"
  shows "sending n out i contents c s' \<and> to_go n contents c s' = to_go n contents c s"
proof -
  have cn: "conns (kern s') n = conns (kern s) n" "map_of (fds (kern s')) (c_fd c) = map_of (fds (kern s)) (c_fd c)"
    using a by (simp_all add: aside_def)
  have ts: "to_send contents c s' = to_send contents c s"
    using assms(3) by (auto simp: to_send_def gets_def split: conn_state.splits)
  have "serving i contents c s'" if "serving i contents c s" and "c_file_fd c \<noteq> - 1"
    using that a K by (simp add: serving_def aside_def)
  then have "send_ready i contents c s'"
    using assms(1-3) by (auto simp: sending_def send_ready_def client_ok_def state_ok_def gets_def split: conn_state.splits)
  then show ?thesis using assms(1) cn ts by (simp add: sending_def to_go_def)
qed

interpretation get_among: shared_exchange n i contents "work + length out + 1"
    "\<lambda>c s. asking n line later work c s \<and> get_asked line f i contents out s"
    "\<lambda>v :: unit. out" "\<lambda>v. in_place f i contents" "\<lambda>s. in_place f i contents" gets
  for n line later out i contents work f
proof
  fix c s s' assume r: "asking n line later work c s \<and> get_asked line f i contents out s"
  show "map_of (fds (kern s)) (c_fd c) = Some (OSock n)" using r asking_sock by blast
  show "asking n line later work c s' \<and> get_asked line f i contents out s'"
    if "aside n c s s'" and "in_place f i contents s'"
    using r that asking_aside by (auto simp: get_asked_def)
next
  fix c s c' s' assume r: "asking n line later work c s \<and> get_asked line f i contents out s"
    and h: "handle_read_event c s = (Some c', s')" and nr: "\<not> receiving c'"
  have l: "line_ok line" "request_of line = AskGet f" using r by (simp_all add: get_asked_def)
  from asking_read [OF conjunct1 [OF r] l(1) h] nr obtain c1 s1 where
    p: "asked n line later work c1 s1" "(Some c', s') = parse_header_and_transition c1 s1"
    by (auto simp: asking_def)
  have "(Some c', s') = start_send_get (parsed line c1\<lparr>c_filename := take 255 f\<rparr>) s1"
    using p(2) parse_grammar [OF asked_facts(1) [OF p(1)] l(1)] by (simp add: l(2))
  with start_get_verb [of "parsed line c1\<lparr>c_filename := take 255 f\<rparr>" s1 c' s'] get_verb [OF l(2)]
  show "gets c'" by (simp add: gets_def parsed_def)
next
  show "gets c'" if "sending n out i contents c s" and "gets c" and "handle_write_event c s = (Some c', s')" for c s c' s'
    using write_keeps(1) [OF that(1,3)] that(2) by (simp add: gets_def)
next
  show "sending n out i contents c s' \<and> to_go n contents c s' = to_go n contents c s"
    if "conn_at p fd c s" and "sending n out i contents c s" and "gets c" and "aside n c s s'" and "in_place f i contents s'"
    for p fd c s s'
  proof (rule sending_get_aside [OF that(2) _ that(3,4)])
    show "client_ok c" using that(1) unfolding conn_at_def server_ok_def by blast
  qed (use that(5) in \<open>simp_all add: in_place_def\<close>)
qed


lemma among_own:
  assumes "server_ok s" and "events_on fd es"
  shows "among fd n K es s"
  using assms
proof (induction es arbitrary: s)
  case (Cons e es)
  obtain m where e: "e = (fd, m)" and m: "m = FSS_EVENT_READ \<or> m = FSS_EVENT_WRITE" and on: "events_on fd es"
    using Cons.prems(2) by (cases e) auto
  from handle_event_ok [OF Cons.prems(1) one_direction [OF m]] obtain s' where
    "handle_event (fd, m) s = Some s'" "server_ok s'" by blast
  with Cons.IH [OF this(2) on] m show ?case by (simp add: e)
qed simp

lemma demo_other_read:
  "case handle_event (3, FSS_EVENT_READ) (demo_server [(''dir/a'', 5)] ''xyz'' [Data CHR ''G'' (''ET a'' @ [NL])] []) of
     None \<Rightarrow> False | Some s' \<Rightarrow> in_place ''a'' 5 ''xyz'' s' \<and> sent_of 1 (kern s') = OK_LINE"
  by code_simp


subsection \<open>Refusals among others\<close>

interpretation bad_kept: request n line later "error_lines (Some err_bad_request)" 0 "[]" work
    "\<lambda>s. line_ok line \<and> request_of line = AskBad" "\<lambda>s. True"
  for n line later work
proof
  show "answer n (error_lines (Some err_bad_request)) 0 [] (work + length (error_lines (Some err_bad_request)) + 1)
      (\<lambda>s. True) (parse_header_and_transition c s)"
    if "line_ok line \<and> request_of line = AskBad" and "asked n line later work c s" for c s
  proof (rule answer_mono)
    have "bad_start s line s" using that(1) by (simp add: bad_start_def)
    then show "answer n (error_lines (Some err_bad_request)) 0 [] (work + length (error_lines (Some err_bad_request)) + 1)
      (same_files s) (parse_header_and_transition c s)" using that(2) by (rule bad.answered)
  qed simp
qed auto

definition refuses :: "client \<Rightarrow> bool" where
  "refuses c \<longleftrightarrow> c_state c = STATE_SEND_ERROR"

lemma sending_error_aside:
  assumes "sending n out i contents c s" and "refuses c" and "aside n c s s'"
  shows "sending n out i contents c s' \<and> to_go n contents c s' = to_go n contents c s"
  using assms by (simp add: sending_def refuses_def send_ready_def to_send_def to_go_def aside_def)

interpretation bad_among: shared_exchange n 0 "[]" "work + length (error_lines (Some err_bad_request)) + 1"
    "\<lambda>c s. asking n line later work c s \<and> line_ok line \<and> request_of line = AskBad"
    "\<lambda>v :: unit. error_lines (Some err_bad_request)" "\<lambda>v s. True" "\<lambda>s s'. True" refuses
  for n line later work
proof
  fix c s c' s' assume r: "asking n line later work c s \<and> line_ok line \<and> request_of line = AskBad"
    and h: "handle_read_event c s = (Some c', s')" and nr: "\<not> receiving c'"
  have l: "line_ok line" "request_of line = AskBad" using r by blast+
  from asking_read [OF conjunct1 [OF r] l(1) h] nr obtain c1 s1 where
    p: "asked n line later work c1 s1" "(Some c', s') = parse_header_and_transition c1 s1"
    by (auto simp: asking_def)
  have "moves (c_verb (parsed line c1), STATE_SEND_ERROR) (Some c', s')"
    using error_moves [OF refl, of "parsed line c1" s1 "Some err_bad_request"] p(2)
    unfolding parse_grammar [OF asked_facts(1) [OF p(1)] l(1)] by (simp add: l(2))
  with error_stays [of "c_verb (parsed line c1)" "at c'"] show "refuses c'" by (simp add: refuses_def)
next
  show "refuses c'" if "sending n out 0 [] c s" and "refuses c" and "handle_write_event c s = (Some c', s')"
    for c s c' s' out
    using write_keeps(2) [OF that(1,3)] that(2) by (simp add: refuses_def)
qed (use asking_sock asking_aside sending_error_aside in blast)+



end
