(* ===== verification/Fss_Server_Shared_Upload.thy ===== *)
theory Fss_Server_Shared_Upload
  imports Fss_Server_Shared
begin

section \<open>Uploads among others\<close>

text \<open>
  An upload whose events are mixed with those of other connections. While the body comes in,
  the others may upload, delete and download what they like, but not touch the file and the
  name of this upload.
\<close>

subsection \<open>What others may do\<close>

definition leaves_alone :: "string \<Rightarrow> server \<Rightarrow> server \<Rightarrow> bool" where
  "leaves_alone name s s' \<longleftrightarrow>
     resolve (kern s') (filepath s' name) = resolve (kern s) (filepath s name)
     \<and> ino_at (kern s') (filepath s' name) = ino_at (kern s) (filepath s name)
     \<and> (case ino_at (kern s) (filepath s name) of None \<Rightarrow> True | Some i \<Rightarrow> inodes (kern s') i = inodes (kern s) i)
     \<and> (name \<in> set (files_of s) \<longrightarrow> name \<in> set (files_of s'))
     \<and> disk (kern s') = disk (kern s) \<and> (False \<in> set (heap_ok (kern s')) \<longrightarrow> False \<in> set (heap_ok (kern s)))"

lemma leaves_entry:
  assumes "leaves_alone name s s'" and "resolve (kern s) (filepath s name) = Some entry"
  shows "resolve (kern s') (filepath s' name) = Some entry" and "disk (kern s') = disk (kern s)"
    and "map_of (dents (kern s')) entry = map_of (dents (kern s)) entry"
    and "map_of (dents (kern s)) entry = Some i \<Longrightarrow> inodes (kern s') i = inodes (kern s) i"
    and "name \<in> set (files_of s) \<Longrightarrow> name \<in> set (files_of s')"
    and "False \<notin> set (heap_ok (kern s)) \<Longrightarrow> False \<notin> set (heap_ok (kern s'))"
  using assms by (auto simp: leaves_alone_def ino_at_def split: option.splits)

subsection \<open>The invariant, relative to the current state\<close>

text \<open>
  The invariant of the upload compares the stored files with those of a state before it. That
  state may as well be the current one: so the invariant speaks of the present only, and
  does not mind what others have changed elsewhere.
\<close>

lemma storing_entry:
  assumes "storing s0 entry body c s"
  shows "map_of (dents (kern s)) entry = Some (put_ino s0 entry)"
  using assms by (auto simp: storing_def written_def with_entry_def put_ino_def split: option.splits)

lemma with_entry_self: "map_of (dents (kern s)) entry = Some i \<Longrightarrow> with_entry s entry = dents (kern s) \<and> put_ino s entry = i"
  by (simp add: with_entry_def put_ino_def)

lemma rebase:
  assumes "put_recv n line w body work name entry s0 c s"
  shows "put_recv n line w body work name entry s c s"
proof -
  have ps: "put_start s0 line name entry" using assms by (simp add: put_recv_def)
  have st: "put_start s line name entry" if "same_store s0 s"
    using that ps by (auto simp: put_start_def put_base_def same_store_def same_files_def files_ok_def filepath_def)
  consider (ask) "asking n line (encode_size w @ body) work c s" "same_store s0 s"
      "closes (rx_of n (kern s)) \<or> unat w \<le> length body"
    | (siz) "sizing n w body work name c s" "same_store s0 s"
    | (fil) "filling n w body work name (put_ino s0 entry) c s" "storing s0 entry body c s"
    using assms unfolding put_recv_def by blast
  then show ?thesis
  proof cases
    case fil
    note en = storing_entry [OF fil(2)] and we = with_entry_self [OF storing_entry [OF fil(2)]]
    have wr: "written s0 entry (take (unat (c_bytes_transferred c)) body) s" "server_files s = server_files s0"
      "heap_ok (kern s) = heap_ok (kern s0)" using fil(2) by (simp_all add: storing_def)
    have i: "inodes (kern s) (put_ino s0 entry) = Regular (take (unat (c_bytes_transferred c)) body)"
      using fil(1) by (simp add: filling_def)
    have "storing s entry body c s" using wr(1) we i by (simp add: storing_def written_def fun_upd_idem)
    moreover have "put_start s line name entry"
      using ps wr en i by (auto simp: put_start_def put_base_def written_def files_ok_def filepath_def)
    ultimately show ?thesis using fil(1) we by (simp add: put_recv_def)
  qed (use st in \<open>simp_all add: put_recv_def\<close>)
qed

definition put_now :: "nat \<Rightarrow> byte list \<Rightarrow> size_t \<Rightarrow> byte list \<Rightarrow> nat \<Rightarrow> string \<Rightarrow> string \<Rightarrow> client \<Rightarrow> server \<Rightarrow> bool" where
  "put_now n line w body work name entry c s \<longleftrightarrow> put_recv n line w body work name entry s c s"

definition put_stored :: "size_t \<Rightarrow> byte list \<Rightarrow> string \<Rightarrow> string \<Rightarrow> bool \<Rightarrow> server \<Rightarrow> bool" where
  "put_stored w body name entry ok s \<longleftrightarrow> disk (kern s) = [] \<and> resolve (kern s) (filepath s name) = Some entry
     \<and> (\<exists>i. map_of (dents (kern s)) entry = Some i \<and> inodes (kern s) i = Regular (take (unat w) body))
     \<and> (if ok then name \<in> set (files_of s) \<and> unat w \<le> length body else unat w \<noteq> length body)"

lemma put_eff_stored:
  assumes "put_eff s0 w body name entry ok s" and "resolve (kern s0) (filepath s0 name) = Some entry"
  shows "put_stored w body name entry ok s"
proof -
  have "written s0 entry (take (unat w) body) s" using assms(1) by (simp add: put_eff_def)
  then show ?thesis
    using assms by (auto simp: put_stored_def put_eff_def written_def listed_def filepath_def with_entry_def put_ino_def
        split: option.splits if_splits)
qed

lemma put_stored_same: "put_stored w body name entry ok s \<Longrightarrow> same_files s s' \<Longrightarrow> put_stored w body name entry ok s'"
  by (simp add: put_stored_def same_files_def filepath_def)

lemma put_stored_alone: "put_stored w body name entry ok s \<Longrightarrow> leaves_alone name s s' \<Longrightarrow> put_stored w body name entry ok s'"
  using leaves_entry [of name s s' entry] by (auto simp: put_stored_def)

lemma put_now_heap:
  "put_now n line w body work name entry c (s\<lparr>heap := h\<rparr>) = put_now n line w body work name entry c s"
proof -
  have on: "put_now n line w body work name entry c (t\<lparr>heap := g\<rparr>)" if "put_now n line w body work name entry c t" for t g
    using that rebase [of n line w body work name entry t c "t\<lparr>heap := g\<rparr>"] by (simp add: put_now_def put_heap)
  show ?thesis using on [of s h] on [of "s\<lparr>heap := h\<rparr>" "heap s"] by auto
qed

lemma put_now_read:
  assumes "put_now n line w body work name entry c s" and "handle_read_event c s = (r, s')"
  shows "(\<exists>c'. r = Some c' \<and> put_now n line w body work name entry c' s'
            \<and> rx_weight (rx_of n (kern s')) < rx_weight (rx_of n (kern s)))
       \<or> (\<exists>ok. answer n (put_reply ok) 0 [] (work + MAX_HEADER_LEN) (put_stored w body name entry ok) (r, s'))"
proof -
  note p = assms(1) [unfolded put_now_def]
  have en: "resolve (kern s) (filepath s name) = Some entry" using p by (simp add: put_recv_def put_start_def)
  from put_read [OF p assms(2)] show ?thesis
  proof (elim disjE exE conjE)
    fix c' assume "r = Some c'" "put_recv n line w body work name entry s c' s'"
      "rx_weight (rx_of n (kern s')) < rx_weight (rx_of n (kern s))"
    with rebase show ?thesis unfolding put_now_def by blast
  next
    assume "put_answer n w body work name entry s (r, s')"
    then obtain ok where "answer n (put_reply ok) 0 [] (work + MAX_HEADER_LEN) (put_eff s w body name entry ok) (r, s')"
      unfolding put_answer_def by blast
    then have "answer n (put_reply ok) 0 [] (work + MAX_HEADER_LEN) (put_stored w body name entry ok) (r, s')"
      by (rule answer_mono) (rule put_eff_stored [OF _ en])
    then show ?thesis by blast
  qed
qed

interpretation put_kept: exchange n 0 "[]" "work + MAX_HEADER_LEN" "put_now n line w body work name entry" put_reply
    "put_stored w body name entry"
  for n line w body work name entry
proof
  show "put_now n line w body work name entry c (s\<lparr>heap := h\<rparr>) = put_now n line w body work name entry c s" for c s h
    by (rule put_now_heap)
  show "receiving c" and "rx_weight (rx_of n (kern s)) < work + MAX_HEADER_LEN"
    if "put_now n line w body work name entry c s" for c s
    using put.rinv_receiving put.rinv_bound that unfolding put_now_def by blast+
  show "put_stored w body name entry ok s'" if "put_stored w body name entry ok s" and "same_files s s'" for ok s s'
    using that by (rule put_stored_same)
  show "(\<exists>c'. r = Some c' \<and> put_now n line w body work name entry c' s'
          \<and> rx_weight (rx_of n (kern s')) < rx_weight (rx_of n (kern s)))
      \<or> (\<exists>ok. answer n (put_reply ok) 0 [] (work + MAX_HEADER_LEN) (put_stored w body name entry ok) (r, s'))"
    if "put_now n line w body work name entry c s" and "handle_read_event c s = (r, s')" for c s r s'
    by (rule put_now_read [OF that])
qed

subsection \<open>Steps of others\<close>

lemma put_start_alone:
  assumes "put_start s line name entry" and "leaves_alone name s s'" and "files_ok s'"
  shows "put_start s' line name entry"
proof -
  have d: "resolve (kern s) (filepath s name) = Some entry" using assms(1) by (simp add: put_start_def)
  note l = leaves_entry [OF assms(2) d]
  show ?thesis using assms(1,3) l by (auto simp: put_start_def put_base_def)
qed

lemma put_now_aside:
  assumes at: "conn_at p fd c s" and at': "conn_at p fd c s'" and r: "put_now n line w body work name entry c s"
    and a: "aside n c s s'" and K: "leaves_alone name s s'"
  shows "put_now n line w body work name entry c s'"
proof -
  have ok: "client_ok c" "files_ok s'" using at at' unfolding conn_at_def server_ok_def link_ok_def by blast+
  note p = r [unfolded put_now_def put_recv_def]
  have ps: "put_start s' line name entry" using put_start_alone [OF conjunct1 [OF p] K ok(2)] .
  note l = leaves_entry [OF K, of entry]
  from p consider (ask) "asking n line (encode_size w @ body) work c s" "closes (rx_of n (kern s)) \<or> unat w \<le> length body"
    | (siz) "sizing n w body work name c s"
    | (fil) "filling n w body work name (put_ino s entry) c s" "storing s entry body c s" by blast
  then show ?thesis
  proof cases
    case ask
    with asking_aside [OF ask(1) a] ps a show ?thesis by (simp add: put_now_def put_recv_def aside_def)
  next
    case siz
    with a have "sizing n w body work name c s'" by (simp add: sizing_def own_fair_def aside_def)
    with ps show ?thesis by (simp add: put_now_def put_recv_def)
  next
    case fil
    note f = fil(1) and st = fil(2)
    have en: "map_of (dents (kern s)) entry = Some (put_ino s entry)" by (rule storing_entry [OF st])
    have rs: "resolve (kern s) (filepath s name) = Some entry" using p by (simp add: put_start_def)
    have en': "map_of (dents (kern s')) entry = Some (put_ino s entry)" using l(3) [OF rs] en by simp
    note we = with_entry_self [OF en']
    have ino: "inodes (kern s') (put_ino s entry) = inodes (kern s) (put_ino s entry)" using l(4) [OF rs en] .
    have "c_file_fd c \<noteq> - 1" using f ok(1) by (simp add: filling_def client_ok_def state_ok_def)
    then have f': "filling n w body work name (put_ino s' entry) c s'"
      using f a ino we by (simp add: filling_def own_fair_def aside_def)
    then have "inodes (kern s') (put_ino s entry) = Regular (take (unat (c_bytes_transferred c)) body)"
      using we by (simp add: filling_def)
    moreover have "disk (kern s') = []" using ps by (simp add: put_start_def)
    ultimately have "storing s' entry body c s'" using we by (simp add: storing_def written_def fun_upd_idem)
    with ps f' show ?thesis by (simp add: put_now_def put_recv_def)
  qed
qed

text \<open>The object that answers an upload sends \<open>OK\<close> or \<open>ERROR\<close>, and nothing after it.\<close>

definition puts :: "client \<Rightarrow> bool" where
  "puts c \<longleftrightarrow> c_state c = STATE_SEND_ERROR \<or> c_verb c = PUT \<and> c_state c = STATE_SEND_OK"

lemma put_ok_stays: "arrows (PUT, STATE_SEND_OK) b \<Longrightarrow> b = (PUT, STATE_SEND_OK)"
  by (induction rule: rtranclp_induct) (auto simp: arrow_simps)

lemma prepare_puts:
  assumes "prepare_and_send_response d t st msg = (Some d', t')" and "c_verb d = PUT"
  shows "puts d'"
  using response_moves(3) [of d st t msg] assms put_ok_stays [of "at d'"] error_stays [of PUT "at d'"]
  by (auto simp: puts_def split: if_splits)

lemma put_data_puts:
  assumes "recv_put_data c s = (Some c', s')" and "c_bytes_transferred c \<le> c_expected_size c" and "c_verb c = PUT"
  shows "puts c' \<or> c_state c' = c_state c"
proof -
  obtain e c1 k where l: "recv_put_data_loop c (kern s) = (e, c1, k)" by (metis prod_cases3)
  from put_data_loop_keeps [OF l assms(2)] obtain b where c1: "c1 = c\<lparr>c_bytes_transferred := b\<rparr>" by blast
  obtain xr k3 where rd: "sys_read (c_fd c) (Suc 0) (sys_close (c_file_fd c) k) = (xr, k3)" by fastforce
  show ?thesis
    using assms(1,3)
    by (cases e; cases xr rule: read_cases)
       (auto simp: recv_put_data_def l c1 close_file_def rd Let_def dest!: prepare_puts split: if_splits)
qed

lemma put_size_puts:
  assumes "recv_put_size c s = (Some c', s')" and "c_bytes_transferred c \<le> size_len" and "c_verb c = PUT"
  shows "puts c' \<or> c_state c' = c_state c \<or> c_state c' = STATE_RECV_PUT_DATA"
proof -
  obtain e c1 k where l: "recv_put_size_loop c (kern s) = (e, c1, k)" by (metis prod_cases3)
  from put_size_loop_keeps [OF l assms(2)] obtain x b where
    c1: "c1 = c\<lparr>c_expected_size := x, c_bytes_transferred := b\<rparr>" by blast
  obtain fd k2 where o: "sys_open_create (filepath s (c_filename c)) k = (fd, k2)" by fastforce
  show ?thesis
    using assms(1,3)
    by (cases e) (auto simp: recv_put_size_def l c1 o Let_def dest!: prepare_puts put_data_puts split: if_splits)
qed

lemma put_read_puts:
  assumes "put_now n line w body work name entry c s" and "handle_read_event c s = (Some c', s')" and "\<not> receiving c'"
  shows "puts c'"
proof -
  from assms(1) have lo: "line_ok line" and "\<exists>f. request_of line = AskPut f"
    by (auto simp: put_now_def put_recv_def put_start_def)
  then obtain f where f: "request_of line = AskPut f" by blast
  from assms(1) consider (ask) "asking n line (encode_size w @ body) work c s" | (siz) "sizing n w body work name c s"
    | (fil) "filling n w body work name (put_ino s entry) c s"
    unfolding put_now_def put_recv_def by blast
  then show ?thesis
  proof cases
    case ask
    from asking_read [OF ask lo assms(2)] assms(3) obtain c1 s1 where
      p: "asked n line (encode_size w @ body) work c1 s1" "(Some c', s') = parse_header_and_transition c1 s1"
      by (auto simp: asking_def)
    have "c_state c' = STATE_RECV_PUT_SIZE"
      using p(2) parse_grammar [OF asked_facts(1) [OF p(1)] lo] by (simp add: f)
    with assms(3) show ?thesis by simp
  next
    case siz
    then have "recv_put_size c s = (Some c', s')" using assms(2) by (simp add: sizing_def handle_read_event_def)
    from put_size_puts [OF this] siz assms(3) show ?thesis by (auto simp: sizing_def)
  next
    case fil
    then have "recv_put_data c s = (Some c', s')" using assms(2) by (simp add: filling_def handle_read_event_def)
    from put_data_puts [OF this] fil assms(3) show ?thesis by (auto simp: filling_def)
  qed
qed

lemma put_write_puts:
  assumes "puts c" and "handle_write_event c s = (Some c', s')"
  shows "puts c'"
proof -
  have "moves (at c) (handle_write_event c s)"
    using response_moves(1) [of c s] assms(1) by (auto simp: puts_def handle_write_event_def)
  with assms put_ok_stays [of "at c'"] error_stays [of "c_verb c" "at c'"] show ?thesis by (auto simp: puts_def)
qed

lemma sending_put_aside:
  assumes "sending n out 0 [] c s" and "puts c" and "aside n c s s'"
  shows "sending n out 0 [] c s' \<and> to_go n [] c s' = to_go n [] c s"
  using assms by (auto simp: sending_def puts_def send_ready_def to_send_def to_go_def aside_def)

interpretation put_among: shared_exchange n 0 "[]" "work + MAX_HEADER_LEN" "put_now n line w body work name entry" put_reply
    "put_stored w body name entry" "leaves_alone name" puts
  for n line w body work name entry
proof
  show "map_of (fds (kern s)) (c_fd c) = Some (OSock n)" if "put_now n line w body work name entry c s" for c s
    using that asking_sock by (auto simp: put_now_def put_recv_def sizing_def filling_def own_fair_def)
  show "puts c'" if "put_now n line w body work name entry c s" and "handle_read_event c s = (Some c', s')"
    and "\<not> receiving c'" for c s c' s'
    by (rule put_read_puts [OF that])
  show "puts c'" if "puts c" and "handle_write_event c s = (Some c', s')" for c s c' s'
    by (rule put_write_puts [OF that])
  show "put_now n line w body work name entry c s'"
    if "conn_at p fd c s" and "put_now n line w body work name entry c s" and "aside n c s s'" and "conn_at p fd c s'"
      and "leaves_alone name s s'" for p fd c s s'
    by (rule put_now_aside [OF that(1,4,2,3,5)])
  show "sending n (put_reply v) 0 [] c s' \<and> to_go n [] c s' = to_go n [] c s"
    if "sending n (put_reply v) 0 [] c s" and "puts c" and "aside n c s s'" for c s s' v
    by (rule sending_put_aside [OF that])
  show "put_stored w body name entry v s'" if "put_stored w body name entry v s" and "leaves_alone name s s'" for v s s'
    by (rule put_stored_alone [OF that])
qed

subsection \<open>The upload\<close>


text \<open>For the witness: another connection uploads another file before this one begins.\<close>

definition demo_uploads :: server where
  "demo_uploads = demo_pair [Data CHR ''P'' (''UT a'' @ NL # CHR 0x02 # replicate 7 NUL @ ''xy'')]
     [Data CHR ''P'' (''UT b'' @ NL # CHR 0x01 # replicate 7 NUL @ ''z'')]"

lemma demo_other_upload:
  "case handle_event (3, FSS_EVENT_READ) demo_uploads of None \<Rightarrow> False
   | Some s1 \<Rightarrow> leaves_alone ''a'' demo_uploads s1 \<and> map_of (fds (kern s1)) 3 = Some (OSock 1)
       \<and> (case handle_event (3, FSS_EVENT_READ) s1 of None \<Rightarrow> False
          | Some s2 \<Rightarrow> leaves_alone ''a'' s1 s2 \<and> file_at (kern s2) ''dir/b'' = Some ''z'')"
  by code_simp


end
