(* ===== verification/Fss_Server_Main.thy ===== *)
theory Fss_Server_Main
  imports Fss_Server_Machine Fss_Demo
begin

section \<open>A whole run of the server\<close>

text \<open>
  \<open>main\<close> from the set-up to the exit code. What the waits of the event loop return is only
  restricted by what \<open>epoll_wait\<close> can return for the registrations of that moment.
\<close>

fun possible :: "(bool \<times> (errno + (int \<times> c_int) list)) list \<Rightarrow> server \<Rightarrow> bool" where
  "possible [] s \<longleftrightarrow> True"
| "possible ((sigint, outcome) # rest) s \<longleftrightarrow> running s \<longrightarrow>
     (let s = (if sigint then signal_handler 2 s else s) in
      case outcome of
        Inl e \<Rightarrow> e = EINTR \<longrightarrow> possible rest s
      | Inr raws \<Rightarrow> (\<forall>raw \<in> set raws. epoll_reports (kern s) raw)
          \<and> (case handle_events (map from_epoll_event raws) s of None \<Rightarrow> True | Some s' \<Rightarrow> possible rest s'))"

subsection \<open>Only the signal handler stops the loop\<close>

lemma accept_running: "running (accept_connections s) = running s"
proof (induction s rule: accept_connections.induct)
  case (1 s)
  note unf = accept_connections.simps [of s]
  have one: "running (accept_one fd t) = running t" for fd t
    by (simp add: accept_one_def add_fd_to_event_loop_def Let_def split: prod.splits)
  obtain r k where acc: "sys_accept (kern s) = (r, k)" by fastforce
  show ?case
  proof (cases r)
    case (Inl e)
    with 1(1) [OF acc [symmetric] Inl] show ?thesis by (cases e) (simp_all add: unf acc)
  next
    case (Inr fd)
    from 1(2) [OF acc [symmetric] Inr] show ?thesis by (simp add: unf acc Inr one)
  qed
qed

lemma event_running:
  assumes ok: "server_ok s" and nb: "\<not> (has_bit m FSS_EVENT_READ \<and> has_bit m FSS_EVENT_WRITE)"
    and e: "handle_event (fd, m) s = Some s'"
  shows "running s' = running s"
proof -
  consider (acc) "fd = listen_fd s" | (none) "fd \<noteq> listen_fd s" "dict_lookup (fd_to_client s) fd = None"
    | (conn) q where "fd \<noteq> listen_fd s" "dict_lookup (fd_to_client s) fd = Some q" by blast
  then show ?thesis
  proof cases
    case acc
    with e have "s' = accept_connections s" by (simp add: handle_event_def)
    then show ?thesis by (simp add: accept_running)
  next
    case none
    with e show ?thesis by (simp add: handle_event_def dict_lookup_def)
  next
    case conn
    from handle_event_cases [OF ok nb conn e] obtain h where h: "s' = put_back q h" "kept q fd s h" by metis
    obtain r s1 where r: "h = (r, s1)" by fastforce
    show ?thesis using h r by (cases r) (auto simp: put_back_def held_def gone_def frame_def)
  qed
qed

lemma events_running:
  assumes "server_ok s" and "\<forall>(fd, m) \<in> set es. \<not> (has_bit m FSS_EVENT_READ \<and> has_bit m FSS_EVENT_WRITE)"
    and "handle_events es s = Some s'"
  shows "running s' = running s"
  using assms
proof (induction es arbitrary: s)
  case (Cons e es)
  obtain fd m where e: "e = (fd, m)" by fastforce
  have nb: "\<not> (has_bit m FSS_EVENT_READ \<and> has_bit m FSS_EVENT_WRITE)" using Cons.prems(2) e by auto
  from handle_event_ok [OF Cons.prems(1) nb, of fd] obtain s1 where
    s1: "handle_event (fd, m) s = Some s1" "server_ok s1" by blast
  with Cons.prems(3) e have "handle_events es s1 = Some s'" by simp
  with Cons.IH [OF s1(2)] Cons.prems(2) event_running [OF Cons.prems(1) nb s1(1)] show ?case by simp
qed simp

subsection \<open>The loop\<close>

lemma stopped: "\<not> running s \<Longrightarrow> event_loop ws s = Some s"
  by (cases ws) auto

text \<open>One turn: where it leaves the server, and whether the loop goes on.\<close>

lemma loop_turn:
  assumes ok: "server_ok s" and r: "running s" and p: "possible ((sigint, outcome) # rest) s"
  shows "\<exists>s'. server_ok s' \<and> (running s' \<longleftrightarrow> \<not> sigint)
    \<and> (possible rest s' \<and> (\<forall>rest. event_loop ((sigint, outcome) # rest) s = event_loop rest s')
       \<or> (\<forall>rest. event_loop ((sigint, outcome) # rest) s = Some s'))"
proof -
  define s1 where "s1 = (if sigint then signal_handler 2 s else s)"
  have ok1: "server_ok s1" using ok by (simp add: s1_def signal_ok)
  have r1: "running s1 \<longleftrightarrow> \<not> sigint" using r by (simp add: s1_def signal_handler_def)
  show ?thesis
  proof (cases outcome)
    case (Inl e)
    show ?thesis
    proof (cases "e = EINTR")
      case True
      then have "possible rest s1 \<and> (\<forall>rest. event_loop ((sigint, outcome) # rest) s = event_loop rest s1)"
        using p r Inl by (simp add: event_loop_wait_def s1_def Let_def)
      with ok1 r1 show ?thesis by blast
    next
      case False
      then have "\<forall>rest. event_loop ((sigint, outcome) # rest) s = Some s1"
        using r Inl by (cases e) (simp_all add: event_loop_wait_def s1_def Let_def)
      with ok1 r1 show ?thesis by blast
    qed
  next
    case (Inr raws)
    let ?es = "map from_epoll_event raws"
    have w: "event_loop_wait (Inr raws) = Inr ?es" by (simp add: event_loop_wait_def)
    have rep: "\<forall>raw \<in> set raws. epoll_reports (kern s) raw"
      using p r Inr by (simp add: Let_def signal_handler_def split: if_splits)
    then have rep1: "\<forall>raw \<in> set raws. epoll_reports (kern s1) raw" by (simp add: s1_def signal_handler_def)
    note ow = batch_one_way [OF ok1 rep1 w]
    from handle_events_ok [OF ok1 ow] obtain s2 where s2: "handle_events ?es s1 = Some s2" "server_ok s2" by blast
    have ps: "possible rest s2" and el: "event_loop ((sigint, outcome) # rest') s = event_loop rest' s2" for rest'
      using p r Inr s2(1) w by (simp_all add: s1_def [symmetric] Let_def)
    have "running s2 \<longleftrightarrow> \<not> sigint" using events_running [OF ok1 ow s2(1)] r1 by simp
    with s2(2) ps el show ?thesis by blast
  qed
qed

lemma loop_runs:
  assumes "server_ok s" and "possible ws s"
  shows "\<exists>s'. event_loop ws s = Some s' \<and> server_ok s'"
  using assms
proof (induction ws arbitrary: s)
  case (Cons w ws)
  obtain sigint outcome where w: "w = (sigint, outcome)" by fastforce
  show ?case
  proof (cases "running s")
    case False
    with Cons.prems(1) show ?thesis by (simp add: w)
  next
    case True
    from loop_turn [OF Cons.prems(1) True Cons.prems(2) [unfolded w]] Cons.IH show ?thesis unfolding w by metis
  qed
qed simp

lemma loop_stops:
  assumes "server_ok s" and "possible (ws @ (True, outcome) # rest) s"
  shows "event_loop (ws @ (True, outcome) # rest) s = event_loop (ws @ [(True, outcome)]) s"
  using assms
proof (induction ws arbitrary: s)
  case Nil
  show ?case
  proof (cases "running s")
    case True
    from loop_turn [OF Nil(1) True Nil(2) [unfolded append_Nil]] stopped show ?thesis by (metis append_Nil)
  qed simp
next
  case (Cons w ws)
  obtain sigint out where w: "w = (sigint, out)" by fastforce
  show ?case
  proof (cases "running s")
    case True
    from loop_turn [OF Cons.prems(1) True Cons.prems(2) [unfolded w append_Cons]] Cons.IH show ?thesis
      unfolding w append_Cons by metis
  qed (simp add: w)
qed


lemma setup_waits: "server_setup (m\<lparr>waits := w\<rparr>) s = server_setup m s"
proof -
  have "mkdtemp_result (m\<lparr>waits := w\<rparr>) = mkdtemp_result m" "bind_result (m\<lparr>waits := w\<rparr>) = bind_result m"
    "epoll_create_ok (m\<lparr>waits := w\<rparr>) = epoll_create_ok m" "final_listing (m\<lparr>waits := w\<rparr>) = final_listing m" by simp_all
  then show ?thesis unfolding server_setup_def by (simp only:)
qed

text \<open>For the witness: a connection request, then a signal.\<close>

definition demo_waits :: main_script where
  "demo_waits = demo_script\<lparr>waits := [(False, Inr [(0, EPOLLIN)]), (True, Inl EINTR), (False, Inr [(2, EPOLLIN)])]\<rparr>"


end
