(* ===== verification/Fss_Kqueue.thy ===== *)
theory Fss_Kqueue
  imports Fss_Event_Loop
begin

section \<open>The kqueue implementation, \<open>src/event_loop_kqueue.c\<close>\<close>

text \<open>
  The kernel state here is the set of the (descriptor, filter) pairs that are registered
  with the kqueue, as a list. \<open>kevent\<close> with one change fails with \<open>ENOENT\<close> when the
  filter to be deleted is not registered, and otherwise only when the kqueue descriptor is
  invalid.
\<close>

subsection \<open>The code\<close>

datatype kfilter = EVFILT_READ | EVFILT_WRITE

datatype kq_errno = ENOENT | EBADF

definition EV_ADD :: c_int where
  "EV_ADD = 1"
definition EV_DELETE :: c_int where
  "EV_DELETE = 2"
definition EV_ENABLE :: c_int where
  "EV_ENABLE = 4"
definition EV_ERROR :: c_int where
  "EV_ERROR = 16384"

lemmas kq_flag_defs = EV_ADD_def EV_DELETE_def EV_ENABLE_def EV_ERROR_def

record kq =
  kq_open :: bool
  filters :: "(int \<times> kfilter) list"

text \<open>\<open>kevent\<close> with one change and no room for events.\<close>

definition kevent_change :: "int \<Rightarrow> kfilter \<Rightarrow> c_int \<Rightarrow> kq \<Rightarrow> kq_errno option \<times> kq" where
  "kevent_change fd filt flags q =
     (if \<not> kq_open q then (Some EBADF, q)
      else if has_bit flags EV_DELETE
      then (if (fd, filt) \<in> set (filters q)
            then (None, q\<lparr>filters := removeAll (fd, filt) (filters q)\<rparr>)
            else (Some ENOENT, q))
      else (None, q\<lparr>filters := List.insert (fd, filt) (filters q)\<rparr>))"

definition update_filter :: "int \<Rightarrow> kfilter \<Rightarrow> c_int \<Rightarrow> bool \<Rightarrow> kq \<Rightarrow> int \<times> kq" where
  "update_filter fd filt flags ignore_missing q =
     (case kevent_change fd filt flags q of
        (Some e, q') \<Rightarrow> (if ignore_missing \<and> e = ENOENT then (0, q') else (- 1, q'))
      | (None, q') \<Rightarrow> (0, q'))"

definition kq_event_loop_create :: "bool \<Rightarrow> int \<Rightarrow> kq \<Rightarrow> int \<times> kq" where
  "kq_event_loop_create ok fd q = (if ok then (fd, \<lparr>kq_open = True, filters = []\<rparr>) else (- 1, q))"

definition kq_event_loop_add :: "int \<Rightarrow> c_int \<Rightarrow> kq \<Rightarrow> int \<times> kq" where
  "kq_event_loop_add fd events q =
     (let (r1, q1) = (if has_bit events FSS_EVENT_READ
                      then update_filter fd EVFILT_READ (EV_ADD OR EV_ENABLE) False q else (0, q)) in
      if r1 = - 1 then (- 1, q1)
      else let (r2, q2) = (if has_bit events FSS_EVENT_WRITE
                      then update_filter fd EVFILT_WRITE (EV_ADD OR EV_ENABLE) False q1 else (0, q1)) in
      if r2 = - 1 then (- 1, q2) else (0, q2))"

definition kq_event_loop_modify :: "int \<Rightarrow> c_int \<Rightarrow> kq \<Rightarrow> int \<times> kq" where
  "kq_event_loop_modify fd events q =
     (let (r1, q1) = update_filter fd EVFILT_READ
                       (if has_bit events FSS_EVENT_READ then EV_ADD OR EV_ENABLE else EV_DELETE) True q in
      if r1 = - 1 then (- 1, q1)
      else let (r2, q2) = update_filter fd EVFILT_WRITE
                       (if has_bit events FSS_EVENT_WRITE then EV_ADD OR EV_ENABLE else EV_DELETE) True q1 in
      if r2 = - 1 then (- 1, q2) else (0, q2))"

definition kq_event_loop_remove :: "int \<Rightarrow> kq \<Rightarrow> int \<times> kq" where
  "kq_event_loop_remove fd q =
     (let (read_result, q1) = update_filter fd EVFILT_READ EV_DELETE True q;
          (write_result, q2) = update_filter fd EVFILT_WRITE EV_DELETE True q1
      in (if read_result = - 1 \<and> write_result = - 1 then - 1 else 0, q2))"

definition from_kevent :: "int \<times> kfilter \<times> c_int \<Rightarrow> int \<times> c_int" where
  "from_kevent raw =
     (case raw of (ident, filt, flags) \<Rightarrow>
        (ident, or_if (or_if (or_if 0 FSS_EVENT_READ (filt = EVFILT_READ))
                             FSS_EVENT_WRITE (filt = EVFILT_WRITE))
                      FSS_EVENT_ERROR (has_bit flags EV_ERROR)))"

definition kq_event_loop_wait :: "kq_errno + (int \<times> kfilter \<times> c_int) list \<Rightarrow> kq_errno + (int \<times> c_int) list" where
  "kq_event_loop_wait outcome = map_sum id (map from_kevent) outcome"

subsection \<open>It meets the contract\<close>

definition kq_watched :: "kq \<Rightarrow> int \<Rightarrow> c_int" where
  "kq_watched q fd =
     or_if (or_if 0 FSS_EVENT_READ ((fd, EVFILT_READ) \<in> set (filters q)))
       FSS_EVENT_WRITE ((fd, EVFILT_WRITE) \<in> set (filters q))"

definition kq_known :: "kq \<Rightarrow> int \<Rightarrow> bool" where
  "kq_known q fd \<longleftrightarrow> (fd, EVFILT_READ) \<in> set (filters q) \<or> (fd, EVFILT_WRITE) \<in> set (filters q)"

definition kq_reports :: "kq \<Rightarrow> int \<times> kfilter \<times> c_int \<Rightarrow> bool" where
  "kq_reports q raw = (case raw of (ident, filt, flags) \<Rightarrow> (ident, filt) \<in> set (filters q))"

lemma kq_bits [simp]:
  "has_bit EV_DELETE EV_DELETE" "\<not> has_bit (EV_ADD OR EV_ENABLE) EV_DELETE"
  by (simp_all add: has_bit_def kq_flag_defs)

lemmas kq_ops = kevent_change_def update_filter_def kq_event_loop_add_def kq_event_loop_modify_def
  kq_event_loop_remove_def

interpretation kqueue: event_queue kq_event_loop_add kq_event_loop_modify kq_event_loop_remove
    from_kevent kq_reports kq_watched kq_known kq_open
proof
  fix q fd g ev raw m
  show "kq_watched q fd = 0" if "\<not> kq_known q fd"
    using that by (simp add: kq_known_def kq_watched_def or_if_def)
  show "kq_known (snd (kq_event_loop_remove fd q)) g \<longleftrightarrow> g \<noteq> fd \<and> kq_known q g" if "kq_open q"
    using that by (auto simp: kq_ops kq_known_def Let_def)
  show "kq_known (snd (kq_event_loop_add fd ev q)) g \<longleftrightarrow> g = fd \<or> kq_known q g"
    if "kq_open q" and "\<not> kq_known q fd" and "one_way ev"
    using that by (auto simp: kq_ops kq_known_def one_way_def)
  show "kq_known (snd (kq_event_loop_modify fd ev q)) g \<longleftrightarrow> kq_known q g"
    if "kq_open q" and "kq_known q fd" and "one_way ev"
    using that by (auto simp: kq_ops kq_known_def one_way_def)
  show "kq_open (snd (kq_event_loop_add fd ev q)) = kq_open q"
    and "kq_open (snd (kq_event_loop_modify fd ev q)) = kq_open q"
    and "kq_open (snd (kq_event_loop_remove fd q)) = kq_open q"
    by (simp_all add: kq_ops Let_def)
  show "kq_watched (snd (kq_event_loop_remove fd q)) = (kq_watched q)(fd := 0)" if "kq_open q"
    using that by (auto simp: kq_ops kq_watched_def Let_def or_if_def fun_eq_iff)
  show "fst (kq_event_loop_add fd ev q) = 0
        \<and> kq_watched (snd (kq_event_loop_add fd ev q)) = (kq_watched q)(fd := ev)"
    if "kq_open q" and "\<not> kq_known q fd" and "one_way ev"
    using that by (auto simp: kq_ops kq_watched_def kq_known_def one_way_def or_if_def fun_eq_iff)
  show "fst (kq_event_loop_modify fd ev q) = 0
        \<and> kq_watched (snd (kq_event_loop_modify fd ev q)) = (kq_watched q)(fd := ev)"
    if "kq_open q" and "kq_known q fd" and "one_way ev"
    using that by (auto simp: kq_ops kq_watched_def kq_known_def one_way_def or_if_def fun_eq_iff)
  show "has_bit (kq_watched q fd) FSS_EVENT_READ"
    if "kq_reports q raw" and "from_kevent raw = (fd, m)" and "has_bit m FSS_EVENT_READ"
    using that by (cases raw) (auto simp: kq_reports_def from_kevent_def kq_watched_def has_bit_or_if)
  show "has_bit (kq_watched q fd) FSS_EVENT_WRITE"
    if "kq_reports q raw" and "from_kevent raw = (fd, m)" and "has_bit m FSS_EVENT_WRITE"
    using that by (cases raw) (auto simp: kq_reports_def from_kevent_def kq_watched_def has_bit_or_if)
qed

end
