(* ===== verification/Spec2Isabelle.thy ===== *)
theory Spec2Isabelle
  imports Fss_System Fss_Server_Failures Fss_Server_Overlong Fss_Server_Shared_Upload Fss_Server_Main Fss_Kqueue
begin

text \<open>
  The verification of the file server and of its client (\<open>src/server.c\<close>, \<open>src/client.c\<close>,
  \<open>src/common.c\<close>, \<open>src/collections.c\<close>, \<open>src/event_loop_epoll.c\<close>,
  \<open>src/event_loop_kqueue.c\<close>, \<open>src/format.c\<close>).

  \<^bold>\<open>The program.\<close> A single-threaded server waits on an event queue (epoll or kqueue). The
  event loop of \<open>main\<close> looks the descriptor of an event up in a dictionary from descriptors to
  connection objects and calls the read or the write handler of the connection; a handler
  runs the state machine of the connection as far as the socket lets it, and frees the object
  when it closes the connection. Stored files are in a temporary directory, their names in a
  vector. A client connects, sends one request with blocking calls, and prints or stores the
  reply.

  \<^bold>\<open>The operating system\<close> (\<open>Fss_Posix\<close>) is explicit state, the record \<open>kernel\<close>: the
  descriptor table, the two directions of every connection, the file system (directory
  entries, inodes, path resolution), and the interest list of the epoll instance. What the system may
  decide freely is a script that the calls consume: what the reads of a connection find
  (segments of any length, interruptions, nothing yet, the end, an error), how much each
  write takes, which accesses to files and which allocations fail. A theorem for every script is a
  theorem for every fragmentation, delay and failure.

  \<^bold>\<open>Theories and code.\<close>
  \<^item> \<open>Fss_Prelude\<close>: bytes, \<open>size_t\<close> as 64-bit words and its raw bytes, the string functions,
    allocation scripts. \<open>Fss_Format\<close>: the messages of \<open>format.c\<close>.
  \<^item> \<open>Fss_Vector\<close>, \<open>Fss_Dictionary\<close>: \<open>collections.c\<close>. The locales \<open>dyn_array\<close> and
    \<open>finite_map\<close> are the contracts that the server relies on; the interpretations \<open>vec\<close> and
    \<open>dict\<close> discharge them for the code.
  \<^item> \<open>Fss_Event_Loop\<close>, \<open>Fss_Epoll\<close>, \<open>Fss_Kqueue\<close>: the interface \<open>event_loop.h\<close> as the locale
    \<open>event_queue\<close>, and the two implementations, both of which interpret it.
  \<^item> \<open>Fss_Common\<close>: the blocking helpers of \<open>common.c\<close>, over the locale \<open>byte_source\<close>, which
    the blocking and the non-blocking \<open>read\<close> interpret.
  \<^item> \<open>Fss_Server_State\<close> (the globals and \<open>client_t\<close>), \<open>Fss_Server_Files\<close> (the list of names),
    \<open>Fss_Server_Response\<close>, \<open>Fss_Server_Put\<close>, \<open>Fss_Server_Get\<close>, \<open>Fss_Server_Loop\<close> (parser,
    handlers, accepting, event loop, set-up, clean-up, \<open>main\<close>): \<open>server.c\<close>, one definition per
    function and one per loop.
  \<^item> \<open>Fss_Client_App\<close>: \<open>client.c\<close>. \<open>Fss_Client_Run\<close>: what its request handlers and its
    argument parser do.
  \<^item> \<open>Fss_Server_Inv\<close>, \<open>Fss_Server_Safety\<close>, \<open>Fss_Server_Machine\<close>: the invariant \<open>server_ok\<close>,
    its preservation by every handler (locale \<open>conn_handler\<close>, interpreted by the three handlers),
    the step relation \<open>server_step\<close>, the reachable states, the diagrams of \<open>docs/design.md\<close>.
  \<^item> \<open>Fss_Server_Run\<close>, \<open>Fss_Server_Send\<close>: what the receiving loops and the sending states do,
    for every script. \<open>Fss_Server_Talk\<close>, \<open>Fss_Server_Request\<close>: the locales \<open>conversation\<close>,
    \<open>exchange\<close> and \<open>request\<close>, which take a connection from its first event to its end.
    \<open>Fss_Server_Answers\<close>, \<open>Fss_Server_Upload\<close>, \<open>Fss_Server_Overlong\<close> interpret them for the
    requests of the protocol; \<open>Fss_Server_Service\<close> states the results.
  \<^item> \<open>Fss_Server_Shared\<close>: conversations mixed with events of other connections and with new
    connections. The locales \<open>shared\<close> and \<open>shared_exchange\<close> extend \<open>conversation\<close> and
    \<open>exchange\<close> by a relation that says what the others may do to the stored files; their interpretations give the download
    and the refusal, and in \<open>Fss_Server_Shared_Upload\<close> the upload.
  \<^item> \<open>Fss_Server_Failures\<close>: broken connections, set-up and clean-up. \<open>Fss_Server_Main\<close>: whole
    runs of \<open>main\<close>, from the set-up to the wait that a signal interrupts and the clean-up.
    \<open>Fss_System\<close>: a client at the other end of a connection of the server. \<open>Fss_Demo\<close>: the concrete server of the
    witnesses.

  \<^bold>\<open>What is shown.\<close> Safety, for every reachable state and whatever the environment does: no
  freed connection object is used, all counters stay inside the arrays they index, the
  connections follow the documented state machine and do not interfere. Service, for every
  fragmentation and every long enough sequence of events: each request of the protocol gets
  exactly its reply and has exactly its effect on the stored files; what is uploaded is what
  is downloaded, also end to end between two clients. Downloads, uploads and refusals are
  exact too when any events of other connections come in between, as long as these leave the
  file of the conversation alone. \<open>main\<close> runs through every sequence of waits, stops at
  \<open>SIGINT\<close> and cleans up. Client: the command lines that are accepted, what each request
  sends, stores and prints. Failure: what the server does with
  overlong, malformed and broken-off requests, including the cases in which it departs from
  its documentation. Components: the collections implement a map and a list, the helpers
  deliver exact byte counts, the two event loops agree.

  \<^bold>\<open>Bounds.\<close> No definition uses fuel: every loop is a total function with a measure (what a
  connection will still deliver, or the bytes left to be sent), so each theorem is about runs
  that end. The hypothesis \<open>enough\<close> of the service theorems asks for at least \<open>b\<close> reads followed by at least \<open>b\<close>
  writes, where \<open>b\<close> is \<open>script_len\<close> (all that the two scripts of the connection can still
  say) plus the length of the reply: an event either uses up an entry of a script or moves
  at least one byte. \<open>MAX_HEADER_LEN\<close>, 100 and 12 bound the replies of an upload, of an error and
  the header of a download. In the theorems with events of others, \<open>own_times\<close> counts the
  events of the connection itself against the same bound; those of others are not limited.

  \<^bold>\<open>Not modelled.\<close> The prototypes of \<open>include/fss\<close> that no source file implements (\<open>set.h\<close>,
  \<open>graph.h\<close>, \<open>queue.h\<close>, \<open>compare.h\<close>, \<open>callbacks.h\<close> and most of \<open>vector.h\<close> and
  \<open>dictionary.h\<close>); output on the standard error stream; socket options and address
  resolution, whose outcomes are part of the scripts; \<open>install_sigint_handler\<close>, whose effect,
  that the handler runs during a wait, is a flag of the modelled waits; a failure of \<open>fcntl\<close> on
  an accepted socket, which the code ignores (accepted sockets are taken to be non-blocking); the failure of the unchecked
  allocations (\<open>calloc\<close> in \<open>client_create\<close>, \<open>strdup\<close>); the freeing of the connection objects that are open when
  \<open>main\<close> returns, which the code leaves to the end of the process.
\<close>

section \<open>Safety of the running server\<close>

text \<open>C8: No use after free. In every state that the server can reach after its set-up, whatever
  the clients, the disk and the allocator do, every batch of events that \<open>epoll_wait\<close> can
  report there is handled without reading a connection object that has been freed: neither
  one the map still names, nor the one the read handler has just closed when the write bit
  of the same event is tested.\<close>

theorem no_use_after_free:
  assumes "server_setup m (initial_globals k) = (0, s0)" and "reachable s0 s"
    and "\<forall>raw \<in> set raws. epoll_reports (kern s) raw"
    and "event_loop_wait (Inr raws) = Inr es"
  shows "\<exists>s'. handle_events es s = Some s'"
proof -
  have ok: "server_ok s" using reachable_ok [OF assms(2)] setup_ok [OF assms(1)] by blast
  from handle_events_ok [OF ok batch_one_way [OF ok assms(3,4)]] show ?thesis by blast
qed

theorem no_use_after_free_witness:
  "\<exists>s'. handle_events [(0, FSS_EVENT_READ)] (demo_start [] [] [] []) = Some s'"
proof (rule no_use_after_free [OF demo_setup Start])
  show "\<forall>raw \<in> set [(0, EPOLLIN)]. epoll_reports (kern (demo_start [] [] [] [])) raw" by code_simp
  show "event_loop_wait (Inr [(0, EPOLLIN)]) = Inr [(0, FSS_EVENT_READ)]" by code_simp
qed

text \<open>C11: No overflow. In every reachable state the counters of every connection are within the
  arrays they index: the header and the response in their 1024 bytes, the file name in its
  256, the transferred bytes within the announced size (so the unsigned subtractions that
  compute what is left do not wrap), the list offset within the list buffer.\<close>

theorem buffers_within_bounds:
  assumes "server_setup m (initial_globals k) = (0, s0)" and "reachable s0 s" and "heap s p = Some c"
  shows "length (c_header_buf c) < MAX_HEADER_LEN \<and> length (c_filename c) < 256
    \<and> c_resp_sent c \<le> c_resp_len c \<and> c_resp_len c \<le> length (c_resp_buf c) \<and> length (c_resp_buf c) < MAX_HEADER_LEN
    \<and> (c_state c = STATE_RECV_PUT_SIZE \<longrightarrow> c_bytes_transferred c \<le> size_len)
    \<and> (c_state c = STATE_RECV_PUT_DATA \<longrightarrow> c_bytes_transferred c \<le> c_expected_size c)
    \<and> (c_state c = STATE_SEND_GET_DATA \<longrightarrow> c_bytes_transferred c \<le> c_file_size c)
    \<and> (c_state c = STATE_SEND_LIST_DATA \<longrightarrow>
         c_list_sent c \<le> c_list_len c \<and> map_option length (c_list_buf c) = Some (c_list_len c))"
proof -
  have "client_ok c"
    using reachable_ok [OF assms(2)] setup_ok [OF assms(1)] assms(3) by (simp add: server_ok_def)
  then show ?thesis
    by (cases "c_state c") (auto simp: client_ok_def name_ok_def response_ok_def state_ok_def)
qed

theorem buffers_within_bounds_witness:
  "length (c_header_buf (client_create 2)) < MAX_HEADER_LEN"
  using buffers_within_bounds [OF demo_setup demo_reachable demo_facts(2)] by blast

text \<open>C10: The connections follow the state machine of \<open>docs/design.md\<close>. Handling an event either
  closes the connection, which then is gone from the map, the heap and the descriptor table
  together, or moves it along the arrows of the diagrams (possibly several at once), never
  backwards; the state \<open>STATE_DONE\<close> is never left behind.\<close>

theorem design_state_machine:
  assumes "server_ok s" and "\<not> (has_bit m FSS_EVENT_READ \<and> has_bit m FSS_EVENT_WRITE)"
    and "fd \<noteq> listen_fd s" and "dict_lookup (fd_to_client s) fd = Some p" and "heap s p = Some c"
    and "handle_event (fd, m) s = Some s'"
  shows "heap s' p = None \<and> dict_lookup (fd_to_client s') fd = None \<and> map_of (fds (kern s')) fd = None
       \<or> (\<exists>c'. heap s' p = Some c' \<and> dict_lookup (fd_to_client s') fd = Some p
             \<and> arrows (at c) (at c') \<and> c_state c \<le> c_state c' \<and> c_state c' \<noteq> STATE_DONE)"
  using event_moves [OF assms] arrows_forward
  by (fastforce simp: client_ok_def state_ok_def)

theorem design_state_machine_witness:
  "\<exists>s'. handle_event (2, FSS_EVENT_READ) (demo_server [] [] [Data CHR ''P'' (''UT a'' @ [NL])] []) = Some s' \<and>
     (\<exists>c'. heap s' 0 = Some c' \<and> arrows (GET, STATE_RECV_HEADER) (at c'))"
proof -
  let ?s = "demo_server [] [] [Data CHR ''P'' (''UT a'' @ [NL])] []"
  obtain s' where s': "handle_event (2, FSS_EVENT_READ) ?s = Some s'"
    using handle_event_ok [OF demo_ok, of FSS_EVENT_READ 2] by fastforce
  have "map_option (\<lambda>s. heap s 0 \<noteq> None) (handle_event (2, FSS_EVENT_READ) ?s) = Some True" by code_simp
  then have "heap s' 0 \<noteq> None" using s' by simp
  moreover have "at (client_create 2) = (GET, STATE_RECV_HEADER)" by (simp add: client_create_def)
  ultimately show ?thesis
    using design_state_machine [OF demo_ok _ _ demo_map demo_facts(2) s'] s' by auto
qed

text \<open>C12: Connections do not interfere. Handling an event of one connection leaves every other
  connection's object, its entry in the map, its registration with the event queue, its
  descriptors and the bytes waiting on its socket as they were.\<close>

theorem connections_isolated:
  assumes "server_ok s" and "\<not> (has_bit m FSS_EVENT_READ \<and> has_bit m FSS_EVENT_WRITE)"
    and "fd \<noteq> listen_fd s" and "dict_lookup (fd_to_client s) fd = Some p"
    and "handle_event (fd, m) s = Some s'" and "q \<noteq> p" and "heap s q = Some d"
    and "map_of (fds (kern s)) (c_fd d) = Some (OSock n)" and "map_of (fds (kern s)) fd \<noteq> Some (OSock n)"
  shows "heap s' q = Some d \<and> dict_lookup (fd_to_client s') (c_fd d) = dict_lookup (fd_to_client s) (c_fd d)
    \<and> ep_watched (kern s') (c_fd d) = ep_watched (kern s) (c_fd d)
    \<and> map_of (fds (kern s')) (c_fd d) = Some (OSock n) \<and> conns (kern s') n = conns (kern s) n
    \<and> (c_file_fd d \<noteq> - 1 \<longrightarrow> map_of (fds (kern s')) (c_file_fd d) = map_of (fds (kern s)) (c_file_fd d))"
  using event_frame [OF assms(1-7)] assms(8,9) by simp


theorem connections_isolated_witness:
  "\<exists>s'. handle_event (2, FSS_EVENT_READ) (demo_server [] [] [Data CHR ''x'' [NL]] []) = Some s' \<and>
     heap s' 1 = Some (client_create 3) \<and> rx (conns (kern s') 1) = [Data CHR ''x'' [NL]]"
proof -
  let ?s = "demo_server [] [] [Data CHR ''x'' [NL]] []"
  obtain s' where s': "handle_event (2, FSS_EVENT_READ) ?s = Some s'"
    using handle_event_ok [OF demo_ok, of FSS_EVENT_READ 2] by fastforce
  have "c_fd (client_create 3) = 3" by (simp add: client_create_def)
  then show ?thesis
    using connections_isolated [OF demo_ok _ _ demo_map s' _ demo_facts(3), of 1] s' by simp
qed

text \<open>C9: The invariant. Every reachable state has it: the map names exactly live objects whose
  descriptor is the key, descriptors are open, of the right kind and not shared between
  connections, every mapped connection is registered with the queue for one direction, the
  list of file names has no duplicates.\<close>

theorem reachable_invariant:
  assumes "server_setup m (initial_globals k) = (0, s0)" and "reachable s0 s"
  shows "server_ok s \<and> distinct (files_of s)
    \<and> (\<forall>fd p. dict_lookup (fd_to_client s) fd = Some p \<longrightarrow>
         (\<exists>c. heap s p = Some c \<and> c_fd c = fd \<and> client_ok c) \<and> sock_open (kern s) fd
         \<and> (one_way (ep_watched (kern s) fd) \<or> ep_watched (kern s) fd = 0))"
proof -
  have ok: "server_ok s" using reachable_ok [OF assms(2)] setup_ok [OF assms(1)] by blast
  have "(\<exists>c. heap s p = Some c \<and> c_fd c = fd \<and> client_ok c) \<and> sock_open (kern s) fd
        \<and> (one_way (ep_watched (kern s) fd) \<or> ep_watched (kern s) fd = 0)"
    if "dict_lookup (fd_to_client s) fd = Some p" for fd p
  proof -
    from held_start [OF ok that] obtain c where c: "heap s p = Some c" "c_fd c = fd" "held p s c s" "client_ok c"
      by blast
    then show ?thesis
      using owns_own(1) [OF heldD(3) [OF c(3)]] heldD(2) [OF c(3)] by (auto simp: queue_ok_def epoll.single_def)
  qed
  with ok show ?thesis by (simp add: server_ok_def link_ok_def files_ok_def)
qed

theorem reachable_invariant_witness: "distinct (files_of (demo_server [] [] [] []))"
  using reachable_invariant [OF demo_setup demo_reachable] by blast

section \<open>The two event loops\<close>

text \<open>C34: The epoll and the kqueue implementation are interchangeable. After any sequence of
  registrations, changes and removals, made the way the server makes them, both queues watch
  every descriptor for the same directions, and these are the last ones asked for.\<close>

theorem event_loops_agree:
  assumes "ep_alive lfd k" and "interest k = []" and "kq_open q" and "filters q = []"
    and "ops_allowed (\<lambda>fd. 0) ops"
  shows "ep_watched (foldl (run_op (event_loop_add lfd) (event_loop_modify lfd) (event_loop_remove lfd)) k ops)
           = foldl op_spec (\<lambda>fd. 0) ops
    \<and> kq_watched (foldl (run_op kq_event_loop_add kq_event_loop_modify kq_event_loop_remove) q ops)
           = foldl op_spec (\<lambda>fd. 0) ops"
proof -
  have e: "ep_watched k = (\<lambda>fd. 0)" "epoll.exact lfd k"
    using assms(1,2) by (auto simp: epoll.exact_def ep_watched_def ep_known_def)
  have q: "kq_watched q = (\<lambda>fd. 0)" "kqueue.exact q"
    using assms(3,4) by (auto simp: kqueue.exact_def kq_watched_def kq_known_def or_if_def)
  show ?thesis using epoll.run_ops(1) [OF e(2)] kqueue.run_ops(1) [OF q(2)] assms(5) by (simp add: e(1) q(1))
qed

theorem event_loops_agree_witness:
  "kq_watched (foldl (run_op kq_event_loop_add kq_event_loop_modify kq_event_loop_remove) \<lparr>kq_open = True, filters = []\<rparr>
     [Add 5 FSS_EVENT_READ, Modify 5 FSS_EVENT_WRITE, Add 6 FSS_EVENT_READ, Remove 6]) 5 = FSS_EVENT_WRITE"
proof -
  let ?k = "(kern (demo_start [] [] [] []))\<lparr>interest := []\<rparr>" and ?q = "\<lparr>kq_open = True, filters = []\<rparr>"
  have "map_of (fds (kern (demo_start [] [] [] []))) 1 = Some OLoop" by code_simp
  then have k: "ep_alive 1 ?k" by (simp add: ep_alive_def)
  have "ops_allowed (\<lambda>fd. 0) [Add 5 FSS_EVENT_READ, Modify 5 FSS_EVENT_WRITE, Add 6 FSS_EVENT_READ, Remove 6]"
    by (simp add: one_way_def)
  from event_loops_agree [OF k _ _ _ this, of ?q] show ?thesis by simp
qed

section \<open>The whole system\<close>


definition demo_world :: "rd_ev list \<Rightarrow> (string \<Rightarrow> byte list option) \<Rightarrow> world" where
  "demo_world r files = \<lparr>w_sock = \<lparr>rx = r, tx = [Room 3], sent = []\<rparr>, w_shut = False, w_out = [], w_out_tx = [],
     w_files = files, w_file_tx = [Room 0], w_create_ok = True, w_alloc = []\<rparr>"


end
